(* ===== verification/Prelude.thy ===== *)
theory Prelude
  imports Main "HOL-Library.Word" "HOL-Library.Monad_Syntax" "HOL-Library.Sublist"
begin

text \<open>
  Shared vocabulary of the development: the machine types of the source as
  type synonyms, list edits at an index (the shape every array update of the
  tree takes once it is read as a list), the collections of rewrite rules the
  component theories add to, and a handful of facts about shifts and masks on
  words that are not in the library in the form the proofs need.
\<close>

unbundle bit_operations_syntax

section \<open>Machine types\<close>

text \<open>\<open>char\<close> is read as an unsigned byte, as \<open>memcmp\<close> and \<open>memcpy\<close> read it.\<close>

type_synonym byte = "8 word"
type_synonym bytes = "byte list"
type_synonym u32 = "32 word"
type_synonym u64 = "64 word"

section \<open>Collections of rewrite rules\<close>

named_theorems perm_simps \<open>element-wise effect of the permuter operations\<close>
named_theorems version_simps \<open>bit-wise effect of the node version operations\<close>
named_theorems key_simps \<open>evaluation of keys and key comparison\<close>
named_theorems heap_simps \<open>reads after writes in the node heap\<close>

section \<open>Lists edited at an index\<close>

definition list_ins :: "nat \<Rightarrow> 'a \<Rightarrow> 'a list \<Rightarrow> 'a list" where
  "list_ins i x xs = take i xs @ x # drop i xs"

definition list_del :: "nat \<Rightarrow> 'a list \<Rightarrow> 'a list" where
  "list_del i xs = take i xs @ drop (Suc i) xs"

lemma length_list_ins [simp]: "length (list_ins i x xs) = Suc (length xs)"
  by (simp add: list_ins_def)

lemma length_list_del [simp]: "i < length xs \<Longrightarrow> length (list_del i xs) = length xs - 1"
  by (simp add: list_del_def)

lemma set_list_ins [simp]: "set (list_ins i x xs) = insert x (set xs)"
proof -
  have "set (take i xs) \<union> set (drop i xs) = set xs"
    by (metis append_take_drop_id set_append)
  then show ?thesis by (auto simp: list_ins_def)
qed

lemma nth_list_ins:
  "i \<le> length xs \<Longrightarrow> j \<le> length xs \<Longrightarrow>
   list_ins i x xs ! j = (if j < i then xs ! j else if j = i then x else xs ! (j - 1))"
  by (auto simp: list_ins_def nth_append nth_Cons' min_def)

lemma nth_list_del:
  "i < length xs \<Longrightarrow> j < length xs - 1 \<Longrightarrow>
   list_del i xs ! j = (if j < i then xs ! j else xs ! Suc j)"
  by (auto simp: list_del_def nth_append min_def)

lemma map_list_ins: "map f (list_ins i x xs) = list_ins i (f x) (map f xs)"
  by (simp add: list_ins_def take_map drop_map)

lemma map_list_del: "map f (list_del i xs) = list_del i (map f xs)"
  by (simp add: list_del_def take_map drop_map)

lemma list_del_list_ins: "i \<le> length xs \<Longrightarrow> list_del i (list_ins i x xs) = xs"
  by (simp add: list_ins_def list_del_def)

lemma distinct_list_ins:
  "distinct (list_ins i x xs) \<longleftrightarrow> distinct xs \<and> x \<notin> set xs"
proof -
  have "distinct (take i xs @ x # drop i xs) \<longleftrightarrow> distinct (take i xs @ drop i xs) \<and>
      x \<notin> set (take i xs @ drop i xs)"
    by (simp del: append_take_drop_id) blast
  then show ?thesis by (simp add: list_ins_def)
qed

section \<open>Masks and shifts\<close>

lemma mask_le_bit [simp]: "bit (mask n :: 'a::len word) k \<longleftrightarrow> k < min LENGTH('a) n"
  by (auto simp: bit_mask_iff)

lemma push_bit_exp: "push_bit n (2 ^ k :: 'a::len word) = 2 ^ (n + k)"
  by (simp add: push_bit_eq_mult power_add mult.commute)

lemma low_mask_16: "push_bit n (16 :: 'a::len word) - 1 = mask (n + 4)"
  using push_bit_exp [of n 4] by (simp add: mask_eq_exp_minus_1)

lemma low_mask_256: "push_bit n (256 :: 'a::len word) - 1 = mask (n + 8)"
  using push_bit_exp [of n 8] by (simp add: mask_eq_exp_minus_1)

lemma mask_4: "(15 :: 'a::len word) = mask 4"
  by (simp add: mask_eq_exp_minus_1)

lemma unat_and_15_le: "unat (x AND 15 :: u64) < 16"
proof -
  have "x AND 15 \<le> (15 :: u64)" by (rule word_and_le1)
  then have "unat (x AND 15) \<le> unat (15 :: u64)" by (simp only: word_le_nat_alt)
  then show ?thesis by simp
qed

end
