(* ===== verification/KPermuter.thy ===== *)
theory KPermuter
  imports Prelude "HOL-Library.Multiset"
begin

text \<open>
  The permuter of \<open>kpermuter.hh\<close>: one 64-bit word whose low nibble is the number of
  keys in a node and whose next \<open>W\<close> nibbles are a permutation of the slot numbers
  \<open>0 .. W - 1\<close>. The width \<open>W\<close> is the class template's parameter; the 64-bit storage
  of \<open>sized_kpermuter_info<2>\<close>, the one the default table uses (\<open>W = 15\<close>), is the
  storage of every width from 8 to 15. The word operations are the code's; the
  abstract reading is \<open>plist W x\<close>, the list of slot numbers, and each operation is
  proved to be an edit of that list.
\<close>

section \<open>The operations of the code\<close>

definition initial_value :: u64 where
  "initial_value = 0x0123456789ABCDE0"

definition full_value :: u64 where
  "full_value = 0xEDCBA98765432100"

definition make_empty :: "nat \<Rightarrow> u64" where
  "make_empty W = drop_bit (4 * (15 - W)) initial_value AND NOT 15"

definition make_sorted :: "nat \<Rightarrow> nat \<Rightarrow> u64" where
  "make_sorted W n =
     (let msk = (if n = W then 0 else push_bit (4 * n) 16) - 1
      in push_bit (4 * n) (make_empty W) OR (full_value AND msk) OR of_nat n)"

definition perm_size :: "u64 \<Rightarrow> nat" where
  "perm_size x = unat (x AND 15)"

definition perm_get :: "u64 \<Rightarrow> nat \<Rightarrow> nat" where
  "perm_get x i = unat (drop_bit (4 * i + 4) x AND 15)"

definition perm_back :: "nat \<Rightarrow> u64 \<Rightarrow> nat" where
  "perm_back W x = perm_get x (W - 1)"

definition value_from :: "u64 \<Rightarrow> nat \<Rightarrow> u64" where
  "value_from x i = drop_bit (4 * (i + 1)) x"

definition set_size :: "u64 \<Rightarrow> nat \<Rightarrow> u64" where
  "set_size x n = (x AND NOT 15) OR of_nat n"

definition insert_from_back :: "nat \<Rightarrow> u64 \<Rightarrow> nat \<Rightarrow> u64 \<times> nat" where
  "insert_from_back W x i =
     (let v = perm_back W x
      in (((x + 1) AND (push_bit (4 * i) 16 - 1))
            OR push_bit (4 * i + 4) (of_nat v)
            OR (push_bit 4 x AND NOT (push_bit (4 * i) 256 - 1)), v))"

definition insert_selected :: "u64 \<Rightarrow> nat \<Rightarrow> nat \<Rightarrow> u64" where
  "insert_selected x di si =
     (let v = perm_get x si;
          msk = push_bit (4 * si) 256 - 1
      in ((x + 1) AND (push_bit (4 * di) 16 - 1))
           OR push_bit (4 * di + 4) (of_nat v)
           OR (push_bit 4 x AND msk AND NOT (push_bit (4 * di) 256 - 1))
           OR (x AND NOT msk))"

definition remove :: "u64 \<Rightarrow> nat \<Rightarrow> u64" where
  "remove x i =
     (if perm_size x = i + 1 then x - 1
      else
        (let rot_amount = 4 * (perm_size x - i - 1);
             rot_mask = push_bit (4 * (i + 1)) (push_bit rot_amount 16 - 1)
         in ((x - 1) AND NOT rot_mask)
              OR (drop_bit 4 (x AND rot_mask) AND rot_mask)
              OR (push_bit rot_amount (x AND rot_mask) AND rot_mask)))"

definition remove_to_back :: "nat \<Rightarrow> u64 \<Rightarrow> nat \<Rightarrow> u64" where
  "remove_to_back W x0 i =
     (let msk = NOT (push_bit (4 * i) 16 - 1);
          x = x0 AND (push_bit (4 * W) 16 - 1)
      in ((x - 1) AND NOT msk)
           OR (drop_bit 4 x AND msk)
           OR push_bit (4 * (W - i - 1)) (x AND msk))"

definition rotate_perm :: "nat \<Rightarrow> u64 \<Rightarrow> nat \<Rightarrow> nat \<Rightarrow> u64" where
  "rotate_perm W x0 i j =
     (let msk = (if i = W then 0 else push_bit (4 * i) 16) - 1;
          x = x0 AND (push_bit (4 * W) 16 - 1)
      in (x AND msk)
           OR (drop_bit (4 * (j - i)) x AND NOT msk)
           OR push_bit (4 * (W - j)) (x AND NOT msk))"

definition exchange :: "u64 \<Rightarrow> nat \<Rightarrow> nat \<Rightarrow> u64" where
  "exchange x i j =
     (let diff = (drop_bit (4 * i) x XOR drop_bit (4 * j) x) AND 240
      in x XOR (push_bit (4 * i) diff OR push_bit (4 * j) diff))"

text \<open>The loop of \<open>exchange_values\<close>: \<open>n\<close> iterations are left; \<open>diff\<close> is shifted
  after each one, as the \<open>for\<close> header does.\<close>

fun exchange_values_loop :: "nat \<Rightarrow> nat \<Rightarrow> u64 \<Rightarrow> u64 \<Rightarrow> nat \<Rightarrow> nat \<Rightarrow> u64" where
  "exchange_values_loop 0 W diff p a b = diff"
| "exchange_values_loop (Suc n) W diff p a b =
     (let v = unat (drop_bit (4 * W) p AND 15);
          flip = (if v = a \<or> v = b then of_nat a XOR of_nat b else 0)
      in exchange_values_loop n W (push_bit 4 (diff XOR flip)) (push_bit 4 p) a b)"

definition exchange_values :: "nat \<Rightarrow> u64 \<Rightarrow> nat \<Rightarrow> nat \<Rightarrow> u64" where
  "exchange_values W x a b = x XOR exchange_values_loop W W 0 x a b"

text \<open>\<open>unparse\<close> prints the slots in order, a colon where the free ones start, and the mark
  \<open>?!\<close> when the slots seen are not exactly \<open>0 .. W - 1\<close>. \<open>seen\<close> is a 64-bit set of bits.\<close>

definition unparse_digit :: "nat \<Rightarrow> byte" where
  "unparse_digit d = (if d < 10 then 48 + of_nat d else 97 + of_nat d - 10)"

fun unparse_loop :: "nat \<Rightarrow> nat \<Rightarrow> nat \<Rightarrow> u64 \<Rightarrow> u64 \<Rightarrow> bytes \<times> u64" where
  "unparse_loop 0 i n p seen = ((if i = n then [58] else []), seen)"
| "unparse_loop (Suc k) i n p seen =
     (let d = unat (p AND 15);
          (s, seen') = unparse_loop k (Suc i) n (drop_bit 4 p) (seen OR push_bit d 1)
      in ((if i = n then [58] else []) @ unparse_digit d # s, seen'))"

definition unparse :: "nat \<Rightarrow> u64 \<Rightarrow> bytes" where
  "unparse W x =
     (let (s, seen) = unparse_loop W 0 (perm_size x) (drop_bit 4 x) 0
      in s @ (if seen \<noteq> push_bit W 1 - 1 then [63, 33] else []))"

text \<open>\<open>identity_kpermuter\<close>, the permuter of the internal nodes.\<close>

definition identity_get :: "nat \<Rightarrow> nat" where
  "identity_get i = i"

section \<open>The abstract reading\<close>

definition plist :: "nat \<Rightarrow> u64 \<Rightarrow> nat list" where
  "plist W x = map (perm_get x) [0..<W]"

definition perm_wf :: "nat \<Rightarrow> u64 \<Rightarrow> bool" where
  "perm_wf W x \<longleftrightarrow> 7 < W \<and> W \<le> 15 \<and> perm_size x \<le> W \<and> distinct (plist W x) \<and>
     set (plist W x) = {0..<W}"

lemma length_plist [simp]: "length (plist W x) = W"
  by (simp add: plist_def)

lemma nth_plist [simp]: "j < W \<Longrightarrow> plist W x ! j = perm_get x j"
  by (simp add: plist_def)

lemma plist_eqI: "length xs = W \<Longrightarrow> (\<And>j. j < W \<Longrightarrow> perm_get x j = xs ! j) \<Longrightarrow> plist W x = xs"
  by (rule nth_equalityI) auto


section \<open>Bits and nibbles\<close>

lemma perm_get_eqI:
  assumes "\<And>b. b < 4 \<Longrightarrow> bit x (4 * i + 4 + b) = bit y (4 * j + 4 + b)"
  shows "perm_get x i = perm_get y j"
proof -
  have "drop_bit (4 * i + 4) x AND 15 = drop_bit (4 * j + 4) y AND 15"
    using assms by (intro bit_word_eqI) (auto simp: mask_4 bit_simps)
  then show ?thesis by (simp add: perm_get_def)
qed

lemma perm_get_lt_16: "perm_get x i < 16"
  unfolding perm_get_def by (rule unat_and_15_le)

lemma perm_size_lt_16: "perm_size x < 16"
  unfolding perm_size_def by (rule unat_and_15_le)

lemma perm_size_mod: "perm_size x = unat x mod 16"
  by (simp add: perm_size_def mask_4 take_bit_eq_mod unat_mod flip: take_bit_eq_mask)

lemma unat_lt2p_64: "unat (x :: u64) < 18446744073709551616"
  by (rule order_less_le_trans [OF unsigned_less]) simp

lemma drop_inc: 
  assumes "perm_size x < 15"
  shows "drop_bit 4 (x + 1) = drop_bit 4 x" and "perm_size (x + 1) = perm_size x + 1"
proof -
  have b: "unat x < 18446744073709551616" using unat_lt2p_64 by simp
  have r: "unat x mod 16 < 15" using assms by (simp add: perm_size_mod)
  have "unat x \<noteq> 18446744073709551615" using r by auto
  with b have ne: "unat x + 1 < 18446744073709551616" by linarith
  then have u: "unat (x + 1) = unat x + 1" by (simp add: unat_word_ariths)
  have d: "(unat x + 1) div 16 = unat x div 16" "(unat x + 1) mod 16 = unat x mod 16 + 1"
    using r div_Suc [of "unat x" 16] mod_Suc [of "unat x" 16] by simp_all
  show "drop_bit 4 (x + 1) = drop_bit 4 x"
    using d by (simp add: word_unat_eq_iff unat_div drop_bit_eq_div u)
  show "perm_size (x + 1) = perm_size x + 1"
    using d by (simp add: perm_size_mod u)
qed

lemma drop_dec:
  assumes "0 < perm_size x"
  shows "drop_bit 4 (x - 1) = drop_bit 4 x" and "perm_size (x - 1) = perm_size x - 1"
proof -
  have m: "perm_size x - 1 < 15" using perm_size_lt_16 [of x] by linarith
  have "unat x \<noteq> 0" using assms by (auto simp: perm_size_mod)
  then have "unat (x - 1) = unat x - 1"
    by (metis One_nat_def unat_eq_zero unat_minus_one)
  moreover have "0 < unat x mod 16" using assms by (simp add: perm_size_mod)
  ultimately have u: "unat (x - 1) mod 16 = unat x mod 16 - 1"
    using mod_Suc [of "unat x - 1" 16] by (cases "unat x") (auto split: if_splits)
  then have s: "perm_size (x - 1) < 15"
    using m by (simp add: perm_size_mod)
  from drop_inc (1) [OF s] show "drop_bit 4 (x - 1) = drop_bit 4 x" by simp
  from u show "perm_size (x - 1) = perm_size x - 1" by (simp add: perm_size_mod)
qed

lemma bit_drop_bit_4:
  "drop_bit 4 x = drop_bit 4 (y :: u64) \<Longrightarrow> 4 \<le> n \<Longrightarrow> bit x n = bit y n"
proof -
  assume "drop_bit 4 x = drop_bit 4 y" and n: "4 \<le> n"
  then have "bit (drop_bit 4 x) (n - 4) = bit (drop_bit 4 y) (n - 4)" by simp
  with n show ?thesis by (simp only: bit_drop_bit_eq o_def le_add_diff_inverse)
qed

lemma bit_inc: "perm_size x < 15 \<Longrightarrow> 4 \<le> n \<Longrightarrow> bit (x + 1) n = bit x n"
  by (rule bit_drop_bit_4) (rule drop_inc)

lemma bit_dec: "0 < perm_size x \<Longrightarrow> 4 \<le> n \<Longrightarrow> bit (x - 1) n = bit x n"
  by (rule bit_drop_bit_4) (rule drop_dec)

lemma perm_size_eqI:
  assumes "\<And>b. b < 4 \<Longrightarrow> bit x b = bit y b"
  shows "perm_size x = perm_size y"
proof -
  have "x AND 15 = y AND 15"
    using assms by (intro bit_word_eqI) (auto simp: mask_4 bit_simps)
  then show ?thesis by (simp add: perm_size_def)
qed

lemma bit_perm_get:
  "bit (perm_get x i) b \<longleftrightarrow> b < 4 \<and> bit x (4 * i + 4 + b)"
  by (auto simp: perm_get_def mask_4 bit_simps add.commute)

section \<open>Effect of the operations\<close>

lemma perm_get_insert_from_back:
  assumes "j < W" "i < W" "W \<le> 15" "perm_size x < W"
  shows "perm_get (fst (insert_from_back W x i)) j =
    (if j < i then perm_get x j else if j = i then perm_back W x else perm_get x (j - 1))"
proof -
  let ?y = "fst (insert_from_back W x i)"
  have y: "bit ?y (4 * j + 4 + b) \<longleftrightarrow>
      (if j < i then bit x (4 * j + 4 + b)
       else if j = i then bit x (4 * (W - 1) + 4 + b)
       else bit x (4 * j + b))" if "b < 4" for b
    using assms that bit_inc [of x "4 * j + 4 + b"]
    by (auto simp: insert_from_back_def low_mask_16 low_mask_256 bit_simps bit_perm_get
        perm_back_def Let_def ac_simps)
  consider "j < i" | "j = i" | "i < j" by linarith
  then show ?thesis
  proof cases
    case 3
    then have "perm_get ?y j = perm_get x (j - 1)"
      using y by (intro perm_get_eqI) (auto simp: algebra_simps)
    with 3 show ?thesis by simp
  qed (use y in \<open>auto simp: perm_back_def intro!: perm_get_eqI\<close>)
qed

lemma perm_size_insert_from_back:
  assumes "i < W" "W \<le> 15" "perm_size x < W"
  shows "perm_size (fst (insert_from_back W x i)) = Suc (perm_size x)"
proof -
  have "perm_size (fst (insert_from_back W x i)) = perm_size (x + 1)"
    using assms
    by (intro perm_size_eqI)
      (auto simp: insert_from_back_def low_mask_16 low_mask_256 bit_simps bit_perm_get Let_def)
  with assms show ?thesis by (simp add: drop_inc)
qed

lemma perm_get_insert_selected:
  assumes "di \<le> si" "si < 15" "j < 15" "perm_size x < 15"
  shows "perm_get (insert_selected x di si) j =
    (if j < di then perm_get x j else if j = di then perm_get x si
     else if j \<le> si then perm_get x (j - 1) else perm_get x j)"
proof -
  let ?y = "insert_selected x di si"
  have y: "bit ?y (4 * j + 4 + b) \<longleftrightarrow>
      (if j < di then bit x (4 * j + 4 + b)
       else if j = di then bit x (4 * si + 4 + b)
       else if j \<le> si then bit x (4 * j + b) else bit x (4 * j + 4 + b))" if "b < 4" for b
    using assms that bit_inc [of x "4 * j + 4 + b"]
    by (auto simp: insert_selected_def low_mask_16 low_mask_256 bit_simps bit_perm_get
        Let_def ac_simps)
  consider "j < di" | "j = di" | "di < j" "j \<le> si" | "si < j" using assms by linarith
  then show ?thesis
  proof cases
    case 3
    then have "perm_get ?y j = perm_get x (j - 1)"
      using y by (intro perm_get_eqI) (auto simp: algebra_simps)
    with 3 show ?thesis by simp
  qed (use y assms in \<open>auto intro!: perm_get_eqI\<close>)
qed

lemma perm_size_insert_selected:
  assumes "di \<le> si" "si < 15" "perm_size x < 15"
  shows "perm_size (insert_selected x di si) = Suc (perm_size x)"
proof -
  have "perm_size (insert_selected x di si) = perm_size (x + 1)"
    using assms
    by (intro perm_size_eqI)
      (auto simp: insert_selected_def low_mask_16 low_mask_256 bit_simps bit_perm_get Let_def)
  with assms show ?thesis by (simp add: drop_inc)
qed

text \<open>\<open>remove_to_back\<close> first clears the unused high nibbles; neither the size nor a
  used slot changes by it.\<close>

lemma remove_to_back_alt:
  assumes "W \<le> 15" "0 < perm_size x"
  obtains x' where "remove_to_back W x i = ((x' - 1) AND mask (4 * i + 4))
      OR (drop_bit 4 x' AND NOT (mask (4 * i + 4)))
      OR push_bit (4 * (W - i - 1)) (x' AND NOT (mask (4 * i + 4)))"
    and "\<And>n. bit x' n \<longleftrightarrow> bit x n \<and> n < 4 * W + 4"
    and "\<And>n. 4 \<le> n \<Longrightarrow> n < 4 * W + 4 \<Longrightarrow> bit (x' - 1) n = bit x n"
    and "perm_size (x' - 1) = perm_size x - 1"
proof -
  let ?x = "x AND mask (4 * W + 4)"
  have b: "bit ?x n \<longleftrightarrow> bit x n \<and> n < 4 * W + 4" for n
    using assms bit_imp_le_length [of x n] by (auto simp: bit_simps)
  have s: "perm_size ?x = perm_size x" by (intro perm_size_eqI) (simp add: b)
  show thesis
  proof
    show "remove_to_back W x i = ((?x - 1) AND mask (4 * i + 4))
        OR (drop_bit 4 ?x AND NOT (mask (4 * i + 4)))
        OR push_bit (4 * (W - i - 1)) (?x AND NOT (mask (4 * i + 4)))"
      by (simp add: remove_to_back_def low_mask_16 Let_def)
    show "bit (?x - 1) n = bit x n" if "4 \<le> n" "n < 4 * W + 4" for n
      using assms that bit_dec [of ?x n] by (simp add: s b)
    show "perm_size (?x - 1) = perm_size x - 1"
      using assms drop_dec(2) [of ?x] by (simp add: s)
  qed (rule b)
qed

lemma perm_get_remove_to_back:
  assumes "i < W" "W \<le> 15" "j < W" "0 < perm_size x"
  shows "perm_get (remove_to_back W x i) j =
    (if j < i then perm_get x j else if j < W - 1 then perm_get x (j + 1) else perm_get x i)"
proof -
  obtain x' where y: "remove_to_back W x i = ((x' - 1) AND mask (4 * i + 4))
      OR (drop_bit 4 x' AND NOT (mask (4 * i + 4)))
      OR push_bit (4 * (W - i - 1)) (x' AND NOT (mask (4 * i + 4)))"
    and b: "\<And>n. bit x' n \<longleftrightarrow> bit x n \<and> n < 4 * W + 4"
    and d: "\<And>n. 4 \<le> n \<Longrightarrow> n < 4 * W + 4 \<Longrightarrow> bit (x' - 1) n = bit x n"
    using remove_to_back_alt [OF assms(2,4)] by metis
  consider "j < i" | "i \<le> j" "j < W - 1" | "i \<le> j" "W = Suc j" using assms by linarith
  then show ?thesis
  proof cases
    case 3
    have "4 * j + 4 + b - 4 * (j - i) = 4 * i + 4 + b" for b using 3 by simp
    with 3 assms have "perm_get (remove_to_back W x i) j = perm_get x i"
      by (intro perm_get_eqI) (auto simp: y [unfolded 3] bit_simps b d)
    with 3 show ?thesis by simp
  qed (use assms in \<open>auto simp: y bit_simps b d add.assoc intro!: perm_get_eqI\<close>)
qed

lemma perm_size_remove_to_back:
  assumes "i < W" "W \<le> 15" "0 < perm_size x"
  shows "perm_size (remove_to_back W x i) = perm_size x - 1"
proof -
  obtain x' where y: "remove_to_back W x i = ((x' - 1) AND mask (4 * i + 4))
      OR (drop_bit 4 x' AND NOT (mask (4 * i + 4)))
      OR push_bit (4 * (W - i - 1)) (x' AND NOT (mask (4 * i + 4)))"
    and p: "perm_size (x' - 1) = perm_size x - 1"
    using remove_to_back_alt [OF assms(2,3)] by metis
  have "perm_size (remove_to_back W x i) = perm_size (x' - 1)"
    by (intro perm_size_eqI) (auto simp: y bit_simps)
  with p show ?thesis by simp
qed

lemma perm_get_remove:
  assumes "i < perm_size x" "perm_size x \<le> 15" "j < 15"
  shows "perm_get (remove x i) j =
    (if i \<le> j \<and> j < perm_size x - 1 then perm_get x (j + 1)
     else if j = perm_size x - 1 then perm_get x i else perm_get x j)"
proof -
  let ?n = "perm_size x"
  have d: "bit (x - 1) m = bit x m" if "4 \<le> m" for m
    using assms that by (intro bit_dec) auto
  consider "?n = i + 1" | "j < i" "i + 1 < ?n" | "i \<le> j" "j < ?n - 1" | "i < j" "?n = Suc j"
    | "?n \<le> j" "i + 1 < ?n" using assms by linarith
  then show ?thesis
  proof cases
    case 1
    then show ?thesis using assms
      by (auto simp: remove_def d intro!: perm_get_eqI)
  next
    case 4
    have "4 * j + 4 + b - 4 * (j - i) = 4 * i + 4 + b" if "b < 4" for b using 4 by simp
    with 4 assms have "perm_get (remove x i) j = perm_get x i"
      by (intro perm_get_eqI) (auto simp: remove_def low_mask_16 bit_simps Let_def d)
    with 4 show ?thesis by simp
  qed (use assms in \<open>auto simp: remove_def low_mask_16 bit_simps Let_def d ac_simps
      intro!: perm_get_eqI\<close>)
qed

lemma perm_size_remove:
  assumes "i < perm_size x"
  shows "perm_size (remove x i) = perm_size x - 1"
proof -
  have "perm_size (remove x i) = perm_size (x - 1)"
    using assms
    by (intro perm_size_eqI) (auto simp: remove_def low_mask_16 bit_simps Let_def)
  with assms show ?thesis by (simp add: drop_dec)
qed

lemma perm_get_rotate:
  assumes "i \<le> j" "j \<le> W" "W \<le> 15" "k < W"
  shows "perm_get (rotate_perm W x i j) k =
    (if k < i then perm_get x k
     else if k < W - (j - i) then perm_get x (k + (j - i)) else perm_get x (k - (W - j)))"
proof -
  have m: "(if i = W then 0 else push_bit (4 * i) (16 :: u64)) - 1 =
      (if i = W then -1 else mask (4 * i + 4))"
    by (simp add: low_mask_16)
  consider "k < i" | "i \<le> k" "k < W - (j - i)" | "i \<le> k" "W - (j - i) \<le> k" by linarith
  then show ?thesis
  proof cases
    case 3
    have "4 * k + 4 + b - 4 * (W - j) = 4 * (k - (W - j)) + 4 + b" for b
      using 3 assms by simp
    with 3 assms have "perm_get (rotate_perm W x i j) k = perm_get x (k - (W - j))"
      by (intro perm_get_eqI) (auto simp: rotate_perm_def m low_mask_16 bit_simps Let_def)
    with 3 show ?thesis by simp
  qed (use assms in \<open>auto simp: rotate_perm_def m low_mask_16 bit_simps Let_def algebra_simps
      intro!: perm_get_eqI\<close>)
qed

lemma perm_get_value_from: "unat (value_from x i AND 15) = perm_get x i"
  by (simp add: value_from_def perm_get_def algebra_simps)

lemma bit_nat_lt_16: "n < 16 \<Longrightarrow> bit n m \<Longrightarrow> m < 4" for n m :: nat
proof (rule ccontr)
  assume n: "n < 16" and b: "bit n m" and "\<not> m < 4"
  then have "(2 :: nat) ^ 4 \<le> 2 ^ m" by (intro power_increasing) auto
  with n have "n div 2 ^ m = 0" by simp
  with b show False by (simp add: bit_iff_odd)
qed

lemma perm_get_set_size: "n < 16 \<Longrightarrow> perm_get (set_size x n) j = perm_get x j"
  by (intro perm_get_eqI) (auto simp: set_size_def mask_4 bit_simps
      dest: bit_nat_lt_16 bit_imp_le_length)

lemma perm_size_set_size: "n < 16 \<Longrightarrow> perm_size (set_size x n) = n"
proof -
  assume n: "n < 16"
  have "perm_size (set_size x n) = perm_size (of_nat n)"
    by (intro perm_size_eqI) (auto simp: set_size_def mask_4 bit_simps)
  also have "\<dots> = n"
    using n by (simp add: perm_size_mod unat_of_nat)
  finally show ?thesis .
qed

lemma bit_240: "bit (240 :: int) n \<longleftrightarrow> 4 \<le> n \<and> n < 8"
proof -
  have "(240 :: int) = push_bit 4 (mask 4)"
    by (simp add: mask_eq_exp_minus_1 push_bit_eq_mult)
  then show ?thesis by (auto simp only: bit_simps) auto
qed

lemma perm_get_exchange:
  assumes "i < 15" "j < 15" "k < 15"
  shows "perm_get (exchange x i j) k =
    (if k = i then perm_get x j else if k = j then perm_get x i else perm_get x k)"
proof -
  have y: "bit (exchange x i j) (4 * k + 4 + b) \<longleftrightarrow>
      (if k = i then bit x (4 * j + 4 + b) else if k = j then bit x (4 * i + 4 + b)
       else bit x (4 * k + 4 + b))" if "b < 4" for b
    using assms that
    by (auto simp: exchange_def bit_simps bit_240 Let_def add.assoc)
  then show ?thesis by (auto intro!: perm_get_eqI)
qed

lemma perm_size_exchange: "perm_size (exchange x i j) = perm_size x"
  by (intro perm_size_eqI) (auto simp: exchange_def bit_simps bit_240 Let_def)

lemma perm_get_initial: "j < 15 \<Longrightarrow> perm_get initial_value j = 14 - j"
proof -
  have "\<forall>j \<in> set [0..<15]. perm_get initial_value j = 14 - j" by code_simp
  then show "j < 15 \<Longrightarrow> perm_get initial_value j = 14 - j" by simp
qed

lemma perm_get_full: "j < 15 \<Longrightarrow> perm_get full_value j = j"
proof -
  have "\<forall>j \<in> set [0..<15]. perm_get full_value j = j" by code_simp
  then show "j < 15 \<Longrightarrow> perm_get full_value j = j" by simp
qed

lemma perm_get_make_empty:
  assumes "j < W" "W \<le> 15" shows "perm_get (make_empty W) j = W - 1 - j"
proof -
  have "perm_get (make_empty W) j = perm_get initial_value (j + (15 - W))"
    by (intro perm_get_eqI) (auto simp: make_empty_def mask_4 bit_simps algebra_simps
        dest: bit_imp_le_length)
  also have "\<dots> = W - 1 - j" using assms by (simp add: perm_get_initial)
  finally show ?thesis .
qed

lemma perm_get_make_sorted:
  assumes "j < W" "n \<le> W" "W \<le> 15"
  shows "perm_get (make_sorted W n) j = (if j < n then j else W - 1 - (j - n))"
proof -
  let ?y = "make_sorted W n"
  have o: "of_nat n = (of_nat n :: u64) AND mask 4"
  proof (rule bit_word_eqI)
    fix m :: nat assume "m < LENGTH(64)"
    show "bit (of_nat n :: u64) m = bit ((of_nat n :: u64) AND mask 4) m"
      using assms bit_nat_lt_16 [of n m] by (auto simp: bit_simps)
  qed
  have nb: "\<not> bit n m" if "4 \<le> m" for m using assms bit_nat_lt_16 [of n m] that by auto
  have m: "(if n = W then 0 else push_bit (4 * n) 16) - 1 =
      (if n = W then -1 else mask (4 * n + 4) :: u64)"
    by (simp add: low_mask_16)
  have e: "bit (make_empty W) k \<longleftrightarrow> 4 \<le> k \<and> bit initial_value (k + 4 * (15 - W))" for k
    by (auto simp: make_empty_def mask_4 bit_simps algebra_simps dest: bit_imp_le_length)
  show ?thesis
  proof (cases "j < n")
    case True
    then have "perm_get ?y j = perm_get full_value j"
      using assms
      by (intro perm_get_eqI)
        (auto simp: make_sorted_def m e nb bit_simps Let_def dest: bit_imp_le_length)
    then show ?thesis using True assms by (simp add: perm_get_full)
  next
    case False
    have "perm_get ?y j = perm_get (make_empty W) (j - n)"
      using False assms
      by (intro perm_get_eqI)
        (auto simp: make_sorted_def low_mask_16 nb bit_simps Let_def algebra_simps dest: bit_imp_le_length)
    then show ?thesis using False assms by (simp add: perm_get_make_empty)
  qed
qed

lemma perm_size_make_sorted:
  assumes "n \<le> W" "W \<le> 15"
  shows "perm_size (make_sorted W n) = n"
proof -
  have z: "\<not> bit full_value b" if "b < 4" for b
  proof -
    have "\<forall>b \<in> set [0..<4]. \<not> bit full_value b" by code_simp
    with that show ?thesis by simp
  qed
  have "perm_size (make_sorted W n) = perm_size (of_nat n)"
    by (intro perm_size_eqI)
      (auto simp: make_sorted_def make_empty_def mask_4 z bit_simps Let_def)
  also have "\<dots> = n" using assms by (simp add: perm_size_mod unat_of_nat)
  finally show ?thesis .
qed

lemma perm_size_make_empty: "perm_size (make_empty W) = 0"
proof -
  have "perm_size (make_empty W) = perm_size 0"
    by (intro perm_size_eqI) (auto simp: make_empty_def mask_4 bit_simps)
  then show ?thesis by (simp add: perm_size_def)
qed

subsection \<open>Exchanging values\<close>

definition flip_of :: "nat \<Rightarrow> nat \<Rightarrow> nat \<Rightarrow> u64" where
  "flip_of a b v = (if v = a \<or> v = b then of_nat a XOR of_nat b else 0)"

lemma flip_of_high: "a < 16 \<Longrightarrow> b < 16 \<Longrightarrow> bit (flip_of a b v) m \<Longrightarrow> m < 4"
  by (auto simp: flip_of_def bit_simps dest: bit_nat_lt_16 split: if_splits)

lemma exchange_values_loop_bit:
  assumes "a < 16" "b < 16" "W \<le> 15" "n \<le> W" "m < 64"
  shows "bit (exchange_values_loop n W diff (push_bit (4 * (W - n)) x) a b) m \<longleftrightarrow>
    bit (push_bit (4 * n) diff) m \<noteq>
      (\<exists>k<n. 4 * k + 4 \<le> m \<and> bit (flip_of a b (perm_get x k)) (m - (4 * k + 4)))"
  using assms(4)
proof (induction n arbitrary: diff)
  case 0
  then show ?case by simp
next
  case (Suc n)
  have v: "unat (drop_bit (4 * W) (push_bit (4 * (W - Suc n)) x) AND 15) = perm_get x n"
  proof -
    have "drop_bit (4 * W) (push_bit (4 * (W - Suc n)) x) AND 15 = drop_bit (4 * n + 4) x AND 15"
    proof (rule bit_word_eqI)
      fix c :: nat
      have "4 * W + c - 4 * (W - Suc n) = 4 * n + 4 + c" using Suc.prems by simp
      then show "bit (drop_bit (4 * W) (push_bit (4 * (W - Suc n)) x) AND 15) c =
          bit (drop_bit (4 * n + 4) x AND 15) c"
        using Suc.prems assms by (auto simp: mask_4 bit_simps)
    qed
    then show ?thesis by (simp add: perm_get_def)
  qed
  have p: "4 + 4 * (W - Suc n) = 4 * (W - n)" using Suc.prems by simp
  let ?d = "push_bit 4 (diff XOR flip_of a b (perm_get x n))"
  have "bit (exchange_values_loop (Suc n) W diff (push_bit (4 * (W - Suc n)) x) a b) m \<longleftrightarrow>
      bit (exchange_values_loop n W ?d (push_bit (4 * (W - n)) x) a b) m"
    by (simp add: v p Let_def flip_of_def push_bit_push_bit)
  also have "\<dots> \<longleftrightarrow> bit (push_bit (4 * n) ?d) m \<noteq>
      (\<exists>k<n. 4 * k + 4 \<le> m \<and> bit (flip_of a b (perm_get x k)) (m - (4 * k + 4)))"
    using Suc by simp
  also have "bit (push_bit (4 * n) ?d) m \<longleftrightarrow> bit (push_bit (4 * Suc n) diff) m \<noteq>
      (4 * n + 4 \<le> m \<and> bit (flip_of a b (perm_get x n)) (m - (4 * n + 4)))"
    using assms by (auto simp: bit_simps algebra_simps)
  moreover have "\<not> bit (flip_of a b (perm_get x k)) (m - (4 * k + 4))"
    if "k < n" "4 * n + 4 \<le> m" for k
    using flip_of_high [OF assms(1,2), of "perm_get x k" "m - (4 * k + 4)"] that by auto
  ultimately show ?case by (auto simp: less_Suc_eq)
qed

lemma perm_get_exchange_values:
  assumes "a < 16" "b < 16" "W \<le> 15" "j < W"
  shows "perm_get (exchange_values W x a b) j =
    (if perm_get x j = a then b else if perm_get x j = b then a else perm_get x j)"
proof -
  let ?v = "perm_get x j"
  have e: "(\<exists>k<W. 4 * k + 4 \<le> 4 * j + 4 + c \<and>
      bit (flip_of a b (perm_get x k)) (4 * j + 4 + c - (4 * k + 4))) \<longleftrightarrow> bit (flip_of a b ?v) c"
    if "c < 4" for c
  proof
    assume "\<exists>k<W. 4 * k + 4 \<le> 4 * j + 4 + c \<and>
      bit (flip_of a b (perm_get x k)) (4 * j + 4 + c - (4 * k + 4))"
    then obtain k where k: "4 * k + 4 \<le> 4 * j + 4 + c"
      "bit (flip_of a b (perm_get x k)) (4 * j + 4 + c - (4 * k + 4))" by blast
    from flip_of_high [OF assms(1,2) k(2)] k(1) that have "k = j" by linarith
    with k show "bit (flip_of a b ?v) c" by simp
  next
    assume "bit (flip_of a b ?v) c"
    with assms show "\<exists>k<W. 4 * k + 4 \<le> 4 * j + 4 + c \<and>
      bit (flip_of a b (perm_get x k)) (4 * j + 4 + c - (4 * k + 4))"
      by (intro exI [of _ j]) simp
  qed
  show ?thesis
  proof (rule bit_eqI)
    fix c
    show "bit (perm_get (exchange_values W x a b) j) c =
      bit (if ?v = a then b else if ?v = b then a else ?v) c"
    proof (cases "c < 4")
      case True
      have m: "4 * j + 4 + c < 64" using True assms by simp
      have l: "bit (exchange_values_loop W W 0 x a b) (4 * j + 4 + c) \<longleftrightarrow> bit (flip_of a b ?v) c"
        using exchange_values_loop_bit [OF assms(1,2,3) order_refl m, of 0 x]
        unfolding e [OF True] by simp
      have "bit (perm_get (exchange_values W x a b) j) c \<longleftrightarrow>
          bit ?v c \<noteq> bit (flip_of a b ?v) c"
        using l True by (simp add: bit_perm_get exchange_values_def bit_xor_iff)
      also have "\<dots> = bit (if ?v = a then b else if ?v = b then a else ?v) c"
        using True by (auto simp: flip_of_def bit_simps)
      finally show ?thesis .
    next
      case False
      then show ?thesis
        using assms bit_nat_lt_16 [of _ c] perm_get_lt_16 [of x j] by (auto simp: bit_perm_get)
    qed
  qed
qed

section \<open>The operations as list edits\<close>

lemma perm_wf_mset:
  "perm_wf W x \<longleftrightarrow> 7 < W \<and> W \<le> 15 \<and> perm_size x \<le> W \<and> mset (plist W x) = mset [0..<W]"
proof -
  have "distinct xs \<and> set xs = {0..<n} \<longleftrightarrow> mset xs = mset [0..<n]" for xs n
  proof
    assume "distinct xs \<and> set xs = {0..<n}"
    then show "mset xs = mset [0..<n]" by (intro set_eq_iff_mset_eq_distinct [THEN iffD1]) auto
  next
    assume m: "mset xs = mset [0..<n]"
    then have "set xs = set [0..<n]" by (rule mset_eq_setD)
    moreover have "distinct xs" using m by (metis distinct_upt mset_eq_imp_distinct_iff)
    ultimately show "distinct xs \<and> set xs = {0..<n}" by simp
  qed
  then show ?thesis by (auto simp: perm_wf_def)
qed

lemma plist_insert_from_back:
  assumes "i < W" "W \<le> 15" "perm_size x < W"
  shows "plist W (fst (insert_from_back W x i)) = list_ins i (last (plist W x)) (butlast (plist W x))"
proof (rule plist_eqI)
  have W: "0 < W" using assms by simp
  show "length (list_ins i (last (plist W x)) (butlast (plist W x))) = W" using W by simp
  fix j assume j: "j < W"
  have l: "last (plist W x) = perm_back W x"
    using W by (simp add: last_conv_nth perm_back_def flip: length_greater_0_conv)
  show "perm_get (fst (insert_from_back W x i)) j =
      list_ins i (last (plist W x)) (butlast (plist W x)) ! j"
    using assms j
    by (simp add: perm_get_insert_from_back nth_list_ins nth_butlast l)
qed

lemma plist_remove:
  assumes "i < perm_size x" "perm_size x \<le> W" "W \<le> 15"
  shows "plist W (remove x i) =
    list_ins (perm_size x - 1) (perm_get x i) (list_del i (plist W x))"
proof (rule plist_eqI)
  show "length (list_ins (perm_size x - 1) (perm_get x i) (list_del i (plist W x))) = W"
    using assms by simp
  fix j assume j: "j < W"
  consider "j < perm_size x - 1" | "j = perm_size x - 1" | "perm_size x - 1 < j" by linarith
  then show "perm_get (remove x i) j =
      list_ins (perm_size x - 1) (perm_get x i) (list_del i (plist W x)) ! j"
    by cases (use assms j in \<open>auto simp: perm_get_remove nth_list_ins nth_list_del\<close>)
qed

lemma plist_remove_to_back:
  assumes "i < W" "W \<le> 15" "0 < perm_size x"
  shows "plist W (remove_to_back W x i) = list_del i (plist W x) @ [perm_get x i]"
  using assms
  by (intro plist_eqI) (auto simp: perm_get_remove_to_back nth_append nth_list_del)

lemma plist_rotate:
  assumes "i \<le> j" "j \<le> W" "W \<le> 15"
  shows "plist W (rotate_perm W x i j) =
    take i (plist W x) @ drop j (plist W x) @ drop i (take j (plist W x))"
  using assms
  by (intro plist_eqI) (auto simp: perm_get_rotate nth_append algebra_simps)

lemma plist_exchange:
  assumes "i < W" "j < W" "W \<le> 15"
  shows "plist W (exchange x i j) =
    (plist W x)[i := perm_get x j, j := perm_get x i]"
  using assms by (intro plist_eqI) (auto simp: perm_get_exchange nth_list_update)

lemma plist_exchange_values:
  assumes "a < 16" "b < 16" "W \<le> 15"
  shows "plist W (exchange_values W x a b) =
    map (\<lambda>v. if v = a then b else if v = b then a else v) (plist W x)"
  using assms by (intro plist_eqI) (auto simp: perm_get_exchange_values)

lemma plist_set_size: "n < 16 \<Longrightarrow> plist W (set_size x n) = plist W x"
  by (simp add: plist_def perm_get_set_size)

lemma plist_make_sorted:
  assumes "n \<le> W" "W \<le> 15"
  shows "plist W (make_sorted W n) = [0..<n] @ rev [n..<W]"
  using assms
  by (intro plist_eqI) (auto simp: perm_get_make_sorted nth_append rev_nth)

lemma plist_make_empty: "W \<le> 15 \<Longrightarrow> plist W (make_empty W) = rev [0..<W]"
  by (intro plist_eqI) (auto simp: perm_get_make_empty rev_nth)

section \<open>Well-formedness is preserved\<close>

lemma mset_list_ins [simp]: "mset (list_ins i x xs) = add_mset x (mset xs)"
proof -
  have "mset (take i xs) + mset (drop i xs) = mset xs"
    by (metis append_take_drop_id mset_append)
  then show ?thesis by (simp add: list_ins_def)
qed

lemma mset_list_del: "i < length xs \<Longrightarrow> add_mset (xs ! i) (mset (list_del i xs)) = mset xs"
  by (metis add_mset_add_single append_Cons append_assoc id_take_nth_drop list_del_def
      mset.simps(2) mset_append union_mset_add_mset_right)

lemma perm_wf_insert_from_back:
  assumes "perm_wf W x" "i < W" "perm_size x < W"
  shows "perm_wf W (fst (insert_from_back W x i))"
proof -
  have ne: "plist W x \<noteq> []" using assms by (auto simp flip: length_greater_0_conv)
  have "mset (butlast (plist W x) @ [last (plist W x)]) = mset (plist W x)" using ne by simp
  with assms show ?thesis
    by (simp add: perm_wf_mset plist_insert_from_back perm_size_insert_from_back)
qed

lemma perm_wf_remove:
  assumes "perm_wf W x" "i < perm_size x"
  shows "perm_wf W (remove x i)"
proof -
  have "i < W" using assms by (auto simp: perm_wf_def)
  then have "add_mset (perm_get x i) (mset (list_del i (plist W x))) = mset (plist W x)"
    using mset_list_del [of i "plist W x"] by simp
  with assms show ?thesis
    by (auto simp: perm_wf_mset plist_remove perm_size_remove)
qed

lemma perm_wf_remove_to_back:
  assumes "perm_wf W x" "i < W" "0 < perm_size x"
  shows "perm_wf W (remove_to_back W x i)"
proof -
  have "add_mset (perm_get x i) (mset (list_del i (plist W x))) = mset (plist W x)"
    using assms mset_list_del [of i "plist W x"] by simp
  with assms show ?thesis
    by (auto simp: perm_wf_mset plist_remove_to_back perm_size_remove_to_back)
qed

lemma perm_wf_exchange:
  assumes "perm_wf W x" "i < W" "j < W"
  shows "perm_wf W (exchange x i j)"
  using assms mset_swap [of j "plist W x" i]
  by (simp add: perm_wf_mset plist_exchange perm_size_exchange)

lemma perm_wf_set_size: "perm_wf W x \<Longrightarrow> n \<le> W \<Longrightarrow> perm_wf W (set_size x n)"
  by (simp add: perm_wf_mset plist_set_size perm_size_set_size)

lemma perm_wf_make_empty: "7 < W \<Longrightarrow> W \<le> 15 \<Longrightarrow> perm_wf W (make_empty W)"
  by (simp add: perm_wf_mset plist_make_empty perm_size_make_empty)

lemma perm_wf_make_sorted: "7 < W \<Longrightarrow> W \<le> 15 \<Longrightarrow> n \<le> W \<Longrightarrow> perm_wf W (make_sorted W n)"
proof -
  assume n: "7 < W" "W \<le> 15" "n \<le> W"
  have "mset [0..<n] + mset [n..<W] = mset [0..<W]"
    using n by (metis le_add_diff_inverse mset_append upt_add_eq_append zero_le)
  with n show ?thesis by (simp add: perm_wf_mset plist_make_sorted perm_size_make_sorted)
qed

section \<open>Live and free slots\<close>

text \<open>The part of the permutation below \<open>size()\<close> names the slots in use, in key order; the
  rest are the free slots. New keys are given the last free slot; a removed key's slot
  becomes the first free one.\<close>

definition live :: "nat \<Rightarrow> u64 \<Rightarrow> nat list" where
  "live W x = take (perm_size x) (plist W x)"

definition free :: "nat \<Rightarrow> u64 \<Rightarrow> nat list" where
  "free W x = drop (perm_size x) (plist W x)"

lemma live_free: "live W x @ free W x = plist W x"
  by (simp add: live_def free_def)

lemma length_live: "perm_wf W x \<Longrightarrow> length (live W x) = perm_size x"
  by (simp add: live_def perm_wf_def)

lemma length_free: "length (free W x) = W - perm_size x"
  by (simp add: free_def)

lemma nth_live: "perm_wf W x \<Longrightarrow> i < perm_size x \<Longrightarrow> live W x ! i = perm_get x i"
  by (simp add: live_def perm_wf_def)

lemma take_list_ins: "i \<le> n \<Longrightarrow> take (Suc n) (list_ins i x xs) = list_ins i x (take n xs)"
  by (simp add: list_ins_def min_def take_Cons' drop_take)

lemma drop_list_ins: "i \<le> n \<Longrightarrow> n \<le> length xs \<Longrightarrow> drop (Suc n) (list_ins i x xs) = drop n xs"
  by (simp add: list_ins_def min_def drop_Cons')

lemma last_free:
  assumes "perm_wf W x" "perm_size x < W"
  shows "last (free W x) = perm_back W x"
proof -
  have "free W x \<noteq> []" using assms by (simp flip: length_greater_0_conv add: length_free)
  then show ?thesis using assms
    by (simp add: last_conv_nth length_free perm_back_def free_def)
qed

lemma live_insert_from_back:
  assumes "perm_wf W x" "perm_size x < W" "i \<le> perm_size x"
  shows "live W (fst (insert_from_back W x i)) = list_ins i (perm_back W x) (live W x)"
    and "free W (fst (insert_from_back W x i)) = butlast (free W x)"
proof -
  let ?l = "plist W x" and ?s = "perm_size x"
  have W: "W \<le> 15" "i < W" using assms by (auto simp: perm_wf_def)
  have l: "last ?l = perm_back W x"
    using W by (simp add: last_conv_nth perm_back_def flip: length_greater_0_conv)
  have s: "perm_size (fst (insert_from_back W x i)) = Suc ?s"
    using assms W by (simp add: perm_size_insert_from_back)
  have p: "plist W (fst (insert_from_back W x i)) = list_ins i (perm_back W x) (butlast ?l)"
    using assms W by (simp add: plist_insert_from_back l)
  show "live W (fst (insert_from_back W x i)) = list_ins i (perm_back W x) (live W x)"
    using assms by (simp add: live_def s p take_list_ins take_butlast)
  show "free W (fst (insert_from_back W x i)) = butlast (free W x)"
    using assms by (simp add: free_def s p drop_list_ins drop_butlast)
qed

lemma live_remove:
  assumes "perm_wf W x" "i < perm_size x"
  shows "live W (remove x i) = list_del i (live W x)"
    and "free W (remove x i) = live W x ! i # free W x"
proof -
  let ?l = "plist W x" and ?s = "perm_size x"
  have W: "?s \<le> W" "W \<le> 15" using assms by (auto simp: perm_wf_def)
  have s: "perm_size (remove x i) = ?s - 1" using assms by (simp add: perm_size_remove)
  have p: "plist W (remove x i) = list_ins (?s - 1) (perm_get x i) (list_del i ?l)"
    using assms W by (simp add: plist_remove)
  have "take (?s - 1) (list_del i ?l) = list_del i (take ?s ?l)"
    using assms W by (intro nth_equalityI) (auto simp: nth_list_del)
  then show "live W (remove x i) = list_del i (live W x)"
    using assms W by (simp add: live_def s p) (simp add: list_ins_def)
  have "drop (?s - 1) (list_del i ?l) = drop ?s ?l"
    using assms W by (intro nth_equalityI) (auto simp: nth_list_del)
  then show "free W (remove x i) = live W x ! i # free W x"
    using assms W by (simp add: free_def s p nth_live) (simp add: list_ins_def)
qed

section \<open>The interface the leaves rely on\<close>

text \<open>
  A leaf keeps its keys in arrays indexed by slot and orders them through the permuter.
  What it needs of the permuter is a slot allocator: live and free slots partition the
  slots, allocation inserts the last free slot at a given rank, release moves the slot at
  a rank to the front of the free list.
\<close>

locale slot_allocator =
  fixes width :: nat
    and ok :: "'p \<Rightarrow> bool"
    and live_slots :: "'p \<Rightarrow> nat list"
    and free_slots :: "'p \<Rightarrow> nat list"
    and alloc :: "'p \<Rightarrow> nat \<Rightarrow> 'p \<times> nat"
    and release :: "'p \<Rightarrow> nat \<Rightarrow> 'p"
  assumes partition: "ok p \<Longrightarrow> mset (live_slots p @ free_slots p) = mset [0..<width]"
    and alloc_ok: "ok p \<Longrightarrow> free_slots p \<noteq> [] \<Longrightarrow> i \<le> length (live_slots p) \<Longrightarrow> ok (fst (alloc p i))"
    and alloc_slot: "ok p \<Longrightarrow> free_slots p \<noteq> [] \<Longrightarrow> i \<le> length (live_slots p) \<Longrightarrow>
      snd (alloc p i) = last (free_slots p)"
    and alloc_live: "ok p \<Longrightarrow> free_slots p \<noteq> [] \<Longrightarrow> i \<le> length (live_slots p) \<Longrightarrow>
      live_slots (fst (alloc p i)) = list_ins i (last (free_slots p)) (live_slots p)"
    and alloc_free: "ok p \<Longrightarrow> free_slots p \<noteq> [] \<Longrightarrow> i \<le> length (live_slots p) \<Longrightarrow>
      free_slots (fst (alloc p i)) = butlast (free_slots p)"
    and release_ok: "ok p \<Longrightarrow> i < length (live_slots p) \<Longrightarrow> ok (release p i)"
    and release_live: "ok p \<Longrightarrow> i < length (live_slots p) \<Longrightarrow>
      live_slots (release p i) = list_del i (live_slots p)"
    and release_free: "ok p \<Longrightarrow> i < length (live_slots p) \<Longrightarrow>
      free_slots (release p i) = live_slots p ! i # free_slots p"
begin

lemma distinct_slots: "ok p \<Longrightarrow> distinct (live_slots p @ free_slots p)"
  using partition by (metis distinct_upt mset_eq_imp_distinct_iff)

lemma slots_bound: "ok p \<Longrightarrow> s \<in> set (live_slots p) \<union> set (free_slots p) \<Longrightarrow> s < width"
  using mset_eq_setD [OF partition, of p] by auto

lemma slots_count: "ok p \<Longrightarrow> length (live_slots p) + length (free_slots p) = width"
  using arg_cong [OF partition, of p size] by simp

lemma alloc_fresh:
  assumes "ok p" "free_slots p \<noteq> []" "i \<le> length (live_slots p)"
  shows "snd (alloc p i) < width" and "snd (alloc p i) \<notin> set (live_slots p)"
    and "distinct (live_slots (fst (alloc p i)))"
proof -
  have l: "last (free_slots p) \<in> set (free_slots p)" using assms by simp
  with assms show "snd (alloc p i) < width" by (simp add: alloc_slot slots_bound)
  from assms l show n: "snd (alloc p i) \<notin> set (live_slots p)"
    using distinct_slots [of p] by (auto simp: alloc_slot)
  show "distinct (live_slots (fst (alloc p i)))"
    using assms n distinct_slots [of p] by (simp add: alloc_live alloc_slot distinct_list_ins)
qed

lemma alloc_release:
  assumes "ok p" "free_slots p \<noteq> []" "i \<le> length (live_slots p)"
  shows "live_slots (release (fst (alloc p i)) i) = live_slots p"
proof -
  have "i < length (live_slots (fst (alloc p i)))" using assms by (simp add: alloc_live)
  with assms show ?thesis
    by (simp add: release_live alloc_ok alloc_live list_del_list_ins)
qed

end

lemma free_Nil: "perm_wf W x \<Longrightarrow> free W x = [] \<longleftrightarrow> perm_size x = W"
  by (auto simp: free_def perm_wf_def)

lemma perm_size_free: "perm_wf W x \<Longrightarrow> free W x \<noteq> [] \<Longrightarrow> perm_size x < W"
  using free_Nil [of W x] by (auto simp: perm_wf_def)

interpretation kp: slot_allocator W "perm_wf W" "live W" "free W" "insert_from_back W" remove for W
proof unfold_locales
  fix p i
  assume p: "perm_wf W p"
  then show "mset (live W p @ free W p) = mset [0..<W]"
    by (simp add: live_free perm_wf_mset)
  {
    assume f: "free W p \<noteq> []" and i: "i \<le> length (live W p)"
    have s: "perm_size p < W" "i \<le> perm_size p"
      using p f i by (auto simp: perm_size_free length_live)
    then show "perm_wf W (fst (insert_from_back W p i))"
      using p by (intro perm_wf_insert_from_back) auto
    show "snd (insert_from_back W p i) = last (free W p)"
      using p s by (simp add: last_free insert_from_back_def Let_def)
    show "live W (fst (insert_from_back W p i)) = list_ins i (last (free W p)) (live W p)"
      "free W (fst (insert_from_back W p i)) = butlast (free W p)"
      using p s by (simp_all add: last_free live_insert_from_back)
  }
  {
    assume i: "i < length (live W p)"
    then have s: "i < perm_size p" using p by (simp add: length_live)
    show "perm_wf W (remove p i)" using p s by (rule perm_wf_remove)
    show "live W (remove p i) = list_del i (live W p)"
      "free W (remove p i) = live W p ! i # free W p"
      using p s by (rule live_remove)+
  }
qed

section \<open>Properties\<close>





text \<open>The comment on \<open>rotate\<close> says positions from \<open>i\<close> on are rotated modulo
  \<open>size() - i\<close>; the code rotates modulo \<open>W - i\<close>, the whole rest of the permutation
  with its free slots. On a permuter with three keys in use the two disagree.\<close>

theorem rotate_not_modulo_size:
  "\<exists>x i j k. perm_wf 15 x \<and> i \<le> j \<and> j \<le> perm_size x \<and> i \<le> k \<and> k < perm_size x \<and>
     perm_get (rotate_perm 15 x i j) k \<noteq> perm_get x (i + (k - i + j - i) mod (perm_size x - i))"
proof -
  let ?x = "make_sorted 15 3"
  have "perm_get (rotate_perm 15 ?x 0 1) 2 = 14"
    by (simp add: perm_get_rotate perm_get_make_sorted)
  moreover have "perm_get ?x (0 + (2 - 0 + 1 - 0) mod (perm_size ?x - 0)) = 0"
    by (simp add: perm_size_make_sorted perm_get_make_sorted)
  moreover have "perm_wf 15 ?x" "perm_size ?x = 3"
    by (simp_all add: perm_wf_make_sorted perm_size_make_sorted)
  ultimately show ?thesis
    by (intro exI [of _ ?x] exI [of _ 0] exI [of _ 1] exI [of _ 2]) simp
qed

end
