(* ===== verification/KSearch.thy ===== *)
theory KSearch
  imports Prelude
begin

text \<open>
  The searches of \<open>ksearch.hh\<close> over the keys of one node. A node gives them its
  permutation (\<open>perm\<close>, from positions to slots), its size and a comparator of the
  sought key with the key in a slot. The binary loops are the ones the default
  parameters select; the linear loops are \<open>key_bound_linear\<close>. The locale states what
  a type of nodes has to promise (its keys are strictly increasing), and both kinds of
  search are proved to return the same, right position.
\<close>

section \<open>The operations of the code\<close>

text \<open>A position \<open>i\<close> in key order and the slot \<open>p\<close> there, \<open>-1\<close> when the key is absent.\<close>

record key_indexed_position =
  kx_i :: int
  kx_p :: int

function key_upper_bound_loop :: "(nat \<Rightarrow> int) \<Rightarrow> (nat \<Rightarrow> nat) \<Rightarrow> nat \<Rightarrow> nat \<Rightarrow> nat" where
  "key_upper_bound_loop cmp perm l r =
     (if l < r then
        (let m = (l + r) div 2;
             mp = perm m;
             c = cmp mp
         in if c < 0 then key_upper_bound_loop cmp perm l m
            else if c = 0 then m + 1
            else key_upper_bound_loop cmp perm (m + 1) r)
      else l)"
  by pat_completeness auto
termination
  by (relation "measure (\<lambda>(cmp, perm, l, r). r - l)") auto

declare key_upper_bound_loop.simps [simp del]

definition key_upper_bound_by :: "(nat \<Rightarrow> int) \<Rightarrow> (nat \<Rightarrow> nat) \<Rightarrow> nat \<Rightarrow> nat" where
  "key_upper_bound_by cmp perm n = key_upper_bound_loop cmp perm 0 n"

function key_lower_bound_loop ::
  "(nat \<Rightarrow> int) \<Rightarrow> (nat \<Rightarrow> nat) \<Rightarrow> nat \<Rightarrow> nat \<Rightarrow> key_indexed_position" where
  "key_lower_bound_loop cmp perm l r =
     (if l < r then
        (let m = (l + r) div 2;
             mp = perm m;
             c = cmp mp
         in if c < 0 then key_lower_bound_loop cmp perm l m
            else if c = 0 then \<lparr>kx_i = int m, kx_p = int mp\<rparr>
            else key_lower_bound_loop cmp perm (m + 1) r)
      else \<lparr>kx_i = int l, kx_p = -1\<rparr>)"
  by pat_completeness auto
termination
  by (relation "measure (\<lambda>(cmp, perm, l, r). r - l)") auto

declare key_lower_bound_loop.simps [simp del]

definition key_lower_bound_by ::
  "(nat \<Rightarrow> int) \<Rightarrow> (nat \<Rightarrow> nat) \<Rightarrow> nat \<Rightarrow> key_indexed_position" where
  "key_lower_bound_by cmp perm n = key_lower_bound_loop cmp perm 0 n"

function key_find_upper_bound_loop :: "(nat \<Rightarrow> int) \<Rightarrow> (nat \<Rightarrow> nat) \<Rightarrow> nat \<Rightarrow> nat \<Rightarrow> nat" where
  "key_find_upper_bound_loop cmp perm l r =
     (if l < r then
        (if cmp (perm l) < 0 then l else key_find_upper_bound_loop cmp perm (l + 1) r)
      else l)"
  by pat_completeness auto
termination
  by (relation "measure (\<lambda>(cmp, perm, l, r). r - l)") auto

declare key_find_upper_bound_loop.simps [simp del]

definition key_find_upper_bound_by :: "(nat \<Rightarrow> int) \<Rightarrow> (nat \<Rightarrow> nat) \<Rightarrow> nat \<Rightarrow> nat" where
  "key_find_upper_bound_by cmp perm n = key_find_upper_bound_loop cmp perm 0 n"

function key_find_lower_bound_loop ::
  "(nat \<Rightarrow> int) \<Rightarrow> (nat \<Rightarrow> nat) \<Rightarrow> nat \<Rightarrow> nat \<Rightarrow> key_indexed_position" where
  "key_find_lower_bound_loop cmp perm l r =
     (if l < r then
        (let lp = perm l;
             c = cmp lp
         in if c < 0 then \<lparr>kx_i = int l, kx_p = -1\<rparr>
            else if c = 0 then \<lparr>kx_i = int l, kx_p = int lp\<rparr>
            else key_find_lower_bound_loop cmp perm (l + 1) r)
      else \<lparr>kx_i = int l, kx_p = -1\<rparr>)"
  by pat_completeness auto
termination
  by (relation "measure (\<lambda>(cmp, perm, l, r). r - l)") auto

declare key_find_lower_bound_loop.simps [simp del]

definition key_find_lower_bound_by ::
  "(nat \<Rightarrow> int) \<Rightarrow> (nat \<Rightarrow> nat) \<Rightarrow> nat \<Rightarrow> key_indexed_position" where
  "key_find_lower_bound_by cmp perm n = key_find_lower_bound_loop cmp perm 0 n"

text \<open>\<open>key_bound\<close>: which search a node of \<open>max_size\<close> slots uses.\<close>

datatype bound_method = bound_method_fast | bound_method_binary | bound_method_linear

fun key_bound_is_binary :: "nat \<Rightarrow> bound_method \<Rightarrow> bool" where
  "key_bound_is_binary max_size bound_method_binary = True"
| "key_bound_is_binary max_size bound_method_linear = False"
| "key_bound_is_binary max_size bound_method_fast = (max_size > 16)"

definition bound_upper :: "nat \<Rightarrow> bound_method \<Rightarrow> (nat \<Rightarrow> int) \<Rightarrow> (nat \<Rightarrow> nat) \<Rightarrow> nat \<Rightarrow> nat" where
  "bound_upper max_size meth cmp perm n =
     (if key_bound_is_binary max_size meth then key_upper_bound_by cmp perm n
      else key_find_upper_bound_by cmp perm n)"

definition bound_lower ::
  "nat \<Rightarrow> bound_method \<Rightarrow> (nat \<Rightarrow> int) \<Rightarrow> (nat \<Rightarrow> nat) \<Rightarrow> nat \<Rightarrow> key_indexed_position" where
  "bound_lower max_size meth cmp perm n =
     (if key_bound_is_binary max_size meth then key_lower_bound_by cmp perm n
      else key_find_lower_bound_by cmp perm n)"

section \<open>What a search returns\<close>

text \<open>\<open>is_upper\<close>: position \<open>u\<close> separates the keys at most the sought one from the greater
  ones. \<open>is_lower\<close>: the sought key's position and slot, or the position where it would go.\<close>

definition is_upper :: "(nat \<Rightarrow> int) \<Rightarrow> (nat \<Rightarrow> nat) \<Rightarrow> nat \<Rightarrow> nat \<Rightarrow> bool" where
  "is_upper cmp perm n u \<longleftrightarrow> u \<le> n \<and> (\<forall>i<u. 0 \<le> cmp (perm i)) \<and> (\<forall>i<n. u \<le> i \<longrightarrow> cmp (perm i) < 0)"

definition is_lower ::
  "(nat \<Rightarrow> int) \<Rightarrow> (nat \<Rightarrow> nat) \<Rightarrow> nat \<Rightarrow> key_indexed_position \<Rightarrow> bool" where
  "is_lower cmp perm n k \<longleftrightarrow>
     (\<exists>l. kx_i k = int l \<and> l \<le> n \<and> (\<forall>i<l. 0 < cmp (perm i)) \<and>
        (if kx_p k = -1 then \<forall>i<n. l \<le> i \<longrightarrow> cmp (perm i) < 0
         else l < n \<and> kx_p k = int (perm l) \<and> cmp (perm l) = 0 \<and>
           (\<forall>i<n. l < i \<longrightarrow> cmp (perm i) < 0)))"

lemma is_upper_unique: "is_upper cmp perm n u \<Longrightarrow> is_upper cmp perm n v \<Longrightarrow> u = v"
proof (rule ccontr)
  assume u: "is_upper cmp perm n u" and v: "is_upper cmp perm n v" and "u \<noteq> v"
  then consider "u < v" | "v < u" by linarith
  then show False
  proof cases
    case 1
    with u v have "cmp (perm u) < 0" "0 \<le> cmp (perm u)" by (simp_all add: is_upper_def)
    then show False by simp
  next
    case 2
    with u v have "cmp (perm v) < 0" "0 \<le> cmp (perm v)" by (simp_all add: is_upper_def)
    then show False by simp
  qed
qed

section \<open>Searching a sorted node\<close>

text \<open>Sorted as a search sees it: before a key that is not greater than the sought one come
  only smaller ones.\<close>

definition search_sorted :: "(nat \<Rightarrow> int) \<Rightarrow> (nat \<Rightarrow> nat) \<Rightarrow> nat \<Rightarrow> bool" where
  "search_sorted cmp perm n \<longleftrightarrow>
     (\<forall>j<n. 0 \<le> cmp (perm j) \<longrightarrow> (\<forall>i<j. 0 < cmp (perm i)))"

lemma search_sortedD:
  "search_sorted cmp perm n \<Longrightarrow> i < j \<Longrightarrow> j < n \<Longrightarrow> 0 \<le> cmp (perm j) \<Longrightarrow> 0 < cmp (perm i)"
  by (simp add: search_sorted_def)

lemma below:
  "search_sorted cmp perm n \<Longrightarrow> i < j \<Longrightarrow> j < n \<Longrightarrow> cmp (perm i) \<le> 0 \<Longrightarrow> cmp (perm j) < 0"
  using search_sortedD [of cmp perm n i j] by linarith

lemma upper_loop:
  assumes sorted: "search_sorted cmp perm n" and "l \<le> r" "r \<le> n" "\<forall>i<l. 0 \<le> cmp (perm i)" "\<forall>i<n. r \<le> i \<longrightarrow> cmp (perm i) < 0"
  shows "is_upper cmp perm n (key_upper_bound_loop cmp perm l r)"
  using assms(2-)
proof (induction "r - l" arbitrary: l r rule: less_induct)
  case less
  show ?case
  proof (cases "l < r")
    case True
    let ?m = "(l + r) div 2"
    have m: "l \<le> ?m" "?m < r" "?m < n" using True less.prems by auto
    consider "cmp (perm ?m) < 0" | "cmp (perm ?m) = 0" | "0 < cmp (perm ?m)" by linarith
    then show ?thesis
    proof cases
      case 1
      have "\<forall>i<n. ?m \<le> i \<longrightarrow> cmp (perm i) < 0" using 1 below [OF sorted, of ?m] by (auto simp: le_less)
      with less.hyps [of ?m l] less.prems m 1 True show ?thesis
        by (subst key_upper_bound_loop.simps) (simp add: Let_def)
    next
      case 2
      have "is_upper cmp perm n (?m + 1)"
        using 2 m search_sortedD [OF sorted, of _ ?m] below [OF sorted, of ?m]
        by (auto simp: is_upper_def less_Suc_eq Suc_le_eq intro: less_imp_le)
      with 2 True show ?thesis by (subst key_upper_bound_loop.simps) (simp add: Let_def)
    next
      case 3
      have "\<forall>i<?m + 1. 0 \<le> cmp (perm i)"
        using 3 m search_sortedD [OF sorted, of _ ?m] by (auto simp: less_Suc_eq intro: less_imp_le)
      with less.hyps [of r "?m + 1"] less.prems m
      have "is_upper cmp perm n (key_upper_bound_loop cmp perm (?m + 1) r)" by simp
      with 3 True show ?thesis
        by (subst key_upper_bound_loop.simps) (simp add: Let_def)
    qed
  next
    case False
    with less.prems show ?thesis by (subst key_upper_bound_loop.simps) (simp add: is_upper_def)
  qed
qed

lemma upper: "search_sorted cmp perm n \<Longrightarrow> is_upper cmp perm n (key_upper_bound_by cmp perm n)"
  unfolding key_upper_bound_by_def by (rule upper_loop) auto

lemma find_upper_loop:
  assumes sorted: "search_sorted cmp perm n" and "l \<le> n" "\<forall>i<l. 0 \<le> cmp (perm i)"
  shows "is_upper cmp perm n (key_find_upper_bound_loop cmp perm l n)"
  using assms(2-)
proof (induction "n - l" arbitrary: l rule: less_induct)
  case less
  show ?case
  proof (cases "l < n \<and> 0 \<le> cmp (perm l)")
    case True
    with less.prems have "\<forall>i<l + 1. 0 \<le> cmp (perm i)" by (auto simp: less_Suc_eq)
    with less.hyps [of "l + 1"] True
    have "is_upper cmp perm n (key_find_upper_bound_loop cmp perm (l + 1) n)" by simp
    with True show ?thesis by (subst key_find_upper_bound_loop.simps) simp
  next
    case False
    then have "\<forall>i<n. l \<le> i \<longrightarrow> cmp (perm i) < 0" using below [OF sorted, of l] by (auto simp: le_less)
    with False less.prems show ?thesis
      by (subst key_find_upper_bound_loop.simps) (auto simp: is_upper_def)
  qed
qed

lemma find_upper:
  "search_sorted cmp perm n \<Longrightarrow> key_find_upper_bound_by cmp perm n = key_upper_bound_by cmp perm n"
  unfolding key_find_upper_bound_by_def
  by (rule is_upper_unique [OF find_upper_loop upper]) auto

lemma lower_loop:
  assumes sorted: "search_sorted cmp perm n" and "l \<le> r" "r \<le> n" "\<forall>i<l. 0 < cmp (perm i)" "\<forall>i<n. r \<le> i \<longrightarrow> cmp (perm i) < 0"
  shows "is_lower cmp perm n (key_lower_bound_loop cmp perm l r)"
  using assms(2-)
proof (induction "r - l" arbitrary: l r rule: less_induct)
  case less
  show ?case
  proof (cases "l < r")
    case True
    let ?m = "(l + r) div 2"
    have m: "l \<le> ?m" "?m < r" "?m < n" using True less.prems by auto
    consider "cmp (perm ?m) < 0" | "cmp (perm ?m) = 0" | "0 < cmp (perm ?m)" by linarith
    then show ?thesis
    proof cases
      case 1
      have "\<forall>i<n. ?m \<le> i \<longrightarrow> cmp (perm i) < 0" using 1 below [OF sorted, of ?m] by (auto simp: le_less)
      with less.hyps [of ?m l] less.prems m 1 True show ?thesis
        by (subst key_lower_bound_loop.simps) (simp add: Let_def)
    next
      case 2
      have "is_lower cmp perm n \<lparr>kx_i = int ?m, kx_p = int (perm ?m)\<rparr>"
        using 2 m search_sortedD [OF sorted, of _ ?m] below [OF sorted, of ?m]
        by (auto simp: is_lower_def)
      with 2 True show ?thesis by (subst key_lower_bound_loop.simps) (simp add: Let_def)
    next
      case 3
      have "\<forall>i<?m + 1. 0 < cmp (perm i)"
        using 3 m search_sortedD [OF sorted, of _ ?m] by (auto simp: less_Suc_eq)
      with less.hyps [of r "?m + 1"] less.prems m
      have "is_lower cmp perm n (key_lower_bound_loop cmp perm (?m + 1) r)" by simp
      with 3 True show ?thesis
        by (subst key_lower_bound_loop.simps) (simp add: Let_def)
    qed
  next
    case False
    with less.prems show ?thesis by (subst key_lower_bound_loop.simps) (simp add: is_lower_def)
  qed
qed

lemma lower: "search_sorted cmp perm n \<Longrightarrow> is_lower cmp perm n (key_lower_bound_by cmp perm n)"
  unfolding key_lower_bound_by_def by (rule lower_loop) auto

lemma find_lower_loop:
  assumes sorted: "search_sorted cmp perm n" and "l \<le> n" "\<forall>i<l. 0 < cmp (perm i)"
  shows "is_lower cmp perm n (key_find_lower_bound_loop cmp perm l n)"
  using assms(2-)
proof (induction "n - l" arbitrary: l rule: less_induct)
  case less
  consider "l < n" "0 < cmp (perm l)" | "l < n" "cmp (perm l) = 0" | "l < n" "cmp (perm l) < 0"
    | "l = n" using less.prems by linarith
  then show ?case
  proof cases
    case 1
    with less.prems have "\<forall>i<l + 1. 0 < cmp (perm i)" by (auto simp: less_Suc_eq)
    with less.hyps [of "l + 1"] 1
    have "is_lower cmp perm n (key_find_lower_bound_loop cmp perm (l + 1) n)" by simp
    with 1 show ?thesis by (subst key_find_lower_bound_loop.simps) (simp add: Let_def)
  next
    case 2
    with less.prems below [OF sorted, of l] show ?thesis
      by (subst key_find_lower_bound_loop.simps) (auto simp: is_lower_def Let_def)
  next
    case 3
    with less.prems below [OF sorted, of l] show ?thesis
      by (subst key_find_lower_bound_loop.simps) (auto simp: is_lower_def Let_def le_less)
  next
    case 4
    with less.prems show ?thesis
      by (subst key_find_lower_bound_loop.simps) (auto simp: is_lower_def)
  qed
qed

lemma lower_unique:
  assumes "is_lower cmp perm n j" "is_lower cmp perm n k"
  shows "j = (k :: key_indexed_position)"
proof -
  obtain a where a: "kx_i j = int a" "a \<le> n" "\<forall>i<a. 0 < cmp (perm i)"
    "if kx_p j = -1 then \<forall>i<n. a \<le> i \<longrightarrow> cmp (perm i) < 0
     else a < n \<and> kx_p j = int (perm a) \<and> cmp (perm a) = 0 \<and> (\<forall>i<n. a < i \<longrightarrow> cmp (perm i) < 0)"
    using assms(1) unfolding is_lower_def by blast
  obtain b where b: "kx_i k = int b" "b \<le> n" "\<forall>i<b. 0 < cmp (perm i)"
    "if kx_p k = -1 then \<forall>i<n. b \<le> i \<longrightarrow> cmp (perm i) < 0
     else b < n \<and> kx_p k = int (perm b) \<and> cmp (perm b) = 0 \<and> (\<forall>i<n. b < i \<longrightarrow> cmp (perm i) < 0)"
    using assms(2) unfolding is_lower_def by blast
  have le: "\<not> a < b" using a(4) b(2,3) by (metis less_irrefl less_le_trans less_not_sym order_refl)
  have ge: "\<not> b < a" using b(4) a(2,3) by (metis less_irrefl less_le_trans less_not_sym order_refl)
  from le ge have "a = b" by simp
  moreover have "kx_p j = kx_p k"
    using a(4) b(4) \<open>a = b\<close> by (auto split: if_splits)
  ultimately show ?thesis using a(1) b(1) by simp
qed

lemma find_lower:
  "search_sorted cmp perm n \<Longrightarrow> key_find_lower_bound_by cmp perm n = key_lower_bound_by cmp perm n"
  unfolding key_find_lower_bound_by_def
  by (rule lower_unique [OF find_lower_loop lower]) auto

section \<open>The interface of a node type\<close>

text \<open>What leaves and internodes promise to the searches: a valid node is sorted for every
  sought key. Then every search method finds the same position, and the right one.\<close>

locale searchable_node =
  fixes valid :: "'n \<Rightarrow> bool" and cmp :: "'k \<Rightarrow> 'n \<Rightarrow> nat \<Rightarrow> int"
    and perm :: "'n \<Rightarrow> nat \<Rightarrow> nat" and size_of :: "'n \<Rightarrow> nat"
  assumes sorted: "valid x \<Longrightarrow> search_sorted (cmp k x) (perm x) (size_of x)"
begin

lemma bound_upper_correct:
  "valid x \<Longrightarrow> is_upper (cmp k x) (perm x) (size_of x) (bound_upper ms meth (cmp k x) (perm x) (size_of x))"
  using upper [OF sorted [of x k]] find_upper [OF sorted [of x k]] by (simp add: bound_upper_def)

lemma bound_lower_correct:
  "valid x \<Longrightarrow> is_lower (cmp k x) (perm x) (size_of x) (bound_lower ms meth (cmp k x) (perm x) (size_of x))"
  using lower [OF sorted [of x k]] find_lower [OF sorted [of x k]] by (simp add: bound_lower_def)

lemma method_irrelevant:
  "valid x \<Longrightarrow> bound_lower ms meth (cmp k x) (perm x) (size_of x) =
     bound_lower ms' meth' (cmp k x) (perm x) (size_of x)"
  "valid x \<Longrightarrow> bound_upper ms meth (cmp k x) (perm x) (size_of x) =
     bound_upper ms' meth' (cmp k x) (perm x) (size_of x)"
  using find_upper [OF sorted [of x k]] find_lower [OF sorted [of x k]]
  by (simp_all add: bound_lower_def bound_upper_def)

end

end
