(* ===== verification/Node_Version.thy ===== *)
theory Node_Version
  imports Prelude
begin

text \<open>
  The version word of a tree node (\<open>nodeversion.hh\<close>): a lock bit, two dirty bits, a
  counter of inserts and splits and four flags at the top. The operations are the
  methods of \<open>nodeversion\<close> as functions on the word; the locale \<open>version_layout\<close> states
  where a parameter set puts its bits, and both parameter sets of the code interpret it.
  The last part runs many threads on one word and proves the two promises readers and
  writers rely on: mutual exclusion of writers, and that an unchanged version means
  that nothing protected by the dirty bits was written.
\<close>

unbundle bit_operations_syntax

section \<open>Parameters\<close>

record 'v nodeversion_parameters =
  lock_bit :: 'v
  inserting_shift :: nat
  inserting_bit :: 'v
  splitting_bit :: 'v
  dirty_mask :: 'v
  vinsert_lowbit :: 'v
  vsplit_lowbit :: 'v
  unused1_bit :: 'v
  deleted_bit :: 'v
  root_bit :: 'v
  isleaf_bit :: 'v
  split_unlock_mask :: 'v
  unlock_mask :: 'v
  top_stable_bits :: nat

definition nodeversion_parameters32 :: "u32 nodeversion_parameters" where
  "nodeversion_parameters32 = \<lparr>
     lock_bit = push_bit 0 1,
     inserting_shift = 1,
     inserting_bit = push_bit 1 1,
     splitting_bit = push_bit 2 1,
     dirty_mask = push_bit 1 1 OR push_bit 2 1,
     vinsert_lowbit = push_bit 3 1,
     vsplit_lowbit = push_bit 9 1,
     unused1_bit = push_bit 28 1,
     deleted_bit = push_bit 29 1,
     root_bit = push_bit 30 1,
     isleaf_bit = push_bit 31 1,
     split_unlock_mask = NOT (push_bit 30 1 OR push_bit 28 1 OR (push_bit 9 1 - 1)),
     unlock_mask = NOT (push_bit 28 1 OR (push_bit 3 1 - 1)),
     top_stable_bits = 4\<rparr>"

definition nodeversion_parameters64 :: "u64 nodeversion_parameters" where
  "nodeversion_parameters64 = \<lparr>
     lock_bit = push_bit 8 1,
     inserting_shift = 9,
     inserting_bit = push_bit 9 1,
     splitting_bit = push_bit 10 1,
     dirty_mask = push_bit 9 1 OR push_bit 10 1,
     vinsert_lowbit = push_bit 11 1,
     vsplit_lowbit = push_bit 27 1,
     unused1_bit = push_bit 60 1,
     deleted_bit = push_bit 61 1,
     root_bit = push_bit 62 1,
     isleaf_bit = push_bit 63 1,
     split_unlock_mask = NOT (push_bit 62 1 OR push_bit 60 1 OR (push_bit 27 1 - 1)),
     unlock_mask = NOT (push_bit 60 1 OR (push_bit 11 1 - 1)),
     top_stable_bits = 4\<rparr>"

section \<open>The methods of \<open>nodeversion\<close>\<close>

type_synonym 'a params = "'a word nodeversion_parameters"

definition nv_make :: "('a::len) params \<Rightarrow> bool \<Rightarrow> 'a word" where
  "nv_make P leaf = (if leaf then isleaf_bit P else 0)"

definition nv_isleaf :: "('a::len) params \<Rightarrow> 'a word \<Rightarrow> bool" where
  "nv_isleaf P v \<longleftrightarrow> v AND isleaf_bit P \<noteq> 0"

text \<open>One round of \<open>stable\<close>: \<open>None\<close> is another spin, the fences order memory accesses
  that the model has one after the other.\<close>

definition nv_stable :: "('a::len) params \<Rightarrow> 'a word \<Rightarrow> 'a word option" where
  "nv_stable P x = (if x AND dirty_mask P \<noteq> 0 then None else Some x)"

definition nv_locked :: "('a::len) params \<Rightarrow> 'a word \<Rightarrow> bool" where
  "nv_locked P v \<longleftrightarrow> v AND lock_bit P \<noteq> 0"

definition nv_inserting :: "('a::len) params \<Rightarrow> 'a word \<Rightarrow> bool" where
  "nv_inserting P v \<longleftrightarrow> v AND inserting_bit P \<noteq> 0"

definition nv_splitting :: "('a::len) params \<Rightarrow> 'a word \<Rightarrow> bool" where
  "nv_splitting P v \<longleftrightarrow> v AND splitting_bit P \<noteq> 0"

definition nv_deleted :: "('a::len) params \<Rightarrow> 'a word \<Rightarrow> bool" where
  "nv_deleted P v \<longleftrightarrow> v AND deleted_bit P \<noteq> 0"

definition nv_has_changed :: "('a::len) params \<Rightarrow> 'a word \<Rightarrow> 'a word \<Rightarrow> bool" where
  "nv_has_changed P v x \<longleftrightarrow> x XOR v > lock_bit P"

definition nv_is_root :: "('a::len) params \<Rightarrow> 'a word \<Rightarrow> bool" where
  "nv_is_root P v \<longleftrightarrow> v AND root_bit P \<noteq> 0"

definition nv_has_split :: "('a::len) params \<Rightarrow> 'a word \<Rightarrow> 'a word \<Rightarrow> bool" where
  "nv_has_split P v x \<longleftrightarrow> x XOR v \<ge> vsplit_lowbit P"

definition nv_simple_has_split :: "('a::len) params \<Rightarrow> 'a word \<Rightarrow> 'a word \<Rightarrow> bool" where
  "nv_simple_has_split P v x \<longleftrightarrow> x XOR v \<ge> vsplit_lowbit P"

text \<open>One round of \<open>lock(expected)\<close> and \<open>try_lock\<close> on a word \<open>v\<close>: the compare-and-swap of
  the loop, with the new word and the result. A round that fails reloads \<open>expected\<close>
  (\<open>Inr\<close>); \<open>try_lock\<close> gives up instead.\<close>

definition nv_lock_round ::
  "('a::len) params \<Rightarrow> 'a word \<Rightarrow> 'a word \<Rightarrow> 'a word \<times> ('a word + 'a word)" where
  "nv_lock_round P v expected =
     (if expected AND lock_bit P = 0 \<and> v = expected
      then (expected OR lock_bit P, Inl (expected OR lock_bit P))
      else (v, Inr v))"

definition nv_try_lock :: "('a::len) params \<Rightarrow> 'a word \<Rightarrow> 'a word \<Rightarrow> 'a word \<times> bool" where
  "nv_try_lock P v expected =
     (if expected AND lock_bit P = 0 \<and> v = expected then (expected OR lock_bit P, True)
      else (v, False))"

definition nv_unlock :: "('a::len) params \<Rightarrow> 'a word \<Rightarrow> 'a word" where
  "nv_unlock P x =
     (if x AND splitting_bit P \<noteq> 0 then (x + vsplit_lowbit P) AND split_unlock_mask P
      else (x + push_bit 2 (x AND inserting_bit P)) AND unlock_mask P)"

definition nv_mark_insert :: "('a::len) params \<Rightarrow> 'a word \<Rightarrow> 'a word" where
  "nv_mark_insert P v = v OR inserting_bit P"

definition nv_mark_split :: "('a::len) params \<Rightarrow> 'a word \<Rightarrow> 'a word" where
  "nv_mark_split P v = v OR splitting_bit P"

definition nv_mark_change :: "('a::len) params \<Rightarrow> bool \<Rightarrow> 'a word \<Rightarrow> 'a word" where
  "nv_mark_change P is_split v = v OR push_bit (inserting_shift P) (of_bool is_split + 1)"

definition nv_mark_deleted :: "('a::len) params \<Rightarrow> 'a word \<Rightarrow> 'a word" where
  "nv_mark_deleted P v = v OR (deleted_bit P OR splitting_bit P)"

definition nv_mark_deleted_tree :: "('a::len) params \<Rightarrow> 'a word \<Rightarrow> 'a word" where
  "nv_mark_deleted_tree P v = v OR deleted_bit P"

definition nv_mark_root :: "('a::len) params \<Rightarrow> 'a word \<Rightarrow> 'a word" where
  "nv_mark_root P v = v OR root_bit P"

definition nv_mark_nonroot :: "('a::len) params \<Rightarrow> 'a word \<Rightarrow> 'a word" where
  "nv_mark_nonroot P v = v AND NOT (root_bit P)"

definition nv_unlocked_version_value :: "('a::len) params \<Rightarrow> 'a word \<Rightarrow> 'a word" where
  "nv_unlocked_version_value P v = v AND unlock_mask P"

text \<open>The single-threaded variant keeps only the flags that a tree without threads
  reads: splitting clears the root bit, everything else is a no-op.\<close>

definition st_mark_split :: "('a::len) params \<Rightarrow> 'a word \<Rightarrow> 'a word" where
  "st_mark_split P v = v AND NOT (root_bit P)"

definition st_mark_change :: "('a::len) params \<Rightarrow> bool \<Rightarrow> 'a word \<Rightarrow> 'a word" where
  "st_mark_change P is_split v = (if is_split then st_mark_split P v else v)"

definition st_mark_deleted_tree :: "('a::len) params \<Rightarrow> 'a word \<Rightarrow> 'a word" where
  "st_mark_deleted_tree P v = v OR deleted_bit P"

definition st_mark_root :: "('a::len) params \<Rightarrow> 'a word \<Rightarrow> 'a word" where
  "st_mark_root P v = v OR root_bit P"

definition st_mark_nonroot :: "('a::len) params \<Rightarrow> 'a word \<Rightarrow> 'a word" where
  "st_mark_nonroot P v = v AND NOT (root_bit P)"

section \<open>The fields of a version word\<close>

text \<open>With the lock bit at \<open>l\<close> the dirty bits are at \<open>l + 1\<close> and \<open>l + 2\<close>, the counter takes
  the bits from \<open>l + 3\<close> up to the unused bit, four below the top, and the flags deleted,
  root and leaf are above it. \<open>ver_ok\<close> is what every word of a node keeps: nothing below
  the lock bit and the unused bit clear.\<close>

definition count_width :: "'a::len itself \<Rightarrow> nat \<Rightarrow> nat" where
  "count_width _ l = LENGTH('a) - 4 - (l + 3)"

definition ver_count :: "nat \<Rightarrow> 'a::len word \<Rightarrow> nat" where
  "ver_count l v = unat v div 2 ^ (l + 3) mod 2 ^ count_width TYPE('a) l"

definition ver_ok :: "nat \<Rightarrow> 'a::len word \<Rightarrow> bool" where
  "ver_ok l v \<longleftrightarrow> (\<forall>i<l. \<not> bit v i) \<and> \<not> bit v (LENGTH('a) - 4)"

definition bitw :: "nat \<Rightarrow> 'a::len word" where
  "bitw k = push_bit k 1"

lemma bit_bitw: "bit (bitw k :: 'a::len word) i \<longleftrightarrow> i = k \<and> k < LENGTH('a)"
  by (auto simp: bitw_def bit_exp_iff)

lemma and_bitw: "v AND bitw k \<noteq> 0 \<longleftrightarrow> bit (v :: 'a::len word) k"
  by (simp only: bitw_def bit_iff_and_push_bit_not_eq_0)

lemma bit_imp_ge: "bit w i \<Longrightarrow> 2 ^ i \<le> unat (w :: 'a::len word)"
proof -
  assume "bit w i"
  then have "odd (unat w div 2 ^ i)" by (metis bit_iff_odd bit_unsigned_iff possible_bit_nat)
  then have "unat w div 2 ^ i \<noteq> 0" by (intro notI) simp
  then show ?thesis by (simp add: div_eq_0_iff not_less)
qed

lemma no_bit_imp_less:
  assumes "\<And>i. k \<le> i \<Longrightarrow> \<not> bit w i"
  shows "unat (w :: 'a::len word) < 2 ^ k"
proof -
  have "take_bit k w = w"
  proof (rule bit_word_eqI)
    fix n
    show "bit (take_bit k w) n = bit w n"
      using assms [of n] by (cases "n < k") (simp_all add: bit_take_bit_iff)
  qed
  moreover have "unat (take_bit k w) = take_bit k (unat w)" by (rule unsigned_take_bit_eq)
  ultimately have "take_bit k (unat w) = unat w" by (simp only:)
  then show ?thesis by (simp only: take_bit_nat_eq_self_iff)
qed

lemma unat_bitw: "k < LENGTH('a) \<Longrightarrow> unat (bitw k :: 'a::len word) = 2 ^ k"
proof -
  assume "k < LENGTH('a)"
  then have "(2 :: nat) ^ k < 2 ^ LENGTH('a)" by (intro power_strict_increasing) auto
  moreover have "bitw k = (of_nat (2 ^ k) :: 'a word)" by (simp add: bitw_def)
  ultimately show ?thesis by (simp only: unat_of_nat mod_less)
qed

lemma xor_ge_iff:
  assumes "k < LENGTH('a)"
  shows "bitw k \<le> (x XOR v :: 'a::len word) \<longleftrightarrow> (\<exists>i\<ge>k. bit x i \<noteq> bit v i)"
proof
  assume a: "bitw k \<le> (x XOR v)"
  show "\<exists>i\<ge>k. bit x i \<noteq> bit v i"
  proof (rule ccontr)
    assume "\<not> ?thesis"
    then have "unat (x XOR v) < 2 ^ k" by (intro no_bit_imp_less) (auto simp: bit_xor_iff)
    with a assms show False by (simp add: word_le_nat_alt unat_bitw)
  qed
next
  assume "\<exists>i\<ge>k. bit x i \<noteq> bit v i"
  then obtain i where i: "k \<le> i" "bit (x XOR v) i" by (auto simp: bit_xor_iff)
  have "(2 :: nat) ^ k \<le> 2 ^ i" using i by (intro power_increasing) auto
  also have "\<dots> \<le> unat (x XOR v)" using i by (intro bit_imp_ge)
  finally show "bitw k \<le> (x XOR v)" using assms by (simp add: word_le_nat_alt unat_bitw)
qed

lemma unat_div_bits:
  "unat (v :: 'a::len word) div 2 ^ a mod 2 ^ k = unat (w :: 'a word) div 2 ^ a mod 2 ^ k \<longleftrightarrow>
   (\<forall>i<k. bit v (a + i) = bit w (a + i))"
proof -
  have e: "unat u div 2 ^ a mod 2 ^ k = take_bit k (drop_bit a (unat u))" for u :: "'a word"
    by (simp add: drop_bit_eq_div take_bit_eq_mod)
  show ?thesis
  proof
    assume "unat v div 2 ^ a mod 2 ^ k = unat w div 2 ^ a mod 2 ^ k"
    then have "take_bit k (drop_bit a (unat v)) = take_bit k (drop_bit a (unat w))"
      by (simp only: e)
    then have "bit (take_bit k (drop_bit a (unat v))) i = bit (take_bit k (drop_bit a (unat w))) i" for i
      by (simp only:)
    then show "\<forall>i<k. bit v (a + i) = bit w (a + i)"
      by (auto simp: bit_take_bit_iff bit_drop_bit_eq bit_unsigned_iff)
  next
    assume "\<forall>i<k. bit v (a + i) = bit w (a + i)"
    then show "unat v div 2 ^ a mod 2 ^ k = unat w div 2 ^ a mod 2 ^ k"
      unfolding e by (intro bit_eqI) (auto simp: bit_take_bit_iff bit_drop_bit_eq bit_unsigned_iff)
  qed
qed

section \<open>Threads on one version word\<close>

text \<open>What a thread does with the word: nothing, hold a stable snapshot, try to lock with
  an expected value, or hold the lock with its own copy of the word.\<close>

datatype 'v pc = Idle | Snap 'v | Locking 'v | Holding 'v

text \<open>\<open>vs_count\<close>, \<open>vs_data\<close> and \<open>vs_snaps\<close> are ghost state: the unbounded counter, the number
  of writes that the dirty bits protect, and both of them at each thread's snapshot.\<close>

record 'v vstate =
  vs_word :: 'v
  vs_pcs :: "nat \<Rightarrow> 'v pc"
  vs_count :: nat
  vs_data :: nat
  vs_snaps :: "nat \<Rightarrow> nat \<times> nat"

definition nv_marks :: "('a::len) params \<Rightarrow> 'a word \<Rightarrow> 'a word set" where
  "nv_marks P v = {nv_mark_insert P v, nv_mark_split P v, nv_mark_change P False v,
     nv_mark_change P True v, nv_mark_deleted P v, nv_mark_root P v, nv_mark_nonroot P v} \<union>
     (if nv_is_root P v then {nv_mark_deleted_tree P v} else {})"

definition count_advance :: "('a::len) params \<Rightarrow> 'a word \<Rightarrow> nat \<Rightarrow> nat" where
  "count_advance P x c =
     (let d = unat (vsplit_lowbit P) div unat (vinsert_lowbit P) in
      if nv_splitting P x then (c div d + 1) * d else if nv_inserting P x then c + 1 else c)"

inductive vstep :: "('a::len) params \<Rightarrow> 'a word vstate \<Rightarrow> 'a word vstate \<Rightarrow> bool" for P where
  Stable: "vs_pcs \<sigma> t = Idle \<Longrightarrow> nv_stable P (vs_word \<sigma>) = Some x \<Longrightarrow>
    vstep P \<sigma> (\<sigma>\<lparr>vs_pcs := (vs_pcs \<sigma>)(t := Snap x),
      vs_snaps := (vs_snaps \<sigma>)(t := (vs_count \<sigma>, vs_data \<sigma>))\<rparr>)"
| Forget: "vs_pcs \<sigma> t = Snap x \<Longrightarrow> vstep P \<sigma> (\<sigma>\<lparr>vs_pcs := (vs_pcs \<sigma>)(t := Idle)\<rparr>)"
| Expect: "vs_pcs \<sigma> t = Idle \<Longrightarrow> vstep P \<sigma> (\<sigma>\<lparr>vs_pcs := (vs_pcs \<sigma>)(t := Locking (vs_word \<sigma>))\<rparr>)"
| Expect_snap: "vs_pcs \<sigma> t = Snap x \<Longrightarrow> vstep P \<sigma> (\<sigma>\<lparr>vs_pcs := (vs_pcs \<sigma>)(t := Locking x)\<rparr>)"
| Lock: "vs_pcs \<sigma> t = Locking e \<Longrightarrow> nv_lock_round P (vs_word \<sigma>) e = (w, Inl r) \<Longrightarrow>
    vstep P \<sigma> (\<sigma>\<lparr>vs_word := w, vs_pcs := (vs_pcs \<sigma>)(t := Holding r)\<rparr>)"
| Lock_retry: "vs_pcs \<sigma> t = Locking e \<Longrightarrow> nv_lock_round P (vs_word \<sigma>) e = (w, Inr e') \<Longrightarrow>
    vstep P \<sigma> (\<sigma>\<lparr>vs_word := w, vs_pcs := (vs_pcs \<sigma>)(t := Locking e')\<rparr>)"
| Try_lock_fail: "vs_pcs \<sigma> t = Locking e \<Longrightarrow> nv_try_lock P (vs_word \<sigma>) e = (w, False) \<Longrightarrow>
    vstep P \<sigma> (\<sigma>\<lparr>vs_word := w, vs_pcs := (vs_pcs \<sigma>)(t := Idle)\<rparr>)"
| Mark: "vs_pcs \<sigma> t = Holding x \<Longrightarrow> w \<in> nv_marks P (vs_word \<sigma>) \<Longrightarrow>
    vstep P \<sigma> (\<sigma>\<lparr>vs_word := w, vs_pcs := (vs_pcs \<sigma>)(t := Holding w)\<rparr>)"
| Write: "vs_pcs \<sigma> t = Holding x \<Longrightarrow> nv_inserting P x \<or> nv_splitting P x \<Longrightarrow>
    vstep P \<sigma> (\<sigma>\<lparr>vs_data := vs_data \<sigma> + 1\<rparr>)"
| Unlock: "vs_pcs \<sigma> t = Holding x \<Longrightarrow>
    vstep P \<sigma> (\<sigma>\<lparr>vs_word := nv_unlock P x, vs_pcs := (vs_pcs \<sigma>)(t := Idle),
      vs_count := count_advance P x (vs_count \<sigma>)\<rparr>)"

definition vinit :: "('a::len) params \<Rightarrow> bool \<Rightarrow> 'a word vstate" where
  "vinit P leaf = \<lparr>vs_word = nv_make P leaf, vs_pcs = (\<lambda>_. Idle), vs_count = 0, vs_data = 0,
     vs_snaps = (\<lambda>_. (0, 0))\<rparr>"

definition snap_ok :: "('a::len) params \<Rightarrow> nat \<Rightarrow> 'a word vstate \<Rightarrow> 'a word \<Rightarrow> nat \<times> nat \<Rightarrow> bool" where
  "snap_ok P l \<sigma> x g \<longleftrightarrow> ver_ok l x \<and> x AND dirty_mask P = 0 \<and>
     ver_count l x = fst g mod 2 ^ count_width TYPE('a) l \<and> fst g \<le> vs_count \<sigma> \<and>
     (fst g = vs_count \<sigma> \<longrightarrow> vs_word \<sigma> AND dirty_mask P = 0 \<longrightarrow> snd g = vs_data \<sigma>)"

definition vinv :: "('a::len) params \<Rightarrow> nat \<Rightarrow> 'a word vstate \<Rightarrow> bool" where
  "vinv P l \<sigma> \<longleftrightarrow> ver_ok l (vs_word \<sigma>) \<and>
     (\<forall>t x. vs_pcs \<sigma> t = Holding x \<longrightarrow> x = vs_word \<sigma>) \<and>
     (nv_locked P (vs_word \<sigma>) \<longleftrightarrow> (\<exists>t x. vs_pcs \<sigma> t = Holding x)) \<and>
     (\<forall>t u x y. vs_pcs \<sigma> t = Holding x \<longrightarrow> vs_pcs \<sigma> u = Holding y \<longrightarrow> t = u) \<and>
     (vs_word \<sigma> AND dirty_mask P \<noteq> 0 \<longrightarrow> nv_locked P (vs_word \<sigma>)) \<and>
     ver_count l (vs_word \<sigma>) = vs_count \<sigma> mod 2 ^ count_width TYPE('a) l \<and>
     (\<forall>t x. vs_pcs \<sigma> t = Snap x \<longrightarrow> snap_ok P l \<sigma> x (vs_snaps \<sigma> t))"

lemma vinvD:
  fixes \<sigma> :: "'a::len word vstate"
  assumes "vinv P l \<sigma>"
  shows "ver_ok l (vs_word \<sigma>)"
    and "vs_pcs \<sigma> t = Holding x \<Longrightarrow> x = vs_word \<sigma>"
    and "vs_pcs \<sigma> t = Holding x \<Longrightarrow> nv_locked P (vs_word \<sigma>)"
    and "nv_locked P (vs_word \<sigma>) \<Longrightarrow> \<exists>t x. vs_pcs \<sigma> t = Holding x"
    and "vs_pcs \<sigma> t = Holding x \<Longrightarrow> vs_pcs \<sigma> u = Holding y \<Longrightarrow> t = u"
    and "vs_word \<sigma> AND dirty_mask P \<noteq> 0 \<Longrightarrow> nv_locked P (vs_word \<sigma>)"
    and "ver_count l (vs_word \<sigma>) = vs_count \<sigma> mod 2 ^ count_width TYPE('a) l"
    and "vs_pcs \<sigma> t = Snap x \<Longrightarrow> snap_ok P l \<sigma> x (vs_snaps \<sigma> t)"
  using assms unfolding vinv_def by blast+

locale version_layout =
  fixes P :: "'a::len params" and l s :: nat
  assumes layout: "l + 3 < s" "s < LENGTH('a) - 4"
    and lock_bit: "lock_bit P = bitw l"
    and inserting_shift: "inserting_shift P = l + 1"
    and inserting_bit: "inserting_bit P = bitw (l + 1)"
    and splitting_bit: "splitting_bit P = bitw (l + 2)"
    and dirty_mask: "dirty_mask P = inserting_bit P OR splitting_bit P"
    and vinsert_lowbit: "vinsert_lowbit P = bitw (l + 3)"
    and vsplit_lowbit: "vsplit_lowbit P = bitw s"
    and deleted_bit: "deleted_bit P = bitw (LENGTH('a) - 3)"
    and root_bit: "root_bit P = bitw (LENGTH('a) - 2)"
    and isleaf_bit: "isleaf_bit P = bitw (LENGTH('a) - 1)"
    and split_unlock_mask: "bit (split_unlock_mask P) i \<longleftrightarrow>
      s \<le> i \<and> i < LENGTH('a) \<and> i \<noteq> LENGTH('a) - 2 \<and> i \<noteq> LENGTH('a) - 4"
    and unlock_mask: "bit (unlock_mask P) i \<longleftrightarrow> l + 3 \<le> i \<and> i < LENGTH('a) \<and> i \<noteq> LENGTH('a) - 4"
begin

lemmas positions = lock_bit inserting_bit splitting_bit dirty_mask deleted_bit root_bit isleaf_bit

lemma test_simps:
  "nv_locked P v \<longleftrightarrow> bit v l"
  "nv_inserting P v \<longleftrightarrow> bit v (l + 1)"
  "nv_splitting P v \<longleftrightarrow> bit v (l + 2)"
  "nv_deleted P v \<longleftrightarrow> bit v (LENGTH('a) - 3)"
  "nv_is_root P v \<longleftrightarrow> bit v (LENGTH('a) - 2)"
  "nv_isleaf P v \<longleftrightarrow> bit v (LENGTH('a) - 1)"
  by (simp_all add: nv_locked_def nv_inserting_def nv_splitting_def nv_deleted_def nv_is_root_def
      nv_isleaf_def positions and_bitw)

lemma dirty_iff: "v AND dirty_mask P \<noteq> 0 \<longleftrightarrow> bit v (l + 1) \<or> bit v (l + 2)"
  unfolding positions and_bitw [symmetric] by (simp add: bit.conj_disj_distrib or_eq_0_iff)

lemma bit_mark:
  "bit (nv_mark_insert P v) i \<longleftrightarrow> bit v i \<or> i = l + 1"
  "bit (nv_mark_split P v) i \<longleftrightarrow> bit v i \<or> i = l + 2"
  "bit (nv_mark_change P b v) i \<longleftrightarrow> bit v i \<or> i = (if b then l + 2 else l + 1)"
  "bit (nv_mark_deleted P v) i \<longleftrightarrow> bit v i \<or> i = l + 2 \<or> i = LENGTH('a) - 3"
  "bit (nv_mark_deleted_tree P v) i \<longleftrightarrow> bit v i \<or> i = LENGTH('a) - 3"
  "bit (nv_mark_root P v) i \<longleftrightarrow> bit v i \<or> i = LENGTH('a) - 2"
  "bit (nv_mark_nonroot P v) i \<longleftrightarrow> bit v i \<and> i \<noteq> LENGTH('a) - 2"
  "bit (v OR lock_bit P) i \<longleftrightarrow> bit v i \<or> i = l"
proof -
  have two: "push_bit (l + 1) (of_bool b + 1) = (bitw (if b then l + 2 else l + 1) :: 'a word)"
    by (simp add: bitw_def push_bit_eq_mult)
  have "nv_mark_change P b v = v OR bitw (if b then l + 2 else l + 1)"
    by (simp only: nv_mark_change_def inserting_shift two)
  then show "bit (nv_mark_change P b v) i \<longleftrightarrow> bit v i \<or> i = (if b then l + 2 else l + 1)"
    using layout by (auto simp: bit_or_iff bit_bitw)
qed (use layout in \<open>auto simp: nv_mark_insert_def nv_mark_split_def nv_mark_deleted_def
   nv_mark_deleted_tree_def nv_mark_root_def nv_mark_nonroot_def positions bit_or_iff bit_and_iff
   bit_not_iff bit_bitw dest: bit_imp_le_length\<close>)

lemma has_split_iff: "nv_has_split P v x \<longleftrightarrow> (\<exists>i\<ge>s. bit x i \<noteq> bit v i)"
  using layout by (simp add: nv_has_split_def vsplit_lowbit xor_ge_iff)

lemma has_changed_iff:
  assumes "ver_ok l x" "ver_ok l v"
  shows "nv_has_changed P v x \<longleftrightarrow> (\<exists>i>l. bit x i \<noteq> bit v i)"
proof
  assume c: "nv_has_changed P v x"
  show "\<exists>i>l. bit x i \<noteq> bit v i"
  proof (rule ccontr)
    assume n: "\<not> ?thesis"
    have "x XOR v = 0 \<or> x XOR v = bitw l"
    proof (cases "bit x l = bit v l")
      case True
      have "x = v" by (rule bit_word_eqI)
          (metis assms n True linorder_neqE_nat ver_ok_def)
      then show ?thesis by simp
    next
      case False
      have "bit (x XOR v) i = bit (bitw l :: 'a word) i" for i
        using n False assms layout
        by (cases i l rule: linorder_cases) (auto simp: bit_xor_iff bit_bitw ver_ok_def)
      then have "x XOR v = bitw l" by (rule bit_word_eqI)
      then show ?thesis by simp
    qed
    with c show False by (auto simp: nv_has_changed_def lock_bit)
  qed
next
  assume "\<exists>i>l. bit x i \<noteq> bit v i"
  then have "\<exists>i\<ge>Suc l. bit x i \<noteq> bit v i" by (auto simp: Suc_le_eq)
  then have "bitw (Suc l) \<le> x XOR v" using layout by (simp add: xor_ge_iff)
  moreover have "bitw l < (bitw (Suc l) :: 'a word)"
    using layout by (simp add: word_less_nat_alt unat_bitw)
  ultimately show "nv_has_changed P v x" by (simp add: nv_has_changed_def lock_bit)
qed

text \<open>What \<open>unlock\<close> adds to the counter never reaches the flags: the unused bit below them
  takes the carry and is cleared.\<close>

lemma bit_add_high:
  assumes "j < LENGTH('a) - 4" "\<not> bit v (LENGTH('a) - 4)" "LENGTH('a) - 3 \<le> i"
  shows "bit (v + bitw j :: 'a word) i = bit v i"
proof (cases "i < LENGTH('a)")
  case True
  let ?m = "LENGTH('a) - 3"
  have m: "?m < LENGTH('a)" "?m = Suc (LENGTH('a) - 4)" using layout by auto
  have "unat v div 2 ^ (LENGTH('a) - 4) mod 2 ^ 1 = unat (0 :: 'a word) div 2 ^ (LENGTH('a) - 4) mod 2 ^ 1"
    using assms(2) by (subst unat_div_bits) simp
  then have "unat v mod 2 ^ ?m = unat v mod 2 ^ (LENGTH('a) - 4)"
    unfolding m(2) power_Suc2 by (subst mod_mult2_eq) simp
  then have "unat v mod 2 ^ ?m < 2 ^ (LENGTH('a) - 4)" by simp
  moreover have j: "(2 :: nat) ^ j < 2 ^ (LENGTH('a) - 4)" using assms by simp
  ultimately have "unat v mod 2 ^ ?m + 2 ^ j < 2 ^ ?m" unfolding m(2) power_Suc by linarith
  moreover have E: "unat v + 2 ^ j = 2 ^ ?m * (unat v div 2 ^ ?m) + (unat v mod 2 ^ ?m + 2 ^ j)"
    by (metis add.assoc mult_div_mod_eq)
  moreover have "r < M \<Longrightarrow> (M * q + r) div M = q" for r M q :: nat by simp
  ultimately have d: "(unat v + 2 ^ j) div 2 ^ ?m = unat v div 2 ^ ?m" by metis
  have "LENGTH('a) = ?m + 3" using layout by simp
  then have p: "(2 :: nat) ^ LENGTH('a) = 2 ^ ?m * 2 ^ 3" by (metis power_add)
  have "unat v < 2 ^ LENGTH('a)" by (rule unsigned_less)
  then have "unat v < 2 ^ 3 * 2 ^ ?m" unfolding p by (simp only: mult.commute)
  then have "unat v div 2 ^ ?m < 2 ^ 3" by (rule less_mult_imp_div_less)
  then have "unat v + 2 ^ j < 2 ^ ?m * 2 ^ 3"
    using d by (metis less_mult_imp_div_less div_less_iff_less_mult mult.commute zero_less_numeral zero_less_power)
  then have "unat v + 2 ^ j < 2 ^ LENGTH('a)" unfolding p .
  then have "unat (v + bitw j) = unat v + 2 ^ j"
    using assms layout by (simp add: unat_word_ariths unat_bitw)
  with d have "unat (v + bitw j) div 2 ^ ?m mod 2 ^ 3 = unat v div 2 ^ ?m mod 2 ^ 3" by simp
  then have "\<forall>k<3. bit (v + bitw j) (?m + k) = bit v (?m + k)" by (simp only: unat_div_bits)
  moreover have "i - ?m < 3" "i = ?m + (i - ?m)" using True assms layout by auto
  ultimately show ?thesis by metis
qed (auto dest: bit_imp_le_length)

lemma bit_ver_count: "bit (ver_count l (v :: 'a word)) i \<longleftrightarrow> i < count_width TYPE('a) l \<and> bit v (l + 3 + i)"
proof -
  have "ver_count l v = take_bit (count_width TYPE('a) l) (drop_bit (l + 3) (unat v))"
    by (simp only: ver_count_def drop_bit_eq_div take_bit_eq_mod)
  then show ?thesis by (simp only: bit_take_bit_iff bit_drop_bit_eq bit_unsigned_iff o_def)
      (auto dest: bit_imp_le_length)
qed

lemma ver_count_cong:
  "(\<And>i. l + 3 \<le> i \<Longrightarrow> i < LENGTH('a) - 4 \<Longrightarrow> bit v i = bit w i) \<Longrightarrow> ver_count l (v :: 'a word) = ver_count l (w :: 'a word)"
  by (rule bit_eqI) (auto simp: bit_ver_count count_width_def)

lemma ver_count_add:
  assumes "l + 3 \<le> j" "j < LENGTH('a) - 4"
  shows "ver_count l (v + bitw j :: 'a word) = (ver_count l v + 2 ^ (j - (l + 3))) mod 2 ^ count_width TYPE('a) l"
proof -
  let ?a = "l + 3" and ?K = "count_width TYPE('a) l"
  have n: "LENGTH('a) = ?a + (?K + 4)" using layout by (simp add: count_width_def)
  have m: "x mod 2 ^ LENGTH('a) div 2 ^ ?a mod 2 ^ ?K = x div 2 ^ ?a mod 2 ^ ?K" for x :: nat
  proof -
    have "x mod 2 ^ LENGTH('a) = 2 ^ ?a * (x div 2 ^ ?a mod 2 ^ (?K + 4)) + x mod 2 ^ ?a"
      unfolding n power_add [of 2 ?a] by (rule mod_mult2_eq)
    then have "x mod 2 ^ LENGTH('a) div 2 ^ ?a = x div 2 ^ ?a mod 2 ^ (?K + 4)" by simp
    moreover have "(2 :: nat) ^ ?K dvd 2 ^ (?K + 4)" by (simp add: power_add)
    ultimately show ?thesis by (simp add: mod_mod_cancel)
  qed
  have "(2 :: nat) ^ j = 2 ^ ?a * 2 ^ (j - ?a)" using assms by (simp flip: power_add)
  then have "(unat v + 2 ^ j) div 2 ^ ?a = unat v div 2 ^ ?a + 2 ^ (j - ?a)" by simp
  then show ?thesis
    using assms by (simp add: ver_count_def unat_word_ariths unat_bitw m mod_add_left_eq)
qed

lemma bit_unlock:
  "bit (nv_unlock P x) i \<longleftrightarrow>
   (if bit x (l + 2)
    then bit (x + bitw s) i \<and> s \<le> i \<and> i < LENGTH('a) \<and> i \<noteq> LENGTH('a) - 2 \<and> i \<noteq> LENGTH('a) - 4
    else bit (x + (if bit x (l + 1) then bitw (l + 3) else 0)) i \<and>
      l + 3 \<le> i \<and> i < LENGTH('a) \<and> i \<noteq> LENGTH('a) - 4)"
proof -
  have "push_bit 2 (x AND inserting_bit P) = (if bit x (l + 1) then bitw (l + 3) else 0)"
    by (rule bit_word_eqI)
      (use layout in \<open>auto simp: inserting_bit bit_push_bit_iff bit_and_iff bit_bitw\<close>)
  then show ?thesis
    unfolding nv_unlock_def splitting_bit and_bitw vsplit_lowbit
    by (auto simp: bit_and_iff split_unlock_mask unlock_mask)
qed

lemma unlock_effect:
  assumes "ver_ok l x"
  shows "ver_ok l (nv_unlock P x)" "\<not> nv_locked P (nv_unlock P x)"
    "nv_unlock P x AND dirty_mask P = 0"
    "nv_isleaf P (nv_unlock P x) = nv_isleaf P x" "nv_deleted P (nv_unlock P x) = nv_deleted P x"
    "nv_is_root P (nv_unlock P x) \<longleftrightarrow> nv_is_root P x \<and> \<not> nv_splitting P x"
proof -
  have u: "\<not> bit x (LENGTH('a) - 4)" using assms by (simp add: ver_ok_def)
  have hi: "bit (x + bitw j) i = bit x i" if "j < LENGTH('a) - 4" "LENGTH('a) - 3 \<le> i" for i j
    by (rule bit_add_high [OF that(1) u that(2)])
  have "l + 3 < LENGTH('a) - 4" using layout by simp
  note hi' = hi [OF this] hi [OF layout(2)]
  have d: "\<not> bit (nv_unlock P x) i" if "i < l + 3" for i
    using that layout by (simp add: bit_unlock)
  show "ver_ok l (nv_unlock P x)" using d by (simp add: ver_ok_def bit_unlock)
  show "\<not> nv_locked P (nv_unlock P x)" using d by (simp add: test_simps)
  show "nv_unlock P x AND dirty_mask P = 0" using d dirty_iff [of "nv_unlock P x"] by auto
  show "nv_isleaf P (nv_unlock P x) = nv_isleaf P x" "nv_deleted P (nv_unlock P x) = nv_deleted P x"
    "nv_is_root P (nv_unlock P x) \<longleftrightarrow> nv_is_root P x \<and> \<not> nv_splitting P x"
    using layout by (auto simp: test_simps bit_unlock hi')
qed

lemma unlock_count:
  assumes "ver_count l x = c mod 2 ^ count_width TYPE('a) l"
  shows "ver_count l (nv_unlock P x) = count_advance P x c mod 2 ^ count_width TYPE('a) l"
proof -
  let ?K = "count_width TYPE('a) l" and ?d = "s - (l + 3)"
  have K: "?d \<le> ?K" and s: "s < LENGTH('a)" "l + 3 < LENGTH('a)"
    using layout by (auto simp: count_width_def)
  have D: "unat (vsplit_lowbit P) div unat (vinsert_lowbit P) = 2 ^ ?d"
    using layout s by (simp add: vsplit_lowbit vinsert_lowbit unat_bitw power_diff)
  consider "nv_splitting P x" | "\<not> nv_splitting P x" "nv_inserting P x"
    | "\<not> nv_splitting P x" "\<not> nv_inserting P x" by blast
  then show ?thesis
  proof cases
    case 1
    have "ver_count l (nv_unlock P x) = push_bit ?d (drop_bit ?d (ver_count l (x + bitw s)))"
      by (rule bit_eqI)
        (use 1 layout in \<open>auto simp: test_simps bit_ver_count bit_unlock bit_push_bit_iff
          bit_drop_bit_eq count_width_def add.commute\<close>)
    also have "\<dots> = (c mod 2 ^ ?K + 2 ^ ?d) mod 2 ^ ?K div 2 ^ ?d * 2 ^ ?d"
      using layout assms by (simp add: ver_count_add push_bit_eq_mult drop_bit_eq_div)
    also have "\<dots> = (c + 2 ^ ?d) mod 2 ^ ?K div 2 ^ ?d * 2 ^ ?d" by (simp add: mod_add_left_eq)
    also have "\<dots> = (c div 2 ^ ?d + 1) * 2 ^ ?d mod 2 ^ ?K"
    proof -
      have k: "(2 :: nat) ^ ?K = 2 ^ ?d * 2 ^ (?K - ?d)" using K by (simp flip: power_add)
      have "(c + 2 ^ ?d) mod 2 ^ ?K div 2 ^ ?d = (c + 2 ^ ?d) div 2 ^ ?d mod 2 ^ (?K - ?d)"
        unfolding k by (simp add: mod_mult2_eq)
      also have "(c + 2 ^ ?d) div 2 ^ ?d = c div 2 ^ ?d + 1" by (rule div_add_self2) simp
      finally show ?thesis
        unfolding k mult.commute [of "2 ^ ?d" "2 ^ (?K - ?d)"] by (simp only: mult_mod_left)
    qed
    finally show ?thesis using 1 by (simp add: count_advance_def D Let_def)
  next
    case 2
    have "ver_count l (nv_unlock P x) = ver_count l (x + bitw (l + 3))"
      by (rule ver_count_cong) (use 2 layout in \<open>auto simp: test_simps bit_unlock\<close>)
    then show ?thesis
      using 2 layout assms by (simp add: ver_count_add count_advance_def mod_Suc_eq)
  next
    case 3
    have "ver_count l (nv_unlock P x) = ver_count l x"
      by (rule ver_count_cong) (use 3 layout in \<open>auto simp: test_simps bit_unlock\<close>)
    then show ?thesis using 3 assms by (simp add: count_advance_def)
  qed
qed

lemma advance_ge: "c \<le> count_advance P x c"
  and advance_gr: "x AND dirty_mask P \<noteq> 0 \<Longrightarrow> c < count_advance P x c"
proof -
  let ?d = "s - (l + 3)"
  have s: "s < LENGTH('a)" "l + 3 < LENGTH('a)" using layout by auto
  have D: "unat (vsplit_lowbit P) div unat (vinsert_lowbit P) = 2 ^ ?d"
    using layout s by (simp add: vsplit_lowbit vinsert_lowbit unat_bitw power_diff)
  have "c < (c div 2 ^ ?d + 1) * 2 ^ ?d"
  proof -
    have "c mod 2 ^ ?d < 2 ^ ?d" by simp
    then have "c div 2 ^ ?d * 2 ^ ?d + c mod 2 ^ ?d < c div 2 ^ ?d * 2 ^ ?d + 2 ^ ?d"
      by (rule add_strict_left_mono)
    then show ?thesis unfolding div_mult_mod_eq by simp
  qed
  then show "c \<le> count_advance P x c" "x AND dirty_mask P \<noteq> 0 \<Longrightarrow> c < count_advance P x c"
    by (auto simp: count_advance_def D dirty_iff test_simps Let_def)
qed

lemma mark_effect:
  assumes "w \<in> nv_marks P v" "ver_ok l v"
  shows "ver_ok l w" "nv_locked P w = nv_locked P v" "v AND dirty_mask P \<noteq> 0 \<Longrightarrow> w AND dirty_mask P \<noteq> 0"
    "ver_count l w = ver_count l v"
proof -
  have b: "bit w i = bit v i" if "i < l + 1 \<or> l + 3 \<le> i \<and> i \<le> LENGTH('a) - 4" for i
    using assms(1) that layout by (auto simp: nv_marks_def bit_mark split: if_splits)
  show "ver_ok l w" using assms(2) layout by (simp add: ver_ok_def b)
  show "nv_locked P w = nv_locked P v" by (simp add: test_simps b)
  show "v AND dirty_mask P \<noteq> 0 \<Longrightarrow> w AND dirty_mask P \<noteq> 0"
    using assms(1) layout unfolding dirty_iff
    by (auto simp: nv_marks_def bit_mark split: if_splits)
  show "ver_count l w = ver_count l v" by (rule ver_count_cong) (simp add: b)
qed

lemma vinit_inv: "vinv P l (vinit P leaf)"
proof -
  let ?w = "nv_make P leaf"
  have b: "bit ?w i \<longleftrightarrow> leaf \<and> i = LENGTH('a) - 1" for i
    using layout by (auto simp: nv_make_def isleaf_bit bit_bitw)
  have "ver_ok l ?w" using layout by (auto simp: ver_ok_def b)
  moreover have "\<not> nv_locked P ?w" using layout by (auto simp: test_simps b)
  moreover have "?w AND dirty_mask P = 0" using layout dirty_iff [of ?w] by (auto simp: b)
  moreover have "ver_count l ?w = 0" by (rule bit_eqI) (auto simp: bit_ver_count b count_width_def)
  ultimately show ?thesis by (simp add: vinv_def vinit_def)
qed

lemma unlocked_clean: "vinv P l \<sigma> \<Longrightarrow> \<not> nv_locked P (vs_word \<sigma>) \<Longrightarrow> vs_word \<sigma> AND dirty_mask P = 0"
  using vinvD(6) [of P l \<sigma>] by blast

lemma lock_effect:
  assumes "ver_ok l e"
  shows "ver_ok l (e OR lock_bit P)" "nv_locked P (e OR lock_bit P)"
    "(e OR lock_bit P) AND dirty_mask P = 0 \<longleftrightarrow> e AND dirty_mask P = 0"
    "ver_count l (e OR lock_bit P) = ver_count l e"
proof -
  show "ver_ok l (e OR lock_bit P)" using assms layout by (auto simp: ver_ok_def bit_mark)
  show "nv_locked P (e OR lock_bit P)" by (simp add: test_simps bit_mark)
  show "(e OR lock_bit P) AND dirty_mask P = 0 \<longleftrightarrow> e AND dirty_mask P = 0"
    using dirty_iff [of e] dirty_iff [of "e OR lock_bit P"] by (auto simp: bit_mark)
  show "ver_count l (e OR lock_bit P) = ver_count l e"
    by (rule ver_count_cong) (simp add: bit_mark)
qed

lemma vinv_local:
  assumes "vinv P l \<sigma>" "vs_word \<tau> = vs_word \<sigma>" "vs_count \<tau> = vs_count \<sigma>" "vs_data \<tau> = vs_data \<sigma>"
    and other: "\<And>u. u \<noteq> t \<Longrightarrow> vs_pcs \<tau> u = vs_pcs \<sigma> u \<and> vs_snaps \<tau> u = vs_snaps \<sigma> u"
    and nh: "\<And>y. vs_pcs \<sigma> t \<noteq> Holding y" "\<And>y. vs_pcs \<tau> t \<noteq> Holding y"
    and sn: "\<And>x. vs_pcs \<tau> t = Snap x \<Longrightarrow> snap_ok P l \<sigma> x (vs_snaps \<tau> t)"
  shows "vinv P l \<tau>"
proof -
  have h: "vs_pcs \<tau> u = Holding y \<longleftrightarrow> vs_pcs \<sigma> u = Holding y" for u y
    using nh other [of u] by (cases "u = t") auto
  have "snap_ok P l \<tau> = snap_ok P l \<sigma>" using assms(2-4) by (intro ext) (simp add: snap_ok_def)
  moreover have "snap_ok P l \<sigma> x (vs_snaps \<tau> u)" if "vs_pcs \<tau> u = Snap x" for u x
    using that sn [of x] other [of u] vinvD(8) [OF assms(1), of u x] by (cases "u = t") auto
  ultimately show ?thesis using assms(1-3) unfolding vinv_def h by auto
qed

lemma vstep_inv:
  assumes "vstep P \<sigma> \<tau>" "vinv P l \<sigma>"
  shows "vinv P l \<tau>"
  using assms
proof cases
  case (Stable t x)
  then have "x = vs_word \<sigma>" "x AND dirty_mask P = 0"
    by (auto simp: nv_stable_def split: if_splits)
  with Stable vinvD(1,7) [OF assms(2)] show ?thesis
    by (intro vinv_local [OF assms(2), of _ t]) (auto simp: snap_ok_def)
next
  case (Lock t e w r)
  then have e: "e = vs_word \<sigma>" "\<not> nv_locked P (vs_word \<sigma>)" "w = e OR lock_bit P" "r = w"
    by (auto simp: nv_lock_round_def nv_locked_def split: if_splits)
  have nh: "vs_pcs \<sigma> u \<noteq> Holding y" for u y using e(2) vinvD(3) [OF assms(2)] by blast
  note le = lock_effect [OF vinvD(1) [OF assms(2)]]
  show ?thesis
    using assms(2) unlocked_clean [OF assms(2) e(2)]
    by (auto simp: Lock(1) e(1,3,4) vinv_def snap_ok_def nh le)
next
  case (Mark t x w)
  note m = mark_effect [OF Mark(3) vinvD(1) [OF assms(2)]]
  have h: "u = t" if "vs_pcs \<sigma> u = Holding y" for u y using vinvD(5) [OF assms(2) that Mark(2)] .
  have lk: "nv_locked P (vs_word \<sigma>)" by (rule vinvD(3) [OF assms(2) Mark(2)])
  have sn: "snap_ok P l \<tau> y g" if "snap_ok P l \<sigma> y g" for y g
    using that m(3) by (auto simp: snap_ok_def Mark(1))
  show ?thesis
    using assms(2) m lk h sn unfolding Mark(1) vinv_def by (auto split: if_splits)
next
  case (Write t x)
  have "x AND dirty_mask P \<noteq> 0" using Write(3) by (simp add: dirty_iff test_simps)
  then have "vs_word \<sigma> AND dirty_mask P \<noteq> 0" using vinvD(2) [OF assms(2) Write(2)] by simp
  with assms(2) show ?thesis by (auto simp: Write(1) vinv_def snap_ok_def)
next
  case (Unlock t x)
  have x: "x = vs_word \<sigma>" by (rule vinvD(2) [OF assms(2) Unlock(2)])
  have h: "u = t" if "vs_pcs \<sigma> u = Holding y" for u y using vinvD(5) [OF assms(2) that Unlock(2)] .
  have ok: "ver_ok l x" using vinvD(1) [OF assms(2)] x by simp
  note u = unlock_effect [OF ok] unlock_count [OF vinvD(7) [OF assms(2), folded x]]
  have sn: "snap_ok P l \<tau> y g" if s: "snap_ok P l \<sigma> y g" for y g
  proof (cases "x AND dirty_mask P = 0")
    case True
    then have "count_advance P x (vs_count \<sigma>) = vs_count \<sigma>"
      using dirty_iff [of x] by (auto simp: count_advance_def test_simps)
    with s True show ?thesis by (auto simp: snap_ok_def Unlock(1) x)
  next
    case False
    have "fst g < count_advance P x (vs_count \<sigma>)"
      using s advance_gr [OF False, of "vs_count \<sigma>"] by (auto simp: snap_ok_def)
    with s show ?thesis by (auto simp: snap_ok_def Unlock(1))
  qed
  show ?thesis
    using assms(2) u h sn unfolding Unlock(1) vinv_def by (auto split: if_splits)
next
  case (Lock_retry t e w e')
  then show ?thesis
    by (intro vinv_local [OF assms(2), of _ t]) (auto simp: nv_lock_round_def split: if_splits)
next
  case (Try_lock_fail t e w)
  then show ?thesis
    by (intro vinv_local [OF assms(2), of _ t]) (auto simp: nv_try_lock_def split: if_splits)
qed (auto intro!: vinv_local [OF assms(2)])

lemma reachable_inv: "(vstep P)\<^sup>*\<^sup>* (vinit P leaf) \<sigma> \<Longrightarrow> vinv P l \<sigma>"
  by (induction rule: rtranclp_induct) (auto intro: vinit_inv vstep_inv)

lemma mutual_exclusion:
  "(vstep P)\<^sup>*\<^sup>* (vinit P leaf) \<sigma> \<Longrightarrow> vs_pcs \<sigma> t = Holding x \<Longrightarrow> vs_pcs \<sigma> u = Holding y \<Longrightarrow>
   t = u \<and> x = vs_word \<sigma>"
  using vinvD(2,5) [OF reachable_inv] by blast

lemma unchanged_snapshot:
  assumes "(vstep P)\<^sup>*\<^sup>* (vinit P leaf) \<sigma>" "vs_pcs \<sigma> t = Snap x"
    "\<not> nv_has_changed P (vs_word \<sigma>) x"
    "vs_count \<sigma> - fst (vs_snaps \<sigma> t) < 2 ^ count_width TYPE('a) l"
  shows "vs_data \<sigma> = snd (vs_snaps \<sigma> t)"
proof -
  note inv = reachable_inv [OF assms(1)]
  have s: "snap_ok P l \<sigma> x (vs_snaps \<sigma> t)" by (rule vinvD(8) [OF inv assms(2)])
  then have ok: "ver_ok l x" by (simp add: snap_ok_def)
  have b: "bit x i = bit (vs_word \<sigma>) i" if "l < i" for i
    using assms(3) that has_changed_iff [OF ok vinvD(1) [OF inv]] by blast
  have "ver_count l x = ver_count l (vs_word \<sigma>)" by (rule ver_count_cong) (simp add: b)
  then have "fst (vs_snaps \<sigma> t) mod 2 ^ count_width TYPE('a) l = vs_count \<sigma> mod 2 ^ count_width TYPE('a) l"
    using s vinvD(7) [OF inv] by (simp add: snap_ok_def)
  moreover have "fst (vs_snaps \<sigma> t) \<le> vs_count \<sigma>" using s by (simp add: snap_ok_def)
  ultimately have "2 ^ count_width TYPE('a) l dvd vs_count \<sigma> - fst (vs_snaps \<sigma> t)"
    by (metis mod_eq_dvd_iff_nat)
  then have "vs_count \<sigma> - fst (vs_snaps \<sigma> t) = 0" using assms(4) by (meson nat_dvd_not_less not_gr0)
  moreover have "vs_word \<sigma> AND dirty_mask P = 0"
    using s b dirty_iff [of x] dirty_iff [of "vs_word \<sigma>"] by (simp add: snap_ok_def)
  ultimately show ?thesis
    using s \<open>fst (vs_snaps \<sigma> t) \<le> vs_count \<sigma>\<close> by (auto simp: snap_ok_def)
qed

end

section \<open>Both parameter sets\<close>

lemma mask_minus: "bitw k - 1 = (mask k :: 'a::len word)"
  by (simp add: bitw_def mask_eq_exp_minus_1)

interpretation nv32: version_layout nodeversion_parameters32 0 9
proof
  fix i
  show "bit (split_unlock_mask nodeversion_parameters32) i \<longleftrightarrow>
      9 \<le> i \<and> i < LENGTH(32) \<and> i \<noteq> LENGTH(32) - 2 \<and> i \<noteq> LENGTH(32) - 4"
    unfolding nodeversion_parameters32_def nodeversion_parameters.simps bitw_def [symmetric] mask_minus
    by (auto simp: bit_not_iff bit_or_iff bit_and_iff bit_bitw bit_mask_iff dest: bit_imp_le_length)
  show "bit (unlock_mask nodeversion_parameters32) i \<longleftrightarrow>
      0 + 3 \<le> i \<and> i < LENGTH(32) \<and> i \<noteq> LENGTH(32) - 4"
    unfolding nodeversion_parameters32_def nodeversion_parameters.simps bitw_def [symmetric] mask_minus
    by (auto simp: bit_not_iff bit_or_iff bit_and_iff bit_bitw bit_mask_iff dest: bit_imp_le_length)
qed (simp_all add: nodeversion_parameters32_def bitw_def)

interpretation nv64: version_layout nodeversion_parameters64 8 27
proof
  fix i
  show "bit (split_unlock_mask nodeversion_parameters64) i \<longleftrightarrow>
      27 \<le> i \<and> i < LENGTH(64) \<and> i \<noteq> LENGTH(64) - 2 \<and> i \<noteq> LENGTH(64) - 4"
    unfolding nodeversion_parameters64_def nodeversion_parameters.simps bitw_def [symmetric] mask_minus
    by (auto simp: bit_not_iff bit_or_iff bit_and_iff bit_bitw bit_mask_iff dest: bit_imp_le_length)
  show "bit (unlock_mask nodeversion_parameters64) i \<longleftrightarrow>
      8 + 3 \<le> i \<and> i < LENGTH(64) \<and> i \<noteq> LENGTH(64) - 4"
    unfolding nodeversion_parameters64_def nodeversion_parameters.simps bitw_def [symmetric] mask_minus
    by (auto simp: bit_not_iff bit_or_iff bit_and_iff bit_bitw bit_mask_iff dest: bit_imp_le_length)
qed (simp_all add: nodeversion_parameters64_def bitw_def)

section \<open>Properties\<close>

text \<open>C24: the lock of a node excludes. However many threads run \<open>stable\<close>, \<open>lock\<close>, \<open>try_lock\<close>,
  the \<open>mark_\<close> operations and \<open>unlock\<close> on one version word, at most one of them is between
  \<open>lock\<close> and \<open>unlock\<close>, and its own copy of the version is the word in memory (which is
  the invariant that \<open>lock\<close> and \<open>unlock\<close> check with \<open>masstree_invariant\<close>).\<close>

theorem lock_mutual_exclusion:
  assumes "(vstep nodeversion_parameters32)\<^sup>*\<^sup>* (vinit nodeversion_parameters32 leaf) \<sigma>"
    and "vs_pcs \<sigma> t = Holding x" "vs_pcs \<sigma> u = Holding y"
  shows "t = u \<and> x = vs_word \<sigma>"
  using nv32.mutual_exclusion [OF assms] .

definition locked_example :: "u32 vstate" where
  "locked_example = (vinit nodeversion_parameters32 True)
     \<lparr>vs_word := 0x80000001, vs_pcs := (\<lambda>t. if t = 0 then Holding 0x80000001 else Idle)\<rparr>"

lemma locked_example_reachable:
  "(vstep nodeversion_parameters32)\<^sup>*\<^sup>* (vinit nodeversion_parameters32 True) locked_example"
proof -
  let ?P = nodeversion_parameters32
  let ?\<sigma> = "vinit ?P True"
  let ?\<tau> = "?\<sigma>\<lparr>vs_pcs := (vs_pcs ?\<sigma>)(0 := Locking (vs_word ?\<sigma>))\<rparr>"
  have "vstep ?P ?\<sigma> ?\<tau>" by (rule vstep.Expect) (simp add: vinit_def)
  moreover have "vstep ?P ?\<tau> (?\<tau>\<lparr>vs_word := 0x80000001,
      vs_pcs := (vs_pcs ?\<tau>)(0 := Holding 0x80000001)\<rparr>)"
    by (rule vstep.Lock [of _ _ "0x80000000"])
      (simp_all add: vinit_def nv_make_def nv_lock_round_def nodeversion_parameters32_def)
  moreover have "?\<tau>\<lparr>vs_word := 0x80000001, vs_pcs := (vs_pcs ?\<tau>)(0 := Holding 0x80000001)\<rparr> =
      locked_example"
    by (auto simp: locked_example_def vinit_def fun_upd_def)
  ultimately show ?thesis by (metis rtranclp.rtrancl_into_rtrancl r_into_rtranclp)
qed

theorem lock_mutual_exclusion_witness:
  "vs_pcs locked_example 0 = Holding (vs_word locked_example)"
proof -
  have "vs_pcs locked_example 0 = Holding 0x80000001" by (simp add: locked_example_def)
  with lock_mutual_exclusion [OF locked_example_reachable this this] show ?thesis by simp
qed

text \<open>C25: an unchanged version is an unchanged node. If a reader took a stable snapshot \<open>x\<close>
  and later \<open>has_changed(x)\<close> is false, then nothing was written under a dirty bit in
  between and nobody is writing now, provided the counter has advanced by less than
  its 25-bit period since.\<close>

theorem has_changed_detects:
  assumes "(vstep nodeversion_parameters32)\<^sup>*\<^sup>* (vinit nodeversion_parameters32 leaf) \<sigma>"
    and "vs_pcs \<sigma> t = Snap x" "\<not> nv_has_changed nodeversion_parameters32 (vs_word \<sigma>) x"
    and "vs_count \<sigma> - fst (vs_snaps \<sigma> t) < 2 ^ 25"
  shows "vs_data \<sigma> = snd (vs_snaps \<sigma> t)"
  using nv32.unchanged_snapshot [OF assms(1-3)] assms(4) by (simp add: count_width_def)

definition snap_example :: "u32 vstate" where
  "snap_example = (vinit nodeversion_parameters32 True)
     \<lparr>vs_pcs := (\<lambda>t. if t = 1 then Snap 0x80000000 else Idle)\<rparr>"

theorem has_changed_detects_witness: "vs_data snap_example = snd (vs_snaps snap_example 1)"
proof (rule has_changed_detects)
  let ?P = nodeversion_parameters32
  have "vstep ?P (vinit ?P True) ((vinit ?P True)\<lparr>
      vs_pcs := (vs_pcs (vinit ?P True))(1 := Snap 0x80000000),
      vs_snaps := (vs_snaps (vinit ?P True))(1 := (vs_count (vinit ?P True), vs_data (vinit ?P True)))\<rparr>)"
    by (rule vstep.Stable)
      (simp_all add: vinit_def nv_make_def nv_stable_def nodeversion_parameters32_def)
  moreover have "(vinit ?P True)\<lparr>vs_pcs := (vs_pcs (vinit ?P True))(1 := Snap 0x80000000),
      vs_snaps := (vs_snaps (vinit ?P True))(1 := (vs_count (vinit ?P True), vs_data (vinit ?P True)))\<rparr>
      = snap_example"
    by (auto simp: snap_example_def vinit_def fun_upd_def)
  ultimately show "(vstep ?P)\<^sup>*\<^sup>* (vinit ?P True) snap_example" by (metis r_into_rtranclp)
  show "vs_pcs snap_example 1 = Snap 0x80000000" by (simp add: snap_example_def)
  show "\<not> nv_has_changed ?P (vs_word snap_example) 0x80000000"
    by (simp add: snap_example_def vinit_def nv_make_def nv_has_changed_def nodeversion_parameters32_def)
  show "vs_count snap_example - fst (vs_snaps snap_example 1) < 2 ^ 25"
    by (simp add: snap_example_def vinit_def)
qed



end
