(* ===== verification/Compiler_Ops.thy ===== *)
theory Compiler_Ops
  imports Prelude
begin

text \<open>
  The helpers of \<open>compiler.hh\<close> the rest of the code computes with: three-way
  comparison, rounding up to a multiple and to a power of two, bit counting, the
  search for a zero nibble, and the conversions between host byte order (little
  endian, as on the x86 machines the code targets) and network byte order. Memory
  is a list of bytes: \<open>store_le\<close> is the memory image of an integer and \<open>load_le\<close>
  the integer read back from it.
\<close>

section \<open>The operations of the code\<close>

definition compare :: "'a::linorder \<Rightarrow> 'a \<Rightarrow> int" where
  "compare a b = (if a = b then 0 else if a < b then -1 else 1)"

definition iceil :: "u64 \<Rightarrow> u64 \<Rightarrow> u64" where
  "iceil x y = (let m = x mod y in x + (if m \<noteq> 0 then y - m else 0))"

text \<open>The compiler's bit counting builtins, called on nonzero arguments only.\<close>

definition clz :: "'a::len word \<Rightarrow> nat" where
  "clz x = length (takeWhile Not (rev (map (bit x) [0..<LENGTH('a)])))"

definition ctz :: "'a::len word \<Rightarrow> nat" where
  "ctz x = length (takeWhile Not (map (bit x) [0..<LENGTH('a)]))"

definition iceil_log2 :: "u64 \<Rightarrow> u64" where
  "iceil_log2 x = push_bit (64 - clz x - (if x AND (x - 1) = 0 then 1 else 0)) 1"

definition ifloor_log2 :: "u64 \<Rightarrow> u64" where
  "ifloor_log2 x = push_bit (64 - 1 - clz x) 1"

definition find_lowest_zero_nibble :: "u64 \<Rightarrow> int" where
  "find_lowest_zero_nibble x =
     (let t = 0x8888888888888888 AND (x - 0x1111111111111111) AND NOT x
      in if t \<noteq> 0 then int (ctz t div 4) else -1)"

text \<open>Memory images.\<close>

fun le_val :: "bytes \<Rightarrow> nat" where
  "le_val [] = 0"
| "le_val (b # bs) = unat b + 256 * le_val bs"

definition load_le :: "bytes \<Rightarrow> 'a::len word" where
  "load_le bs = of_nat (le_val bs)"

definition store_le :: "nat \<Rightarrow> 'a::len word \<Rightarrow> bytes" where
  "store_le n w = map (\<lambda>i. ucast (drop_bit (8 * i) w)) [0..<n]"

text \<open>\<open>ntohq\<close> swaps the eight bytes; the 32- and 16-bit conversions swap four and two.\<close>

definition byte_swap :: "nat \<Rightarrow> 'a::len word \<Rightarrow> 'a word" where
  "byte_swap n w = load_le (rev (store_le n w))"

definition ntohq :: "u64 \<Rightarrow> u64" where
  "ntohq v = byte_swap 8 v"

definition htonq :: "u64 \<Rightarrow> u64" where
  "htonq v = ntohq v"

definition host_to_net_order :: "'a::len word \<Rightarrow> 'a word" where
  "host_to_net_order x = byte_swap (LENGTH('a) div 8) x"

definition net_to_host_order :: "'a::len word \<Rightarrow> 'a word" where
  "net_to_host_order x = byte_swap (LENGTH('a) div 8) x"

text \<open>Writing appends to what was written; reading returns the value and the rest.\<close>

definition write_in_host_order :: "bytes \<Rightarrow> 'a::len word \<Rightarrow> bytes" where
  "write_in_host_order s x = s @ store_le (LENGTH('a) div 8) x"

definition read_in_host_order :: "bytes \<Rightarrow> 'a::len word" where
  "read_in_host_order s = load_le (take (LENGTH('a) div 8) s)"

definition write_in_net_order :: "bytes \<Rightarrow> 'a::len word \<Rightarrow> bytes" where
  "write_in_net_order s x = write_in_host_order s (host_to_net_order x)"

definition read_in_net_order :: "bytes \<Rightarrow> 'a::len word" where
  "read_in_net_order s = net_to_host_order (read_in_host_order s)"

section \<open>Comparison\<close>

lemma compare_simps [simp]:
  "compare a b = 0 \<longleftrightarrow> a = b" "compare a b < 0 \<longleftrightarrow> a < b" "0 < compare a b \<longleftrightarrow> b < a"
  "compare a b \<le> 0 \<longleftrightarrow> a \<le> b" "0 \<le> compare a b \<longleftrightarrow> b \<le> a"
  by (auto simp: compare_def)

lemma compare_swap: "compare b a = - compare a b"
  by (auto simp: compare_def)

section \<open>Memory images\<close>

lemma le_val_append: "le_val (xs @ ys) = le_val xs + 256 ^ length xs * le_val ys"
  by (induction xs) (auto simp: algebra_simps)

lemma unat_byte: "unat (b :: byte) < 256"
  by (rule order_less_le_trans [OF unsigned_less]) simp

lemma le_val_bound: "le_val bs < 256 ^ length bs"
proof (induction bs)
  case (Cons b bs)
  have "unat b + 256 * le_val bs < 256 + 256 * le_val bs" using unat_byte [of b] by simp
  also have "\<dots> \<le> 256 * 256 ^ length bs"
    using Cons by (metis Suc_leI mult_Suc_right mult_le_mono2)
  finally show ?case by simp
qed simp

lemma le_val_digit: "i < length bs \<Longrightarrow> le_val bs div 256 ^ i mod 256 = unat (bs ! i)"
proof (induction bs arbitrary: i)
  case (Cons b bs)
  show ?case
  proof (cases i)
    case 0
    then show ?thesis using unat_byte [of b] by simp
  next
    case (Suc j)
    have "(unat b + 256 * le_val bs) div 256 = le_val bs" using unat_byte [of b] by simp
    then have "(unat b + 256 * le_val bs) div 256 ^ Suc j = le_val bs div 256 ^ j"
      by (simp add: div_mult2_eq)
    with Suc Cons show ?thesis by simp
  qed
qed simp

lemma le_val_inj: "length as = length bs \<Longrightarrow> le_val as = le_val bs \<Longrightarrow> as = bs"
  by (intro nth_equalityI) (metis le_val_digit word_unat_eq_iff)+

lemma length_store_le [simp]: "length (store_le n w) = n"
  by (simp add: store_le_def)

lemma pow_256: "(256 :: nat) ^ n = 2 ^ (8 * n)"
  by (simp add: power_mult)

lemma unat_store_le: "i < n \<Longrightarrow> unat (store_le n w ! i) = unat w div 256 ^ i mod 256"
  by (simp add: store_le_def unsigned_ucast_eq unat_drop_bit_eq take_bit_eq_mod pow_256 flip: drop_bit_eq_div)

lemma unat_load_le:
  assumes "8 * length bs \<le> LENGTH('a)"
  shows "unat (load_le bs :: 'a::len word) = le_val bs"
proof -
  have "le_val bs < 2 ^ (8 * length bs)" using le_val_bound [of bs] by (simp add: pow_256)
  also have "\<dots> \<le> 2 ^ LENGTH('a)" using assms by (intro power_increasing) auto
  finally show ?thesis by (simp add: load_le_def unat_of_nat)
qed

lemma store_load:
  assumes "8 * length bs \<le> LENGTH('a)" "n = length bs"
  shows "store_le n (load_le bs :: 'a::len word) = bs"
proof (rule nth_equalityI)
  fix i assume "i < length (store_le n (load_le bs :: 'a word))"
  with assms have "unat (store_le n (load_le bs :: 'a word) ! i) = unat (bs ! i)"
    by (simp add: unat_store_le unat_load_le le_val_digit)
  then show "store_le n (load_le bs :: 'a word) ! i = bs ! i" by (simp add: word_unat_eq_iff)
qed (use assms in simp)

lemma le_val_store: "le_val (store_le n w) = unat w mod 256 ^ n"
proof (induction n)
  case (Suc n)
  have "store_le (Suc n) w = store_le n w @ [ucast (drop_bit (8 * n) w)]"
    by (simp add: store_le_def)
  moreover have "unat (ucast (drop_bit (8 * n) w) :: byte) = unat w div 256 ^ n mod 256"
    using unat_store_le [of n "Suc n" w] by (simp add: store_le_def nth_append)
  ultimately have "le_val (store_le (Suc n) w) =
      unat w mod 256 ^ n + 256 ^ n * (unat w div 256 ^ n mod 256)"
    using Suc by (simp add: le_val_append)
  also have "\<dots> = unat w mod (256 ^ n * 256)" by (simp add: mod_mult2_eq)
  finally show ?case by (simp add: mult.commute)
qed (simp add: store_le_def)

lemma load_store:
  fixes w :: "'a::len word"
  assumes "LENGTH('a) = 8 * n"
  shows "load_le (store_le n w) = w"
proof -
  have "unat w < 256 ^ n" using assms by (simp add: pow_256 flip: assms)
  then have "unat (load_le (store_le n w) :: 'a word) = unat w"
    using assms by (simp add: unat_load_le le_val_store)
  then show ?thesis by (simp add: word_unat_eq_iff)
qed

lemma byte_swap_swap:
  fixes w :: "'a::len word"
  assumes "LENGTH('a) = 8 * n"
  shows "byte_swap n (byte_swap n w) = w"
  using assms by (simp add: byte_swap_def store_load load_store)

lemma net_order_inverse:
  fixes x :: "'a::len word"
  assumes "LENGTH('a) = 8 * n"
  shows "net_to_host_order (host_to_net_order x) = x"
    and "host_to_net_order (net_to_host_order x) = x"
  using assms by (simp_all add: net_to_host_order_def host_to_net_order_def byte_swap_swap)

text \<open>What is written in network order is the big-endian digit string.\<close>

lemma write_in_net_order_bytes:
  fixes x :: "'a::len word"
  assumes "LENGTH('a) = 8 * n"
  shows "write_in_net_order s x = s @ rev (store_le n x)"
  using assms
  by (simp add: write_in_net_order_def write_in_host_order_def host_to_net_order_def
      byte_swap_def store_load)

lemma read_in_net_order_bytes:
  assumes "LENGTH('a) = 8 * n" "n \<le> length s"
  shows "(read_in_net_order s :: 'a::len word) = load_le (rev (take n s))"
  using assms
  by (simp add: read_in_net_order_def read_in_host_order_def net_to_host_order_def
      byte_swap_def store_load)

section \<open>Lexicographic order of bytes is the order of big-endian integers\<close>

text \<open>\<open>memcmp\<close> over two byte strings of one length, as a sign.\<close>

fun memcmp :: "bytes \<Rightarrow> bytes \<Rightarrow> int" where
  "memcmp (a # as) (b # bs) = (if a = b then memcmp as bs else if a < b then -1 else 1)"
| "memcmp _ _ = 0"

lemma memcmp_range: "memcmp as bs \<in> {-1, 0, 1}"
  by (induction as bs rule: memcmp.induct) auto

lemma memcmp_eq: "length as = length bs \<Longrightarrow> memcmp as bs = 0 \<longleftrightarrow> as = bs"
  by (induction as bs rule: memcmp.induct) auto

lemma memcmp_be_val:
  "length as = length bs \<Longrightarrow> memcmp as bs = compare (le_val (rev as)) (le_val (rev bs))"
proof (induction as bs rule: memcmp.induct)
  case (1 a as b bs)
  let ?n = "length bs"
  have l: "length as = ?n" using 1 by simp
  have va: "le_val (rev (a # as)) = le_val (rev as) + 256 ^ ?n * unat a"
    and vb: "le_val (rev (b # bs)) = le_val (rev bs) + 256 ^ ?n * unat b"
    using l by (simp_all add: le_val_append)
  have ba: "le_val (rev as) < 256 ^ ?n" and bb: "le_val (rev bs) < 256 ^ ?n"
    using le_val_bound [of "rev as"] le_val_bound [of "rev bs"] l by simp_all
  have lt: "u + 256 ^ ?n * x < v + 256 ^ ?n * y" if "x < y" "u < 256 ^ ?n" for x y u v :: nat
  proof -
    have "u + 256 ^ ?n * x < 256 ^ ?n * Suc x" using that by simp
    also have "\<dots> \<le> 256 ^ ?n * y" using that by (intro mult_le_mono2) simp
    finally show ?thesis by simp
  qed
  consider "a = b" | "a < b" | "b < a" by (metis linorder_neqE)
  then show ?case
  proof cases
    case 1
    with "1.IH" l va vb show ?thesis by (simp add: compare_def)
  next
    case 2
    then have "unat a < unat b" by (simp add: word_less_nat_alt)
    from lt [OF this ba, of "le_val (rev bs)"] 2 va vb show ?thesis by (auto simp: compare_def)
  next
    case 3
    then have "unat b < unat a" by (simp add: word_less_nat_alt)
    from lt [OF this bb, of "le_val (rev as)"] 3 va vb show ?thesis by (auto simp: compare_def)
  qed
qed (auto simp: compare_def)

section \<open>Rounding\<close>

lemma clz_bounds:
  fixes x :: "'a::len word"
  assumes "x \<noteq> 0"
  shows "clz x < LENGTH('a)" and "2 ^ (LENGTH('a) - 1 - clz x) \<le> unat x"
    and "unat x < 2 ^ (LENGTH('a) - clz x)"
proof -
  let ?n = "LENGTH('a)"
  let ?l = "rev (map (bit x) [0..<?n])"
  have nth: "?l ! i = bit x (?n - 1 - i)" if "i < ?n" for i using that by (simp add: rev_nth)
  obtain k where k: "bit x k" "k < ?n"
    using assms bit_imp_le_length [of x] by (auto simp: bit_eq_iff [of x 0])
  then have "\<exists>b \<in> set ?l. b" by auto
  then have "takeWhile Not ?l \<noteq> ?l" by (auto simp: takeWhile_eq_all_conv)
  then have c: "clz x < length ?l"
    unfolding clz_def
    by (metis length_takeWhile_le le_neq_implies_less take_all_iff takeWhile_eq_take order_refl)
  then show c': "clz x < ?n" by simp
  have "?l ! clz x" using c nth_length_takeWhile [of Not ?l] by (simp add: clz_def)
  then have b: "bit x (?n - 1 - clz x)" using nth [OF c'] by simp
  then have "odd (unat x div 2 ^ (?n - 1 - clz x))"
    by (metis bit_iff_odd bit_unsigned_iff possible_bit_nat)
  then have "unat x div 2 ^ (?n - 1 - clz x) \<noteq> 0" by (intro notI) simp
  then show "2 ^ (?n - 1 - clz x) \<le> unat x" by (simp add: div_eq_0_iff not_less)
  have nb: "\<not> bit x m" if m: "?n - clz x \<le> m" for m
  proof (cases "m < ?n")
    case True
    let ?i = "?n - 1 - m"
    have i: "?i < clz x" using m True by linarith
    then have "takeWhile Not ?l ! ?i = ?l ! ?i" "takeWhile Not ?l ! ?i \<in> set (takeWhile Not ?l)"
      unfolding clz_def by (rule takeWhile_nth, rule nth_mem)
    then have "\<not> ?l ! ?i" using set_takeWhileD by metis
    then show ?thesis using True nth [of ?i] by simp
  qed (auto dest: bit_imp_le_length)
  have "take_bit (?n - clz x) x = x"
  proof (rule bit_word_eqI)
    fix m
    show "bit (take_bit (?n - clz x) x) m = bit x m"
      using nb [of m] by (cases "m < ?n - clz x") (simp_all add: bit_take_bit_iff)
  qed
  then have "take_bit (?n - clz x) (unat x) = unat x" by (metis unsigned_take_bit_eq)
  then show "unat x < 2 ^ (?n - clz x)" by (simp add: take_bit_nat_eq_self_iff)
qed

lemma power_two_iff:
  assumes "2 ^ k \<le> n" "n < 2 ^ Suc k" "0 < k"
  shows "n AND (n - 1) = 0 \<longleftrightarrow> n = (2 :: nat) ^ k"
proof
  assume a: "n AND (n - 1) = 0"
  show "n = 2 ^ k"
  proof (rule ccontr)
    assume "n \<noteq> 2 ^ k"
    with assms have n: "2 ^ k \<le> n - 1" "n - 1 < 2 ^ Suc k" by linarith+
    have "bit m k" if "2 ^ k \<le> m" "m < 2 ^ Suc k" for m :: nat
    proof -
      have "m div 2 ^ k = 1" using that by (intro div_nat_eqI) auto
      then show ?thesis by (simp add: bit_iff_odd)
    qed
    with n assms have "bit (n AND (n - 1)) k" by (simp add: bit_and_iff)
    with a show False by simp
  qed
next
  assume n: "n = 2 ^ k"
  have "n - 1 = mask k" by (simp add: n mask_eq_exp_minus_1)
  then have "n AND (n - 1) = take_bit k n" by (simp add: take_bit_eq_mask)
  then show "n AND (n - 1) = 0" by (simp add: n take_bit_eq_mod)
qed

lemma unat_push_one: "k < 64 \<Longrightarrow> unat (2 ^ k :: u64) = 2 ^ k"
proof -
  assume "k < 64"
  then have "(2 :: nat) ^ k < 2 ^ 64" by (intro power_strict_increasing) auto
  moreover have "(2 ^ k :: u64) = of_nat (2 ^ k)" by simp
  ultimately show ?thesis by (simp only: unat_of_nat) simp
qed

lemma iceil_log2_exp:
  assumes "x \<noteq> 0" "unat x \<le> 2 ^ 63"
  obtains k where "k < 64" "unat (iceil_log2 x) = 2 ^ k" "unat x \<le> 2 ^ k"
    "k = 0 \<or> 2 ^ (k - 1) < unat x"
proof -
  define c where "c = 63 - clz x"
  have b: "clz x < 64" "2 ^ c \<le> unat x" "unat x < 2 ^ (64 - clz x)"
    using clz_bounds [OF assms(1)] by (simp_all add: c_def)
  have s: "64 - clz x = Suc c" using b by (simp add: c_def)
  have u: "unat x < 2 ^ Suc c" using b s by simp
  have "(2 :: nat) ^ c \<le> 2 ^ 63" using b assms by linarith
  then have c63: "c \<le> 63" by (simp add: c_def)
  show thesis
  proof (cases "x AND (x - 1) = 0")
    case True
    have "unat (x AND (x - 1)) = unat x AND unat (x - 1)" by (rule unsigned_and_eq)
    moreover have "unat (x - 1) = unat x - 1"
      using assms by (metis One_nat_def unat_minus_one)
    ultimately have z: "unat x AND (unat x - 1) = 0" using True by simp
    have "unat x = 2 ^ c"
    proof (cases "c = 0")
      case True
      with b u show ?thesis by simp
    qed (use power_two_iff [OF b(2) u] z in simp)
    moreover have "unat (iceil_log2 x) = 2 ^ c"
      using True s c63 by (simp add: iceil_log2_def unat_push_one)
    moreover have "c = 0 \<or> (2 :: nat) ^ (c - 1) < 2 ^ c" by auto
    ultimately show thesis using that [of c] c63 by simp
  next
    case False
    have ne: "unat x \<noteq> 2 ^ c"
    proof
      assume e: "unat x = 2 ^ c"
      have "unat x AND (unat x - 1) = 0"
      proof (cases "c = 0")
        case True
        with e show ?thesis by simp
      qed (use power_two_iff [OF b(2) u] e in simp)
      moreover have "unat (x - 1) = unat x - 1"
        using assms by (metis One_nat_def unat_minus_one)
      ultimately have "unat (x AND (x - 1)) = 0" by (simp add: unsigned_and_eq)
      with False show False by (simp add: unat_eq_0)
    qed
    have "c \<noteq> 63" using ne b(2) assms by (intro notI) simp
    then have "unat (iceil_log2 x) = 2 ^ Suc c"
      using False s c63 by (simp add: iceil_log2_def unat_push_one del: power_Suc)
    then show thesis using that [of "Suc c"] u b ne c63 \<open>c \<noteq> 63\<close> by simp
  qed
qed

lemma iceil_multiple:
  assumes "unat x + unat y < 2 ^ 64" "y \<noteq> 0"
  shows "unat (iceil x y) = (unat x + unat y - 1) div unat y * unat y"
proof -
  let ?x = "unat x" and ?y = "unat y"
  have y: "0 < ?y" using assms(2) by (simp add: unat_gt_0)
  have m: "unat (x mod y) = ?x mod ?y" by (rule unat_mod)
  have my: "?x mod ?y < ?y" using y by simp
  show ?thesis
  proof (cases "?x mod ?y = 0")
    case True
    then have "x mod y = 0" using m by (simp add: word_unat_eq_iff)
    moreover have "(?x + ?y - 1) div ?y * ?y = ?x"
    proof -
      have "?x = ?x div ?y * ?y" using True by auto
      moreover have "(?x div ?y * ?y + (?y - 1)) div ?y = ?x div ?y"
      proof -
        have "(?x div ?y * ?y + (?y - 1)) div ?y = ?x div ?y + (?y - 1) div ?y"
          by (rule div_mult_self3) (use y in simp)
        moreover have "(?y - 1) div ?y = 0" using y by simp
        ultimately show ?thesis by simp
      qed
      ultimately show ?thesis using y by (metis Nat.add_diff_assoc One_nat_def Suc_leI)
    qed
    ultimately show ?thesis by (simp add: iceil_def Let_def)
  next
    case False
    then have nz: "x mod y \<noteq> 0" using m by (metis unat_0)
    have d: "unat (y - x mod y) = ?y - ?x mod ?y"
      using my m by (simp add: unat_sub word_le_nat_alt)
    have s: "?x + (?y - ?x mod ?y) = (?x div ?y + 1) * ?y"
    proof -
      have "?x = ?x div ?y * ?y + ?x mod ?y" by simp
      then show ?thesis using my by (metis add.assoc add_diff_inverse_nat add_mult_distrib mult_1 not_less_iff_gr_or_eq)
    qed
    have "unat (x + (y - x mod y)) = ?x + (?y - ?x mod ?y)"
      using assms(1) d my by (simp add: unat_word_ariths)
    moreover have "(?x + ?y - 1) div ?y = ?x div ?y + 1"
    proof -
      have "?x + ?y - 1 = (?x mod ?y - 1) + (?x div ?y + 1) * ?y"
        using False y by (simp add: add.commute [of _ "?x mod ?y - 1"])
      moreover have "((?x mod ?y - 1) + (?x div ?y + 1) * ?y) div ?y = (?x div ?y + 1) + (?x mod ?y - 1) div ?y"
        by (rule div_mult_self1) (use y in simp)
      moreover have "(?x mod ?y - 1) div ?y = 0" using my by simp
      ultimately show ?thesis by (simp only: add_0_right)
    qed
    ultimately show ?thesis using nz s by (simp add: iceil_def Let_def)
  qed
qed

section \<open>Properties\<close>

text \<open>C37: \<open>iceil_log2\<close> returns the smallest power of two at or above its argument, for
  every nonzero argument up to \<open>2 ^ 63\<close>.\<close>

theorem iceil_log2_correct:
  assumes "x \<noteq> 0" "unat x \<le> 2 ^ 63"
  shows "\<exists>k. unat (iceil_log2 x) = 2 ^ k \<and> unat x \<le> 2 ^ k \<and> (\<forall>m. unat x \<le> 2 ^ m \<longrightarrow> k \<le> m)"
proof -
  obtain k where k: "unat (iceil_log2 x) = 2 ^ k" "unat x \<le> 2 ^ k" "k = 0 \<or> 2 ^ (k - 1) < unat x"
    using iceil_log2_exp [OF assms] by metis
  have "k \<le> m" if "unat x \<le> 2 ^ m" for m
  proof (cases "k = 0")
    case False
    with k that have "(2 :: nat) ^ (k - 1) < 2 ^ m" by linarith
    then have "k - 1 < m" by simp
    then show ?thesis by simp
  qed simp
  with k show ?thesis by blast
qed

theorem iceil_log2_correct_witness: "\<exists>k. unat (iceil_log2 37) = 2 ^ k \<and> 37 \<le> (2 :: nat) ^ k"
  using iceil_log2_correct [of 37] by auto

text \<open>C36: network byte order carries the order of byte strings into the order of integers:
  of two strings of the width of the integer, the one that \<open>memcmp\<close> puts first reads as
  the smaller integer. This is why a tree may compare keys as integers.\<close>

theorem net_order_preserves_memcmp:
  assumes "length as = 8" "length bs = 8"
  shows "compare (read_in_net_order as :: u64) (read_in_net_order bs) = memcmp as bs"
proof -
  have "unat (read_in_net_order xs :: u64) = le_val (rev xs)" if "length xs = 8" for xs
    using that by (simp add: read_in_net_order_bytes [of 8] unat_load_le)
  then show ?thesis
    using assms
    by (simp add: memcmp_be_val compare_def word_less_nat_alt word_unat_eq_iff)
qed

theorem net_order_preserves_memcmp_witness:
  "compare (read_in_net_order [1, 2, 3, 4, 5, 6, 7, 8] :: u64)
     (read_in_net_order [1, 2, 3, 4, 5, 6, 8, 7]) = -1"
  using net_order_preserves_memcmp [of "[1, 2, 3, 4, 5, 6, 7, 8]" "[1, 2, 3, 4, 5, 6, 8, 7]"]
  by simp

end
