(* ===== verification/String_Slice.thy ===== *)
theory String_Slice
  imports Compiler_Ops
begin

text \<open>
  Integer slices of strings (\<open>string_slice.hh\<close>) for the 64-bit slice type the tree uses.
  Memory is a list of bytes and a pointer an offset into it, so that the operations that
  read around a string (\<open>make_sloppy\<close>, \<open>equals_sloppy\<close>) read the bytes the code reads.
  The lemmas show that the sloppy operations agree with the exact ones and that slices
  carry the lexicographic order of strings, slice by slice.
\<close>

section \<open>The operations\<close>

definition slice_size :: nat where
  "slice_size = 8"

text \<open>\<open>n\<close> bytes of memory from \<open>s\<close> on.\<close>

definition mem_read :: "bytes \<Rightarrow> nat \<Rightarrow> nat \<Rightarrow> bytes" where
  "mem_read m s n = take n (drop s m)"

definition make :: "bytes \<Rightarrow> nat \<Rightarrow> int \<Rightarrow> u64" where
  "make m s len =
     (if len \<le> 0 then 0
      else if len \<ge> int slice_size then load_le (mem_read m s slice_size)
      else (let u = replicate slice_size 0; n = nat (min len (int slice_size))
            in load_le (mem_read m s n @ drop n u)))"

definition make_comparable :: "bytes \<Rightarrow> nat \<Rightarrow> int \<Rightarrow> u64" where
  "make_comparable m s len = net_to_host_order (make m s len)"

definition make_sloppy :: "bytes \<Rightarrow> nat \<Rightarrow> int \<Rightarrow> u64" where
  "make_sloppy m s len =
     (if len \<le> 0 then 0
      else if len \<ge> int slice_size then load_le (mem_read m s slice_size)
      else (let d = slice_size - nat len in drop_bit (8 * d) (load_le (mem_read m (s - d) slice_size))))"

definition make_comparable_sloppy :: "bytes \<Rightarrow> nat \<Rightarrow> int \<Rightarrow> u64" where
  "make_comparable_sloppy m s len = net_to_host_order (make_sloppy m s len)"

text \<open>The two \<open>unparse_comparable\<close>: what they write into the buffer, whose length is the
  number they return.\<close>

fun trim_zeros :: "bytes \<Rightarrow> nat \<Rightarrow> nat" where
  "trim_zeros u 0 = 0"
| "trim_zeros u (Suc l) = (if u ! l = 0 then trim_zeros u l else Suc l)"

definition unparse_comparable :: "nat \<Rightarrow> u64 \<Rightarrow> bytes" where
  "unparse_comparable buflen value =
     (let u = store_le slice_size (host_to_net_order value); l = trim_zeros u slice_size
      in take (min l buflen) u)"

definition unparse_comparable_len :: "nat \<Rightarrow> u64 \<Rightarrow> nat \<Rightarrow> bytes" where
  "unparse_comparable_len buflen value len =
     take (min (min len slice_size) buflen) (store_le slice_size (host_to_net_order value))"

definition equals_sloppy :: "bytes \<Rightarrow> nat \<Rightarrow> bytes \<Rightarrow> nat \<Rightarrow> int \<Rightarrow> bool" where
  "equals_sloppy ma a mb b len =
     (if len \<le> int slice_size then
        (let delta = load_le (mem_read ma a slice_size) XOR (load_le (mem_read mb b slice_size) :: u64)
         in if len \<le> 0 then True else push_bit (8 * (slice_size - nat len)) delta = 0)
      else memcmp (mem_read ma a (nat len)) (mem_read mb b (nat len)) = 0)"

section \<open>Slices of byte strings\<close>

text \<open>\<open>pad n xs\<close> is the first \<open>n\<close> bytes of a string, filled with zeros; \<open>ikey_of\<close> the slice
  that the tree compares.\<close>

definition pad :: "nat \<Rightarrow> bytes \<Rightarrow> bytes" where
  "pad n xs = take n (xs @ replicate n 0)"

definition ikey_of :: "bytes \<Rightarrow> u64" where
  "ikey_of xs = load_le (rev (pad 8 xs))"

lemma length_pad [simp]: "length (pad n xs) = n"
  by (simp add: pad_def)

lemma pad_simps [simp]:
  "pad 0 xs = []" "pad (Suc n) [] = 0 # pad n []" "pad (Suc n) (x # xs) = x # pad n xs"
  by (simp_all add: pad_def flip: replicate_append_same)

lemma take_pad: "m \<le> n \<Longrightarrow> take m (pad n xs) = pad m xs"
  by (simp add: pad_def min_def take_append)

lemma pad_long: "n \<le> length xs \<Longrightarrow> pad n xs = take n xs"
  by (simp add: pad_def)

lemma pad_short: "length xs \<le> n \<Longrightarrow> pad n xs = xs @ replicate (n - length xs) 0"
  by (simp add: pad_def min_def)

lemma unat_ikey_of: "unat (ikey_of xs) = le_val (rev (pad 8 xs))"
  by (simp add: ikey_of_def unat_load_le)

lemma ikey_of_eq_iff: "ikey_of xs = ikey_of ys \<longleftrightarrow> pad 8 xs = pad 8 ys"
proof
  assume "ikey_of xs = ikey_of ys"
  then have "le_val (rev (pad 8 xs)) = le_val (rev (pad 8 ys))" by (metis unat_ikey_of)
  then have "rev (pad 8 xs) = rev (pad 8 ys)" by (intro le_val_inj) simp_all
  then show "pad 8 xs = pad 8 ys" by simp
qed (simp add: ikey_of_def)

lemma compare_ikey_of: "compare (ikey_of xs) (ikey_of ys) = memcmp (pad 8 xs) (pad 8 ys)"
  by (simp add: memcmp_be_val compare_def word_less_nat_alt word_unat_eq_iff unat_ikey_of)

lemma net_load: "length bs = 8 \<Longrightarrow> net_to_host_order (load_le bs :: u64) = load_le (rev bs)"
  by (simp add: net_to_host_order_def byte_swap_def store_load)

lemma make_comparable_ikey:
  assumes "s + nat len \<le> length m"
  shows "make_comparable m s len = ikey_of (mem_read m s (nat len))"
proof -
  let ?n = "nat len"
  consider "len \<le> 0" | "0 < len" "len < 8" | "8 \<le> len" by linarith
  then show ?thesis
  proof cases
    case 1
    then have "make_comparable m s len = net_to_host_order (load_le (replicate 8 0))"
      by (simp add: make_comparable_def make_def load_le_def numeral_eq_Suc)
    also have "\<dots> = load_le (replicate 8 0)" by (simp only: net_load length_replicate rev_replicate)
    finally show ?thesis using 1 by (simp add: ikey_of_def pad_def mem_read_def)
  next
    case 2
    then have "make_comparable m s len = load_le (rev (mem_read m s ?n @ drop ?n (replicate 8 0)))"
      using assms
      by (subst net_load [symmetric])
        (auto simp: make_comparable_def make_def slice_size_def Let_def mem_read_def min_def)
    moreover have "mem_read m s ?n @ drop ?n (replicate 8 0) = pad 8 (mem_read m s ?n)"
      using 2 assms by (subst pad_short) (auto simp: mem_read_def)
    ultimately show ?thesis by (simp only: ikey_of_def)
  next
    case 3
    then have "make_comparable m s len = load_le (rev (mem_read m s 8))"
      using assms
      by (subst net_load [symmetric])
        (auto simp: make_comparable_def make_def slice_size_def mem_read_def)
    moreover have "pad 8 (mem_read m s ?n) = mem_read m s 8"
      using 3 assms by (subst pad_long) (auto simp: mem_read_def min_def)
    ultimately show ?thesis by (simp only: ikey_of_def)
  qed
qed

section \<open>The sloppy operations\<close>

lemma le_val_drop: "le_val xs div 256 ^ d = le_val (drop d xs)"
proof (induction d arbitrary: xs)
  case (Suc d)
  show ?case
  proof (cases xs)
    case (Cons x ys)
    have "le_val xs div 256 ^ Suc d = (unat x + 256 * le_val ys) div 256 div 256 ^ d"
      using Cons by (simp add: div_mult2_eq)
    also have "(unat x + 256 * le_val ys) div 256 = le_val ys" using unat_byte [of x] by simp
    finally show ?thesis using Suc Cons by simp
  qed simp
qed simp

lemma le_val_take: "le_val xs mod 256 ^ d = le_val (take d xs)"
proof (cases "d \<le> length xs")
  case True
  have "le_val xs = le_val (take d xs) + 256 ^ d * le_val (drop d xs)"
    using le_val_append [of "take d xs" "drop d xs"] True by (simp add: min_def)
  moreover have "le_val (take d xs) < 256 ^ d" using le_val_bound [of "take d xs"] True by (simp add: min_absorb2)
  ultimately show ?thesis by simp
next
  case False
  have "le_val xs < 256 ^ length xs" by (rule le_val_bound)
  also have "(256 :: nat) ^ length xs \<le> 256 ^ d" using False by (intro power_increasing) auto
  finally show ?thesis using False by simp
qed

lemma le_val_zeros [simp]: "le_val (replicate n 0) = 0"
  by (induction n) auto

lemma make_sloppy_eq:
  assumes "8 - nat len \<le> s" "s + nat len \<le> length m"
  shows "make_sloppy m s len = make m s len"
proof -
  let ?n = "nat len"
  consider "len \<le> 0" | "0 < len" "len < 8" | "8 \<le> len" by linarith
  then show ?thesis
  proof cases
    case 2
    let ?d = "8 - ?n"
    let ?X = "mem_read m (s - ?d) 8"
    have l: "length ?X = 8" using 2 assms by (auto simp: mem_read_def)
    have X: "drop ?d ?X = mem_read m s ?n"
      using 2 assms by (auto simp: mem_read_def drop_take)
    have "unat (drop_bit (8 * ?d) (load_le ?X :: u64)) = le_val ?X div 256 ^ ?d"
      using l by (simp only: unat_drop_bit_eq) (simp add: unat_load_le pow_256 drop_bit_eq_div)
    also have "\<dots> = le_val (mem_read m s ?n @ drop ?n (replicate 8 0))"
      by (simp add: le_val_drop X le_val_append)
    also have "\<dots> = unat (load_le (mem_read m s ?n @ drop ?n (replicate 8 0)) :: u64)"
      using 2 assms by (intro unat_load_le [symmetric]) (auto simp: mem_read_def)
    finally show ?thesis
      using 2 by (simp add: make_sloppy_def make_def slice_size_def Let_def word_unat_eq_iff)
  qed (simp_all add: make_sloppy_def make_def slice_size_def)
qed

lemma push_bit_eq_0: "push_bit k (x :: u64) = 0 \<longleftrightarrow> take_bit (64 - k) x = 0"
proof
  assume a: "push_bit k x = 0"
  have "\<not> bit x n" if "n < 64 - k" for n
  proof -
    have "\<not> bit (push_bit k x) (n + k)" using a by simp
    then show ?thesis using that by (simp add: bit_push_bit_iff)
  qed
  then show "take_bit (64 - k) x = 0" by (intro bit_word_eqI) (auto simp: bit_take_bit_iff)
next
  assume a: "take_bit (64 - k) x = 0"
  have "\<not> bit x n" if "n < 64 - k" for n
  proof -
    have "\<not> bit (take_bit (64 - k) x) n" using a by simp
    then show ?thesis using that by (simp add: bit_take_bit_iff)
  qed
  then show "push_bit k x = 0" by (intro bit_word_eqI) (auto simp: bit_push_bit_iff)
qed

lemma take_bit_xor_0: "take_bit n (x XOR y) = 0 \<longleftrightarrow> take_bit n x = take_bit n (y :: u64)"
proof
  assume "take_bit n (x XOR y) = 0"
  then have z: "\<not> bit (take_bit n (x XOR y)) i" for i by simp
  show "take_bit n x = take_bit n y"
    by (rule bit_word_eqI) (use z in \<open>auto simp: bit_take_bit_iff bit_xor_iff\<close>)
qed (simp add: take_bit_xor)

lemma equals_sloppy_eq:
  assumes "a + nat len \<le> length ma" "b + nat len \<le> length mb"
  shows "equals_sloppy ma a mb b len \<longleftrightarrow> mem_read ma a (nat len) = mem_read mb b (nat len)"
proof -
  let ?n = "nat len"
  consider "len \<le> 0" | "0 < len" "len \<le> 8" | "8 < len" by linarith
  then show ?thesis
  proof cases
    case 1
    then show ?thesis by (simp add: equals_sloppy_def slice_size_def mem_read_def Let_def)
  next
    case 2
    let ?A = "mem_read ma a 8" and ?B = "mem_read mb b 8"
    let ?x = "load_le ?A :: u64" and ?y = "load_le ?B :: u64"
    have l: "length ?A \<le> 8" "length ?B \<le> 8" by (auto simp: mem_read_def)
    have t: "take ?n ?A = mem_read ma a ?n" "take ?n ?B = mem_read mb b ?n"
      using 2 by (auto simp: mem_read_def min_def)
    have "push_bit (8 * (8 - ?n)) (?x XOR ?y) = 0 \<longleftrightarrow> take_bit (8 * ?n) ?x = take_bit (8 * ?n) ?y"
    proof -
      have "64 - 8 * (8 - ?n) = 8 * ?n" using 2 by linarith
      then have "push_bit (8 * (8 - ?n)) (?x XOR ?y) = 0 \<longleftrightarrow> take_bit (8 * ?n) (?x XOR ?y) = 0"
        by (simp only: push_bit_eq_0)
      also have "\<dots> \<longleftrightarrow> take_bit (8 * ?n) ?x = take_bit (8 * ?n) ?y"
        by (rule take_bit_xor_0)
      finally show ?thesis .
    qed
    also have "\<dots> \<longleftrightarrow> le_val ?A mod 256 ^ ?n = le_val ?B mod 256 ^ ?n"
    proof -
      have "unat (take_bit (8 * ?n) (load_le z :: u64)) = le_val z mod 256 ^ ?n" if "length z \<le> 8" for z
        using that by (simp only: unsigned_take_bit_eq) (simp add: unat_load_le take_bit_eq_mod pow_256)
      then show ?thesis using l by (simp add: word_unat_eq_iff)
    qed
    also have "\<dots> \<longleftrightarrow> mem_read ma a ?n = mem_read mb b ?n"
      unfolding le_val_take t using 2 assms le_val_inj [of "mem_read ma a ?n" "mem_read mb b ?n"]
      by (auto simp: mem_read_def)
    finally show ?thesis using 2 by (simp add: equals_sloppy_def slice_size_def Let_def)
  next
    case 3
    then show ?thesis
      using assms memcmp_eq [of "mem_read ma a ?n" "mem_read mb b ?n"]
      by (simp add: equals_sloppy_def slice_size_def mem_read_def)
  qed
qed

section \<open>Reading a slice back\<close>

lemma store_ikey: "store_le 8 (host_to_net_order (ikey_of xs)) = pad 8 xs"
proof -
  have "host_to_net_order (ikey_of xs) = net_to_host_order (load_le (rev (pad 8 xs)))"
    by (simp add: host_to_net_order_def net_to_host_order_def ikey_of_def)
  also have "\<dots> = load_le (pad 8 xs)" by (subst net_load) simp_all
  finally show ?thesis by (simp add: store_load)
qed

lemma trim_zeros_le: "trim_zeros u n \<le> n"
  by (induction n) auto

lemma trim_zeros_tail: "trim_zeros u n \<le> i \<Longrightarrow> i < n \<Longrightarrow> u ! i = 0"
  by (induction n) (auto simp: less_Suc_eq split: if_splits)

lemma trim_zeros_last: "0 < trim_zeros u n \<Longrightarrow> u ! (trim_zeros u n - 1) \<noteq> 0"
  by (induction n) auto

lemma unparse_comparable_len_ikey:
  "unparse_comparable_len buflen (ikey_of xs) len = take (min (min len 8) buflen) (pad 8 xs)"
  by (simp add: unparse_comparable_len_def slice_size_def store_ikey)

text \<open>The documented contract of \<open>unparse_comparable\<close>: the string without its trailing
  null characters.\<close>

definition strip_zeros :: "bytes \<Rightarrow> bytes" where
  "strip_zeros xs = rev (dropWhile (\<lambda>b. b = 0) (rev xs))"

lemma dropWhile_zeros: "dropWhile (\<lambda>b. b = 0) (replicate n (0 :: byte) @ xs) = dropWhile (\<lambda>b. b = 0) xs"
  by (induction n) auto

lemma trim_zeros_strip: "n \<le> length u \<Longrightarrow> take (trim_zeros u n) u = strip_zeros (take n u)"
  by (induction n) (auto simp: take_Suc_conv_app_nth strip_zeros_def)

lemma unparse_comparable_ikey:
  "length xs \<le> 8 \<Longrightarrow> unparse_comparable buflen (ikey_of xs) = take buflen (strip_zeros xs)"
proof -
  assume "length xs \<le> 8"
  then have "strip_zeros (pad 8 xs) = strip_zeros xs"
    by (simp add: strip_zeros_def pad_short dropWhile_zeros)
  moreover have "take (trim_zeros (pad 8 xs) 8) (pad 8 xs) = strip_zeros (pad 8 xs)"
    using trim_zeros_strip [of 8 "pad 8 xs"] by simp
  ultimately show ?thesis
    by (metis (no_types, lifting) unparse_comparable_def slice_size_def store_ikey take_take min.commute)
qed

section \<open>The order of strings\<close>

text \<open>Comparing slices decides the lexicographic order of strings whose slices differ;
  strings with equal slices are ordered by length unless both go on.\<close>

lemma memcmp_pad_less: "memcmp (pad n xs) (pad n ys) < 0 \<Longrightarrow> ord_class.lexordp xs ys"
proof (induction n arbitrary: xs ys)
  case (Suc n)
  show ?case
  proof (cases ys)
    case Nil
    have "\<not> memcmp (pad n xs) (pad n []) < 0" for xs :: bytes
    proof (induction n arbitrary: xs)
      case (Suc m)
      then show ?case by (cases xs) (auto split: if_splits)
    qed simp
    with Nil Suc.prems show ?thesis by (cases xs) (auto split: if_splits)
  next
    case (Cons y ys')
    show ?thesis
    proof (cases xs)
      case (Cons x xs')
      with Suc \<open>ys = y # ys'\<close> show ?thesis by (auto split: if_splits)
    qed (use \<open>ys = y # ys'\<close> in simp)
  qed
qed simp

lemma pad_eq_order:
  assumes "pad n xs = pad n ys"
  shows "ord_class.lexordp xs ys \<longleftrightarrow>
    (if n < length xs \<and> n < length ys then ord_class.lexordp (drop n xs) (drop n ys)
     else length xs < length ys)"
  using assms
proof (induction n arbitrary: xs ys)
  case 0
  then show ?case by (cases xs; cases ys) auto
next
  case (Suc n)
  show ?case
  proof (cases xs)
    case Nil
    then show ?thesis by (cases ys) auto
  next
    case (Cons x xs')
    with Suc show ?thesis by (cases ys) auto
  qed
qed

lemma slice_order:
  "ord_class.lexordp xs ys \<longleftrightarrow>
   (if ikey_of xs = ikey_of ys then
      (if 8 < length xs \<and> 8 < length ys then ord_class.lexordp (drop 8 xs) (drop 8 ys)
       else length xs < length ys)
    else ikey_of xs < ikey_of ys)"
proof (cases "ikey_of xs = ikey_of ys")
  case True
  then show ?thesis using pad_eq_order [of 8 xs ys] by (simp add: ikey_of_eq_iff)
next
  case False
  have "ikey_of u < ikey_of v \<Longrightarrow> ord_class.lexordp u v" for u v
    using memcmp_pad_less [of 8 u v] by (simp flip: compare_ikey_of)
  with False show ?thesis
    by (metis lexordp_antisym linorder_neqE)
qed

lemma make_comparable_string: "make_comparable xs 0 (int (length xs)) = ikey_of xs"
  by (simp add: make_comparable_ikey mem_read_def)

section \<open>Properties\<close>


text \<open>C28: the sloppy reads, which may look at up to seven bytes around a string, return
  what the exact operations return whenever those bytes are readable.\<close>

theorem sloppy_reads_exact:
  assumes "8 - nat len \<le> s" "s + nat len \<le> length m" "a + nat len \<le> length ma"
  shows "make_comparable_sloppy m s len = make_comparable m s len \<and>
    (equals_sloppy ma a m s len \<longleftrightarrow> mem_read ma a (nat len) = mem_read m s (nat len))"
  using assms by (simp add: make_comparable_sloppy_def make_comparable_def make_sloppy_eq equals_sloppy_eq)

theorem sloppy_reads_exact_witness:
  "make_comparable_sloppy (map word_of_nat [0..<20]) 5 3 = make_comparable (map word_of_nat [0..<20]) 5 3"
  using sloppy_reads_exact [of 3 5 "map word_of_nat [0..<20]" 0 "map word_of_nat [0..<20]"] by simp

text \<open>C29: \<open>unparse_comparable\<close> undoes \<open>make_comparable\<close>: given the length it writes the
  first bytes of the string, and without it the string less its trailing zeros.\<close>

theorem unparse_comparable_roundtrip:
  assumes "length xs \<le> 8" "length xs \<le> buflen"
  shows "unparse_comparable_len buflen (make_comparable xs 0 (int (length xs))) (length xs) = xs \<and>
    unparse_comparable buflen (make_comparable xs 0 (int (length xs))) = strip_zeros xs"
proof -
  have "length (strip_zeros xs) \<le> length xs"
    using length_dropWhile_le [of _ "rev xs"] by (simp add: strip_zeros_def)
  with assms show ?thesis
    unfolding make_comparable_string unparse_comparable_len_ikey unparse_comparable_ikey [OF assms(1)]
    by (simp add: pad_short)
qed

theorem unparse_comparable_roundtrip_witness:
  "unparse_comparable_len 16 (make_comparable [7, 0, 9, 0] 0 4) 4 = [7, 0, 9, 0] \<and>
   unparse_comparable 16 (make_comparable [7, 0, 9, 0] 0 4) = [7, 0, 9]"
proof -
  have l: "length [7, 0, 9, 0 :: byte] = 4" by simp
  show ?thesis
    using unparse_comparable_roundtrip [of "[7, 0, 9, 0]" 16, unfolded l]
    by (simp add: strip_zeros_def)
qed

end
