(* ===== verification/MT_Key.thy ===== *)
theory MT_Key
  imports String_Slice
begin

text \<open>
  Keys of the tree (\<open>masstree_key.hh\<close>): a position in a byte string with the current
  eight-byte slice loaded. A key is a cursor over memory that is shifted to descend a
  layer and shifted back; scans also write the key they have reached into its memory.
  The lemmas show that a cursor stands for the rest of its string, that comparing keys
  by slice and length is the lexicographic order up to the rest of the string, and that
  comparison is comparison of one number, the rank.
\<close>

section \<open>The operations\<close>

definition ikey_size :: int where
  "ikey_size = 8"

text \<open>\<open>k_mem\<close> is the memory the key points into, \<open>k_s\<close> and \<open>k_first\<close> are pointers (offsets).\<close>

record key =
  k_ikey0 :: u64
  k_len :: int
  k_mem :: bytes
  k_s :: nat
  k_first :: nat

definition key_make :: "bytes \<Rightarrow> nat \<Rightarrow> int \<Rightarrow> key" where
  "key_make m s len = \<lparr>k_ikey0 = make_comparable m s len, k_len = len, k_mem = m, k_s = s, k_first = s\<rparr>"

definition key_of_ikey :: "u64 \<Rightarrow> key" where
  "key_of_ikey ikey = \<lparr>k_ikey0 = ikey, k_len = (if ikey \<noteq> 0 then ikey_size - int (ctz ikey div 8) else 0),
     k_mem = [], k_s = 0, k_first = 0\<rparr>"

definition key_of_ikey_len :: "u64 \<Rightarrow> int \<Rightarrow> key" where
  "key_of_ikey_len ikey len = \<lparr>k_ikey0 = ikey, k_len = min len ikey_size, k_mem = [], k_s = 0, k_first = 0\<rparr>"

text \<open>A suffix at \<open>off\<close> in memory \<open>m\<close>: the key points eight bytes before it.\<close>

definition key_of_suffix :: "u64 \<Rightarrow> bytes \<Rightarrow> nat \<Rightarrow> int \<Rightarrow> key" where
  "key_of_suffix ikey m off len = \<lparr>k_ikey0 = ikey, k_len = ikey_size + len, k_mem = m,
     k_s = off - nat ikey_size, k_first = off - nat ikey_size\<rparr>"

definition key_empty :: "key \<Rightarrow> bool" where
  "key_empty k \<longleftrightarrow> k_ikey0 k = 0 \<and> k_len k = 0"

definition key_has_suffix :: "key \<Rightarrow> bool" where
  "key_has_suffix k \<longleftrightarrow> k_len k > ikey_size"

definition key_suffix :: "key \<Rightarrow> bytes" where
  "key_suffix k = mem_read (k_mem k) (k_s k + nat ikey_size) (nat (k_len k - ikey_size))"

definition key_suffix_length :: "key \<Rightarrow> int" where
  "key_suffix_length k = k_len k - ikey_size"

definition key_shift :: "key \<Rightarrow> key" where
  "key_shift k = (let s = k_s k + nat ikey_size; len = k_len k - ikey_size in
     k\<lparr>k_s := s, k_len := len, k_ikey0 := make_comparable_sloppy (k_mem k) s len\<rparr>)"

definition key_shift_by :: "key \<Rightarrow> nat \<Rightarrow> key" where
  "key_shift_by k delta = (let s = k_s k + delta; len = k_len k - int delta in
     k\<lparr>k_s := s, k_len := len, k_ikey0 := make_comparable_sloppy (k_mem k) s len\<rparr>)"

definition key_is_shifted :: "key \<Rightarrow> bool" where
  "key_is_shifted k \<longleftrightarrow> k_first k \<noteq> k_s k"

definition key_unshift_all :: "key \<Rightarrow> key" where
  "key_unshift_all k =
     (if k_s k \<noteq> k_first k then
        (let len = k_len k + (int (k_s k) - int (k_first k)); s = k_first k in
         k\<lparr>k_len := len, k_s := s, k_ikey0 := make_comparable (k_mem k) s len\<rparr>)
      else k)"

definition key_compare :: "key \<Rightarrow> u64 \<Rightarrow> int \<Rightarrow> int" where
  "key_compare k ikey keylenx =
     (let cmp = compare (k_ikey0 k) ikey in
      if cmp = 0 then
        (let al = k_len k in if al > ikey_size then of_bool (keylenx \<le> ikey_size) else al - keylenx)
      else cmp)"

definition key_compare_key :: "key \<Rightarrow> key \<Rightarrow> int" where
  "key_compare_key k x = key_compare k (k_ikey0 x) (k_len x)"

text \<open>The bytes \<open>unparse\<close> writes into a buffer of \<open>datalen\<close> bytes.\<close>

definition key_unparse :: "key \<Rightarrow> int \<Rightarrow> bytes" where
  "key_unparse k datalen =
     (let cplen = min (k_len k) datalen in
      unparse_comparable_len (nat cplen) (k_ikey0 k) (nat ikey_size) @
      (if cplen > ikey_size
       then mem_read (k_mem k) (k_s k + nat ikey_size) (nat (cplen - ikey_size)) else []))"

definition key_prefix_string :: "key \<Rightarrow> bytes" where
  "key_prefix_string k = mem_read (k_mem k) (k_first k) (k_s k - k_first k)"

definition key_prefix_length :: "key \<Rightarrow> nat" where
  "key_prefix_length k = k_s k - k_first k"

definition key_full_string :: "key \<Rightarrow> bytes" where
  "key_full_string k = mem_read (k_mem k) (k_first k) (k_s k - k_first k + nat (k_len k))"

text \<open>The second component tells whether the slice wrapped.\<close>

definition key_increment :: "key \<Rightarrow> key \<times> bool" where
  "key_increment k =
     (if key_has_suffix k then
        (let i = k_ikey0 k + 1 in (k\<lparr>k_ikey0 := i, k_len := 1\<rparr>, i = 0))
      else (k\<lparr>k_len := k_len k + 1\<rparr>, False))"

text \<open>\<open>mem_write m s bs\<close> is memory after a copy of \<open>bs\<close> to \<open>s\<close>.\<close>

definition mem_write :: "bytes \<Rightarrow> nat \<Rightarrow> bytes \<Rightarrow> bytes" where
  "mem_write m s bs = take s m @ bs @ drop (s + length bs) m"

definition key_assign_store_ikey :: "key \<Rightarrow> u64 \<Rightarrow> key" where
  "key_assign_store_ikey k ikey =
     k\<lparr>k_ikey0 := ikey, k_mem := mem_write (k_mem k) (k_s k) (store_le 8 (host_to_net_order ikey))\<rparr>"

definition key_assign_store_suffix :: "key \<Rightarrow> bytes \<Rightarrow> key \<times> int" where
  "key_assign_store_suffix k s =
     (k\<lparr>k_mem := mem_write (k_mem k) (k_s k + nat ikey_size) s\<rparr>, ikey_size + int (length s))"

definition key_assign_store_length :: "key \<Rightarrow> int \<Rightarrow> key" where
  "key_assign_store_length k len = k\<lparr>k_len := len\<rparr>"

definition key_unshift :: "key \<Rightarrow> key" where
  "key_unshift k = (let s = k_s k - nat ikey_size in
     k\<lparr>k_s := s, k_ikey0 := make_comparable_sloppy (k_mem k) s ikey_size, k_len := ikey_size + 1\<rparr>)"

definition key_shift_clear :: "key \<Rightarrow> key" where
  "key_shift_clear k = k\<lparr>k_ikey0 := 0, k_len := 0, k_s := k_s k + nat ikey_size\<rparr>"

definition key_shift_clear_reverse :: "key \<Rightarrow> key" where
  "key_shift_clear_reverse k =
     k\<lparr>k_ikey0 := NOT 0, k_len := ikey_size + 1, k_s := k_s k + nat ikey_size\<rparr>"

section \<open>A key stands for the rest of its string\<close>

definition key_str :: "key \<Rightarrow> bytes" where
  "key_str k = mem_read (k_mem k) (k_s k) (nat (k_len k))"

definition key_wf :: "key \<Rightarrow> bool" where
  "key_wf k \<longleftrightarrow> 0 \<le> k_len k \<and> k_first k \<le> k_s k \<and> k_s k + nat (k_len k) \<le> length (k_mem k) \<and>
     k_ikey0 k = ikey_of (key_str k)"

lemma length_mem_read [simp]: "length (mem_read m s n) = min n (length m - s)"
  by (simp add: mem_read_def)

lemma drop_mem_read: "drop d (mem_read m s n) = mem_read m (s + d) (n - d)"
  by (simp add: mem_read_def drop_take add.commute)

lemma take_mem_read: "take d (mem_read m s n) = mem_read m s (min d n)"
  by (simp add: mem_read_def min.commute)

lemma mem_read_append: "mem_read m s n @ mem_read m (s + n) n' = mem_read m s (n + n')"
  by (simp add: mem_read_def take_add add.commute)

lemma mem_read_0 [simp]: "mem_read m s 0 = []"
  by (simp add: mem_read_def)

lemma mem_read_all [simp]: "mem_read m 0 (length m) = m"
  by (simp add: mem_read_def)

lemma length_key_str: "key_wf k \<Longrightarrow> int (length (key_str k)) = k_len k"
  by (auto simp: key_wf_def key_str_def)

lemma key_make_wf:
  assumes "0 \<le> len" "s + nat len \<le> length m"
  shows "key_wf (key_make m s len)" "key_str (key_make m s len) = mem_read m s (nat len)"
  using assms by (simp_all add: key_wf_def key_make_def key_str_def make_comparable_ikey)

lemma nat_minus_8: "nat (x - 8) = nat x - 8"
  by linarith

lemma key_suffix_str: "key_suffix k = drop 8 (key_str k)"
  by (simp add: key_suffix_def key_str_def ikey_size_def drop_mem_read nat_minus_8)

lemma key_shift_wf:
  assumes "key_wf k" "key_has_suffix k"
  shows "key_wf (key_shift k)" "key_str (key_shift k) = drop 8 (key_str k)"
    "key_full_string (key_shift k) = key_full_string k"
    "key_prefix_string (key_shift k) = key_prefix_string k @ take 8 (key_str k)"
proof -
  let ?k = "key_shift k"
  have b: "8 < k_len k" "k_s k + nat (k_len k) \<le> length (k_mem k)" "k_first k \<le> k_s k"
    using assms by (auto simp: key_wf_def key_has_suffix_def ikey_size_def)
  have f: "k_s ?k = k_s k + 8" "k_len ?k = k_len k - 8" "k_mem ?k = k_mem k" "k_first ?k = k_first k"
    by (simp_all add: key_shift_def ikey_size_def Let_def)
  have i: "k_ikey0 ?k = make_comparable (k_mem k) (k_s k + 8) (k_len k - 8)"
    using b by (simp add: key_shift_def ikey_size_def make_comparable_sloppy_def make_comparable_def
        make_sloppy_eq Let_def)
  show s: "key_str ?k = drop 8 (key_str k)"
    by (simp add: key_str_def f drop_mem_read nat_minus_8)
  have m: "k_s k + 8 + nat (k_len k - 8) \<le> length (k_mem k)" using b by linarith
  have "k_ikey0 ?k = ikey_of (key_str ?k)"
    using m by (simp only: i make_comparable_ikey key_str_def f)
  with b m show "key_wf ?k" by (simp add: key_wf_def f)
  have "k_s ?k - k_first ?k + nat (k_len ?k) = k_s k - k_first k + nat (k_len k)"
    using b unfolding f by linarith
  then show "key_full_string ?k = key_full_string k" by (simp add: key_full_string_def f)
  have "min 8 (nat (k_len k)) = 8" using b by linarith
  then have "take 8 (key_str k) = mem_read (k_mem k) (k_s k) 8"
    by (simp only: key_str_def take_mem_read)
  moreover have "k_s k = k_first k + (k_s k - k_first k)" using b by simp
  moreover have "k_s ?k - k_first ?k = (k_s k - k_first k) + 8" using b unfolding f by linarith
  ultimately show "key_prefix_string ?k = key_prefix_string k @ take 8 (key_str k)"
    unfolding key_prefix_string_def f by (metis mem_read_append)
qed

lemma key_unshift_all_wf:
  assumes "key_wf k"
  shows "key_unshift_all k = key_make (k_mem k) (k_first k) (k_len k + int (k_s k - k_first k))"
proof (cases "k_s k = k_first k")
  case True
  with assms show ?thesis
    by (simp add: key_unshift_all_def key_make_def make_comparable_ikey key_wf_def key_str_def)
next
  case False
  with assms show ?thesis
    by (simp add: key_unshift_all_def key_make_def key_wf_def Let_def of_nat_diff)
qed

section \<open>Rank: the order of keys as one number\<close>

text \<open>Lengths above eight count as nine: a node has room for one key that goes on past
  the slice, whether it keeps a suffix (length 64) or a layer (length 128).\<close>

definition slot_rank :: "u64 \<Rightarrow> int \<Rightarrow> nat" where
  "slot_rank ikey keylenx = unat ikey * 10 + nat (min keylenx 9)"

definition key_rank :: "key \<Rightarrow> nat" where
  "key_rank k = slot_rank (k_ikey0 k) (k_len k)"

lemma slot_rank_less:
  "0 \<le> a \<Longrightarrow> 0 \<le> b \<Longrightarrow>
   slot_rank i a < slot_rank j b \<longleftrightarrow> i < j \<or> i = j \<and> min a 9 < min b 9"
proof -
  assume "0 \<le> a" "0 \<le> b"
  then have b: "nat (min a 9) < 10" "nat (min b 9) < 10" by auto
  have "unat i * 10 + x < unat j * 10 + y \<longleftrightarrow> unat i < unat j \<or> unat i = unat j \<and> x < y"
    if "x < 10" "y < 10" for x y :: nat
    using that by linarith
  from this [OF b] \<open>0 \<le> a\<close> show ?thesis
    by (auto simp: slot_rank_def word_less_nat_alt word_unat_eq_iff nat_less_eq_zless)
qed

lemma slot_rank_eq:
  "0 \<le> a \<Longrightarrow> 0 \<le> b \<Longrightarrow> slot_rank i a = slot_rank j b \<longleftrightarrow> i = j \<and> min a 9 = min b 9"
  using slot_rank_less [of a b i j] slot_rank_less [of b a j i]
  by (metis linorder_neq_iff order_less_irrefl)

lemma key_compare_rank:
  assumes "0 \<le> k_len k" "0 \<le> l"
  shows "key_compare k i l < 0 \<longleftrightarrow> key_rank k < slot_rank i l"
    and "key_compare k i l = 0 \<longleftrightarrow> key_rank k = slot_rank i l"
    and "0 < key_compare k i l \<longleftrightarrow> slot_rank i l < key_rank k"
proof -
  have c: "compare a b < 0 \<longleftrightarrow> a < b" "compare a b > 0 \<longleftrightarrow> b < a" "compare a b = 0 \<longleftrightarrow> a = b"
    for a b :: u64 by simp_all
  show "key_compare k i l < 0 \<longleftrightarrow> key_rank k < slot_rank i l"
    using assms unfolding key_rank_def slot_rank_less [OF assms]
    by (auto simp: key_compare_def Let_def c ikey_size_def min_def of_bool_def split: if_splits)
  show "key_compare k i l = 0 \<longleftrightarrow> key_rank k = slot_rank i l"
    using assms unfolding key_rank_def slot_rank_eq [OF assms]
    by (auto simp: key_compare_def Let_def c ikey_size_def min_def of_bool_def split: if_splits)
  show "0 < key_compare k i l \<longleftrightarrow> slot_rank i l < key_rank k"
    using assms unfolding key_rank_def slot_rank_less [OF assms(2,1)]
    by (auto simp: key_compare_def Let_def c ikey_size_def min_def of_bool_def split: if_splits)
qed

lemma key_compare_order:
  assumes "key_wf x" "key_wf y"
  shows "key_compare_key x y < 0 \<Longrightarrow> ord_class.lexordp (key_str x) (key_str y)"
    and "0 < key_compare_key x y \<Longrightarrow> ord_class.lexordp (key_str y) (key_str x)"
    and "key_compare_key x y = 0 \<Longrightarrow>
      take 8 (key_str x) = take 8 (key_str y) \<and> (key_has_suffix x \<longleftrightarrow> key_has_suffix y) \<and>
      (\<not> key_has_suffix x \<longrightarrow> key_str x = key_str y)"
proof -
  have l: "0 \<le> k_len x" "0 \<le> k_len y" using assms by (auto simp: key_wf_def)
  have len: "k_len x = int (length (key_str x))" "k_len y = int (length (key_str y))"
    using assms length_key_str by metis+
  have i: "k_ikey0 x = ikey_of (key_str x)" "k_ikey0 y = ikey_of (key_str y)"
    using assms by (auto simp: key_wf_def)
  note cmp = key_compare_rank [OF l, where i = "k_ikey0 y", folded key_compare_key_def]
  note less = slot_rank_less [OF l] slot_rank_less [OF l(2,1)] slot_rank_eq [OF l]
  have lt: "ord_class.lexordp (key_str u) (key_str v)"
    if "k_ikey0 u < k_ikey0 v \<or> k_ikey0 u = k_ikey0 v \<and> min (k_len u) 9 < min (k_len v) 9"
      "k_ikey0 u = ikey_of (key_str u)" "k_ikey0 v = ikey_of (key_str v)"
      "k_len u = int (length (key_str u))" "k_len v = int (length (key_str v))" for u v
    using that by (subst slice_order) auto
  show "ord_class.lexordp (key_str x) (key_str y)" if "key_compare_key x y < 0"
    using that [unfolded cmp key_rank_def less] i len by (intro lt) simp_all
  show "ord_class.lexordp (key_str y) (key_str x)" if "0 < key_compare_key x y"
    using that [unfolded cmp key_rank_def less] i len by (intro lt) simp_all
  assume "key_compare_key x y = 0"
  then have e: "k_ikey0 x = k_ikey0 y" "min (k_len x) 9 = min (k_len y) 9"
    by (simp_all add: cmp key_rank_def less)
  then have p: "pad 8 (key_str x) = pad 8 (key_str y)" by (simp add: i ikey_of_eq_iff)
  show "take 8 (key_str x) = take 8 (key_str y) \<and> (key_has_suffix x \<longleftrightarrow> key_has_suffix y) \<and>
      (\<not> key_has_suffix x \<longrightarrow> key_str x = key_str y)"
  proof (cases "8 < k_len x")
    case True
    with e have "8 < k_len y" by linarith
    with True p show ?thesis by (simp add: pad_long len key_has_suffix_def ikey_size_def)
  next
    case False
    with e have "k_len y = k_len x" by linarith
    with False p show ?thesis by (simp add: pad_short len key_has_suffix_def ikey_size_def)
  qed
qed

lemma key_unparse_str:
  assumes "key_wf k" "k_len k \<le> datalen"
  shows "key_unparse k datalen = key_str k"
proof -
  have i: "k_ikey0 k = ikey_of (key_str k)" and l: "k_len k = int (length (key_str k))"
    using assms length_key_str by (auto simp: key_wf_def)
  have "unparse_comparable_len (nat (k_len k)) (k_ikey0 k) 8 = take 8 (key_str k)"
  proof (cases "k_len k \<le> 8")
    case True
    then show ?thesis using l by (simp add: unparse_comparable_len_ikey i pad_short)
  next
    case False
    then show ?thesis using l by (simp add: unparse_comparable_len_ikey i pad_long min_def)
  qed
  moreover have "(if k_len k > 8 then mem_read (k_mem k) (k_s k + 8) (nat (k_len k - 8)) else []) =
      drop 8 (key_str k)"
    using l by (auto simp: key_str_def drop_mem_read nat_minus_8)
  ultimately have "key_unparse k datalen = take 8 (key_str k) @ drop 8 (key_str k)"
    using assms(2) by (simp only: key_unparse_def Let_def ikey_size_def min_absorb1 nat_numeral)
  then show ?thesis by simp
qed

text \<open>The slot keys that a node can hold: the length of a nonzero slice is not 0.\<close>

definition slot_ok :: "u64 \<Rightarrow> int \<Rightarrow> bool" where
  "slot_ok ikey keylenx \<longleftrightarrow> 0 \<le> keylenx \<and> (keylenx = 0 \<longrightarrow> ikey = 0)"

lemma key_increment_next:
  assumes "key_increment k = (k', False)" "0 \<le> k_len k"
  shows "key_rank k < key_rank k'"
    and "slot_ok i l \<Longrightarrow> key_rank k < slot_rank i l \<Longrightarrow> key_rank k' \<le> slot_rank i l"
proof -
  have c: "8 < k_len k \<and> k_ikey0 k' = k_ikey0 k + 1 \<and> k_len k' = 1 \<and> k_ikey0 k + 1 \<noteq> 0 \<or>
      k_len k \<le> 8 \<and> k_ikey0 k' = k_ikey0 k \<and> k_len k' = k_len k + 1"
    using assms by (auto simp: key_increment_def key_has_suffix_def ikey_size_def Let_def split: if_splits)
  have u: "unat (x + 1) = unat x + 1" if "x + 1 \<noteq> 0" for x :: u64
    using that by (metis unat_plus_simple unatSuc add.commute Suc_eq_plus1)
  from c assms(2) show "key_rank k < key_rank k'"
    by (auto simp: key_rank_def slot_rank_def u)
  assume s: "slot_ok i l" and r: "key_rank k < slot_rank i l"
  have r': "k_ikey0 k < i \<or> k_ikey0 k = i \<and> min (k_len k) 9 < min l 9"
    using r s assms(2) by (simp add: key_rank_def slot_rank_less slot_ok_def)
  from c show "key_rank k' \<le> slot_rank i l"
  proof
    assume a: "8 < k_len k \<and> k_ikey0 k' = k_ikey0 k + 1 \<and> k_len k' = 1 \<and> k_ikey0 k + 1 \<noteq> 0"
    with r' have lt: "unat (k_ikey0 k) < unat i" by (auto simp: word_less_nat_alt)
    then have "i \<noteq> 0" by auto
    with s have "1 \<le> l" by (auto simp: slot_ok_def)
    with lt a u [of "k_ikey0 k"] show ?thesis by (simp add: key_rank_def slot_rank_def)
  next
    assume a: "k_len k \<le> 8 \<and> k_ikey0 k' = k_ikey0 k \<and> k_len k' = k_len k + 1"
    from r' show ?thesis
    proof
      assume "k_ikey0 k < i"
      then have "unat (k_ikey0 k) < unat i" by (simp add: word_less_nat_alt)
      then show ?thesis using a assms(2) by (simp add: key_rank_def slot_rank_def) linarith
    next
      assume "k_ikey0 k = i \<and> min (k_len k) 9 < min l 9"
      then have "nat (min (k_len k') 9) \<le> nat (min l 9)" using a by linarith
      moreover have "k_ikey0 k' = i" using a \<open>k_ikey0 k = i \<and> _\<close> by simp
      ultimately show ?thesis by (simp add: key_rank_def slot_rank_def)
    qed
  qed
qed

lemma key_shift_fields [simp]:
  "k_mem (key_shift k) = k_mem k" "k_first (key_shift k) = k_first k"
  "k_s (key_shift k) = k_s k + 8" "k_len (key_shift k) = k_len k - 8"
  by (simp_all add: key_shift_def ikey_size_def Let_def)

lemma key_shifts_wf:
  assumes "key_wf k" "8 * int n < k_len k \<or> n = 0"
  shows "key_wf ((key_shift ^^ n) k) \<and> key_str ((key_shift ^^ n) k) = drop (8 * n) (key_str k) \<and>
    key_full_string ((key_shift ^^ n) k) = key_full_string k \<and>
    k_mem ((key_shift ^^ n) k) = k_mem k \<and> k_first ((key_shift ^^ n) k) = k_first k \<and>
    k_s ((key_shift ^^ n) k) = k_s k + 8 * n \<and> k_len ((key_shift ^^ n) k) = k_len k - 8 * int n"
  using assms(2)
proof (induction n)
  case (Suc n)
  let ?k = "(key_shift ^^ n) k"
  from Suc have ih: "key_wf ?k" "key_str ?k = drop (8 * n) (key_str k)"
    "key_full_string ?k = key_full_string k" "k_mem ?k = k_mem k" "k_first ?k = k_first k"
    "k_s ?k = k_s k + 8 * n" "k_len ?k = k_len k - 8 * int n"
    by auto
  have s: "key_has_suffix ?k" using Suc.prems ih by (simp add: key_has_suffix_def ikey_size_def)
  show ?case
    using key_shift_wf [OF ih(1) s] ih by (simp add: add.commute)
qed (use assms in simp)

section \<open>Properties\<close>

text \<open>C30: shifting a key walks down its string eight bytes at a time without losing it:
  after \<open>n\<close> shifts the key reads as the string from byte \<open>8 n\<close> on, the full string is
  unchanged, and \<open>unshift_all\<close> restores the key exactly.\<close>

theorem key_shift_unshift:
  assumes "8 * n < length xs"
  shows "key_str ((key_shift ^^ n) (key_make xs 0 (int (length xs)))) = drop (8 * n) xs \<and>
    key_full_string ((key_shift ^^ n) (key_make xs 0 (int (length xs)))) = xs \<and>
    key_unshift_all ((key_shift ^^ n) (key_make xs 0 (int (length xs)))) = key_make xs 0 (int (length xs))"
proof -
  let ?k = "key_make xs 0 (int (length xs))"
  have k: "key_wf ?k" "key_str ?k = xs" using key_make_wf [of "int (length xs)" 0 xs] by simp_all
  have f: "k_len ?k = int (length xs)" "k_mem ?k = xs" "k_first ?k = 0" "k_s ?k = 0"
    "key_full_string ?k = xs"
    by (simp_all add: key_make_def key_full_string_def)
  note n = key_shifts_wf [OF k(1), of n]
  have "8 * int n < k_len ?k \<or> n = 0" using assms by (auto simp: f)
  note n = n [OF this]
  have "key_unshift_all ((key_shift ^^ n) ?k) = ?k"
    using n by (simp add: key_unshift_all_wf f)
  with n show ?thesis by (simp add: k f)
qed

theorem key_shift_unshift_witness:
  "key_str (key_shift (key_make (replicate 8 1 @ [5, 6]) 0 10)) = [5, 6]"
  using key_shift_unshift [of 1 "replicate 8 1 @ [5, 6]"] by simp

text \<open>C31: the comparison of the tree is the lexicographic order as far as one slice and
  one length can tell: a negative result means less, a positive one greater, and zero
  that the strings are equal or agree in eight bytes and both go on.\<close>

theorem key_compare_lexicographic:
  assumes "key_wf x" "key_wf y"
  shows "(key_compare_key x y < 0 \<longrightarrow> ord_class.lexordp (key_str x) (key_str y)) \<and>
    (0 < key_compare_key x y \<longrightarrow> ord_class.lexordp (key_str y) (key_str x)) \<and>
    (key_compare_key x y = 0 \<longrightarrow>
      take 8 (key_str x) = take 8 (key_str y) \<and> (key_has_suffix x \<longleftrightarrow> key_has_suffix y) \<and>
      (\<not> key_has_suffix x \<longrightarrow> key_str x = key_str y))"
  using key_compare_order [OF assms] by blast

theorem key_compare_lexicographic_witness:
  "ord_class.lexordp [1, 2] [1 :: byte, 2, 0]"
proof -
  have "key_wf (key_make [1, 2] 0 2)" "key_wf (key_make [1, 2, 0] 0 3)"
    by (simp_all add: key_make_wf)
  from key_compare_lexicographic [OF this] show ?thesis
    by (simp add: key_make_wf mem_read_def)
qed

text \<open>\<open>increment\<close> gives the next position a node can hold: nothing lies between a key
  and its increment, unless the slice wraps.\<close>

theorem key_increment_successor:
  assumes "key_increment k = (k', False)" "0 \<le> k_len k"
  shows "key_rank k < key_rank k' \<and>
    (\<forall>i l. slot_ok i l \<longrightarrow> 0 < key_compare k i l \<or> key_compare k i l = 0 \<or> key_rank k' \<le> slot_rank i l)"
  using key_increment_next [OF assms] key_compare_rank [OF assms(2)]
  by (meson linorder_neqE_nat slot_ok_def)

theorem key_increment_successor_witness:
  "key_rank (key_make [1, 2] 0 2) < key_rank (fst (key_increment (key_make [1, 2] 0 2)))"
proof -
  have "key_increment (key_make [1, 2] 0 2) = (fst (key_increment (key_make [1, 2] 0 2)), False)"
    by (simp add: key_increment_def key_has_suffix_def key_make_def ikey_size_def)
  from key_increment_successor [OF this] show ?thesis by (simp add: key_make_def)
qed

text \<open>C32: \<open>unparse\<close> writes the string of a key back from its slice and suffix.\<close>

theorem key_unparse_roundtrip:
  assumes "length xs \<le> n"
  shows "key_unparse (key_make xs 0 (int (length xs))) (int n) = xs"
  using key_unparse_str [of "key_make xs 0 (int (length xs))" "int n"]
    key_make_wf [of "int (length xs)" 0 xs] assms
  by (simp add: key_make_def)

theorem key_unparse_roundtrip_witness: "key_unparse (key_make [1, 2, 0] 0 3) 5 = [1, 2, 0]"
  using key_unparse_roundtrip [of "[1, 2, 0]" 5] by simp

end
