(* ===== verification/String_Bag.thy ===== *)
theory String_Bag
  imports String_Slice
begin

text \<open>
  The bag of key suffixes of a leaf (\<open>stringbag.hh\<close>): one block of memory with a header, a
  table of positions and lengths, and the strings. \<open>sb_mem\<close> is the whole block, so that
  positions mean what they mean in the code. The offset type is a parameter of the
  code (\<open>uint8_t\<close> in a leaf, \<open>uint16_t\<close> outside it); here it is its size in bytes, and
  the proof obligation that offsets fit is explicit.
\<close>

section \<open>The operations\<close>

record stringbag =
  sb_size :: nat
  sb_capacity :: nat
  sb_info :: "(nat \<times> nat) list"
  sb_mem :: bytes

text \<open>\<open>ot\<close> is \<open>sizeof(offset_type)\<close>.\<close>

definition sb_max_size :: "nat \<Rightarrow> nat" where
  "sb_max_size ot = (256 ^ ot - 1) + 1"

definition sb_empty_size :: "nat \<Rightarrow> nat" where
  "sb_empty_size ot = ot * 2"

definition sb_overhead :: "nat \<Rightarrow> nat \<Rightarrow> nat" where
  "sb_overhead ot width = sb_empty_size ot + width * (2 * ot)"

definition sb_safe_size :: "nat \<Rightarrow> nat \<Rightarrow> nat \<Rightarrow> nat" where
  "sb_safe_size ot width len = sb_overhead ot width + len + slice_size - 1"

text \<open>The constructor; \<open>None\<close> is its assertion. The contents of fresh memory is not specified
  by the code, the model has zeros there.\<close>

definition sb_make :: "nat \<Rightarrow> nat \<Rightarrow> nat \<Rightarrow> stringbag option" where
  "sb_make ot width capacity =
     (let firstpos = sb_overhead ot width in
      if capacity \<ge> firstpos \<and> capacity \<le> sb_max_size ot then
        Some \<lparr>sb_size = firstpos, sb_capacity = capacity - 1, sb_info = replicate width (0, 0),
          sb_mem = replicate capacity 0\<rparr>
      else None)"

definition sb_capacity_of :: "stringbag \<Rightarrow> nat" where
  "sb_capacity_of b = sb_capacity b + 1"

definition sb_used_capacity :: "stringbag \<Rightarrow> nat" where
  "sb_used_capacity b = sb_size b"

definition sb_get :: "stringbag \<Rightarrow> nat \<Rightarrow> bytes" where
  "sb_get b p = (let (pos, len) = sb_info b ! p in mem_read (sb_mem b) pos len)"

definition sb_assign :: "stringbag \<Rightarrow> nat \<Rightarrow> bytes \<Rightarrow> stringbag option" where
  "sb_assign b p s =
     (let len = length s; mylen = snd (sb_info b ! p);
          store = (\<lambda>b pos. b\<lparr>sb_mem := take pos (sb_mem b) @ s @ drop (pos + len) (sb_mem b),
                             sb_info := (sb_info b)[p := (pos, len)]\<rparr>)
      in if mylen \<ge> len then Some (store b (fst (sb_info b ! p)))
         else if sb_size b + max len slice_size \<le> sb_capacity_of b
         then Some (store (b\<lparr>sb_size := sb_size b + len\<rparr>) (sb_size b))
         else None)"

section \<open>Well-formed bags\<close>

text \<open>Strings live between the table and the end of the used part, do not overlap, and leave
  room for an eight-byte read.\<close>

definition sb_wf :: "nat \<Rightarrow> nat \<Rightarrow> stringbag \<Rightarrow> bool" where
  "sb_wf ot width b \<longleftrightarrow>
     length (sb_info b) = width \<and> length (sb_mem b) = sb_capacity_of b \<and>
     sb_overhead ot width \<le> sb_size b \<and> sb_size b \<le> sb_capacity_of b \<and>
     sb_capacity_of b \<le> sb_max_size ot \<and>
     (\<forall>p<width. fst (sb_info b ! p) + snd (sb_info b ! p) \<le> sb_size b) \<and>
     (\<forall>p<width. 0 < snd (sb_info b ! p) \<longrightarrow>
        sb_overhead ot width \<le> fst (sb_info b ! p) \<and> fst (sb_info b ! p) + 8 \<le> sb_capacity_of b) \<and>
     (\<forall>p<width. \<forall>q<width. p \<noteq> q \<longrightarrow> 0 < snd (sb_info b ! p) \<longrightarrow> 0 < snd (sb_info b ! q) \<longrightarrow>
        fst (sb_info b ! p) + snd (sb_info b ! p) \<le> fst (sb_info b ! q) \<or>
        fst (sb_info b ! q) + snd (sb_info b ! q) \<le> fst (sb_info b ! p))"

lemma sb_make_wf:
  assumes "sb_make ot width capacity = Some b" "0 < capacity"
  shows "sb_wf ot width b" "sb_size b = sb_overhead ot width" "sb_capacity_of b = capacity"
    "p < width \<Longrightarrow> sb_get b p = []"
  using assms
  by (auto simp: sb_make_def sb_wf_def sb_capacity_of_def sb_get_def mem_read_def Let_def split: if_splits)

text \<open>What \<open>assign\<close> does to memory, in one place.\<close>

definition sb_store :: "stringbag \<Rightarrow> nat \<Rightarrow> nat \<Rightarrow> bytes \<Rightarrow> nat \<Rightarrow> stringbag" where
  "sb_store b p pos s z = b\<lparr>sb_size := z,
     sb_mem := take pos (sb_mem b) @ s @ drop (pos + length s) (sb_mem b),
     sb_info := (sb_info b)[p := (pos, length s)]\<rparr>"

lemma sb_assign_cases:
  assumes "sb_assign b p s = Some b'"
  obtains (reuse) "length s \<le> snd (sb_info b ! p)" "b' = sb_store b p (fst (sb_info b ! p)) s (sb_size b)"
  | (extend) "snd (sb_info b ! p) < length s" "sb_size b + max (length s) 8 \<le> sb_capacity_of b"
      "b' = sb_store b p (sb_size b) s (sb_size b + length s)"
  using assms
  by (auto simp: sb_assign_def sb_store_def slice_size_def Let_def split: if_splits)

lemma sb_size_store [simp]: "sb_size (sb_store b p pos s z) = z"
  by (simp add: sb_store_def)

lemma sb_store_get:
  assumes "p < length (sb_info b)" "pos + length s \<le> length (sb_mem b)"
  shows "sb_get (sb_store b p pos s z) p = s"
  using assms by (simp add: sb_get_def sb_store_def mem_read_def)

lemma sb_store_get_other:
  assumes "q \<noteq> p" "pos + length s \<le> length (sb_mem b)"
    and "s = [] \<or> snd (sb_info b ! q) = 0 \<or> fst (sb_info b ! q) + snd (sb_info b ! q) \<le> pos \<or>
      pos + length s \<le> fst (sb_info b ! q)"
  shows "sb_get (sb_store b p pos s z) q = sb_get b q"
proof -
  obtain a n where i: "sb_info b ! q = (a, n)" by fastforce
  have "take n (drop a (take pos m @ s @ drop (pos + length s) m)) = take n (drop a m)"
    if c: "s = [] \<or> n = 0 \<or> a + n \<le> pos \<or> pos + length s \<le> a" and l: "pos + length s \<le> length m" for m :: bytes
  proof -
    let ?m = "take pos m @ s @ drop (pos + length s) m"
    consider "s = []" | "n = 0" | "a + n \<le> pos" | "pos + length s \<le> a" using c by blast
    then show ?thesis
    proof cases
      case 3
      have e: "take n (drop a xs) = drop a (take (a + n) xs)" for xs :: bytes
        by (simp add: drop_take)
      have "take (a + n) ?m = take (a + n) m" using 3 l by (simp add: min_absorb1)
      then show ?thesis unfolding e by simp
    next
      case 4
      then have "drop a ?m = drop a m" using l by (simp add: min_absorb2)
      then show ?thesis by simp
    qed simp_all
  qed
  with assms i show ?thesis by (auto simp: sb_get_def sb_store_def mem_read_def)
qed

text \<open>Room for \<open>s\<close> at \<open>pos\<close>: after the table, and clear of every other string.\<close>

definition sb_room :: "nat \<Rightarrow> nat \<Rightarrow> stringbag \<Rightarrow> nat \<Rightarrow> nat \<Rightarrow> bytes \<Rightarrow> bool" where
  "sb_room ot width b p pos s \<longleftrightarrow> s = [] \<or>
     sb_overhead ot width \<le> pos \<and> pos + 8 \<le> sb_capacity_of b \<and>
     (\<forall>q<width. q \<noteq> p \<longrightarrow> 0 < snd (sb_info b ! q) \<longrightarrow>
        fst (sb_info b ! q) + snd (sb_info b ! q) \<le> pos \<or> pos + length s \<le> fst (sb_info b ! q))"

lemma sb_store_wf:
  assumes wf: "sb_wf ot width b" and p: "p < width" and room: "sb_room ot width b p pos s"
    and z: "pos + length s \<le> z" "sb_size b \<le> z" "z \<le> sb_capacity_of b"
  shows "sb_wf ot width (sb_store b p pos s z)" "sb_get (sb_store b p pos s z) p = s"
    "q < width \<Longrightarrow> q \<noteq> p \<Longrightarrow> sb_get (sb_store b p pos s z) q = sb_get b q"
    "sb_capacity_of (sb_store b p pos s z) = sb_capacity_of b"
proof -
  let ?b = "sb_store b p pos s z"
  have l: "length (sb_info b) = width" "length (sb_mem b) = sb_capacity_of b"
    using wf by (simp_all add: sb_wf_def)
  show c: "sb_capacity_of ?b = sb_capacity_of b" by (simp add: sb_store_def sb_capacity_of_def)
  have i: "sb_info ?b ! q = (if q = p then (pos, length s) else sb_info b ! q)" if "q < width" for q
    using that l by (simp add: sb_store_def)
  have bounds: "fst (sb_info ?b ! q) + snd (sb_info ?b ! q) \<le> z" if "q < width" for q
    using wf z that by (simp add: i sb_wf_def) (meson le_trans)
  have base: "sb_overhead ot width \<le> fst (sb_info ?b ! q) \<and> fst (sb_info ?b ! q) + 8 \<le> sb_capacity_of b"
    if "q < width" "0 < snd (sb_info ?b ! q)" for q
    using wf room that by (auto simp: i sb_wf_def sb_room_def split: if_splits)
  have dis: "fst (sb_info ?b ! q) + snd (sb_info ?b ! q) \<le> fst (sb_info ?b ! r) \<or>
      fst (sb_info ?b ! r) + snd (sb_info ?b ! r) \<le> fst (sb_info ?b ! q)"
    if q: "q < width" "r < width" "q \<noteq> r" "0 < snd (sb_info ?b ! q)" "0 < snd (sb_info ?b ! r)" for q r
  proof -
    consider "q = p" | "r = p" | "q \<noteq> p" "r \<noteq> p" by blast
    then show ?thesis
    proof cases
      case 1
      then show ?thesis using q room by (auto simp: i sb_room_def)
    next
      case 2
      then show ?thesis using q room by (auto simp: i sb_room_def)
    next
      case 3
      with q have "0 < snd (sb_info b ! q)" "0 < snd (sb_info b ! r)" by (simp_all add: i)
      with 3 q wf show ?thesis unfolding sb_wf_def by (simp add: i)
    qed
  qed
  have "length (sb_info ?b) = width" "length (sb_mem ?b) = sb_capacity_of ?b"
    "sb_overhead ot width \<le> sb_size ?b" "sb_size ?b = z" "sb_capacity_of b \<le> sb_max_size ot"
    using l c z wf by (auto simp: sb_store_def sb_wf_def)
  then show "sb_wf ot width ?b"
    unfolding sb_wf_def using bounds base dis z c by simp
  show "sb_get ?b p = s" using l p z by (intro sb_store_get) auto
  assume "q < width" "q \<noteq> p"
  then show "sb_get ?b q = sb_get b q"
    using l z room by (intro sb_store_get_other) (auto simp: sb_room_def)
qed

lemma sb_assign_wf:
  assumes wf: "sb_wf ot width b" and p: "p < width" and a: "sb_assign b p s = Some b'"
  shows "sb_wf ot width b' \<and> sb_get b' p = s \<and>
    (\<forall>q<width. q \<noteq> p \<longrightarrow> sb_get b' q = sb_get b q) \<and>
    sb_capacity_of b' = sb_capacity_of b \<and> sb_size b' \<le> sb_size b + length s"
  using a
proof (cases rule: sb_assign_cases)
  case reuse
  have "sb_room ot width b p (fst (sb_info b ! p)) s"
  proof (cases "s = []")
    case False
    then have "0 < snd (sb_info b ! p)" using reuse(1) by (cases s) auto
    moreover have "fst (sb_info b ! q) + snd (sb_info b ! q) \<le> fst (sb_info b ! p) \<or>
        fst (sb_info b ! p) + snd (sb_info b ! p) \<le> fst (sb_info b ! q)"
      if "q < width" "q \<noteq> p" "0 < snd (sb_info b ! q)" "0 < snd (sb_info b ! p)" for q
      using wf p that unfolding sb_wf_def by blast
    ultimately show ?thesis
      using wf p reuse(1) by (fastforce simp: sb_room_def sb_wf_def)
  qed (simp add: sb_room_def)
  moreover have "fst (sb_info b ! p) + length s \<le> sb_size b" "sb_size b \<le> sb_capacity_of b"
    using wf p reuse by (auto simp: sb_wf_def intro: le_trans)
  ultimately show ?thesis
    unfolding reuse(2) using sb_store_wf [OF wf p] by simp
next
  case extend
  have "sb_room ot width b p (sb_size b) s"
    using wf extend(2) by (auto simp: sb_room_def sb_wf_def)
  moreover have "sb_size b + length s \<le> sb_capacity_of b" using extend by simp
  ultimately show ?thesis
    unfolding extend(3) using sb_store_wf [OF wf p] by simp
qed

lemma sb_assign_fits:
  assumes "sb_size b + length s + 7 \<le> sb_capacity_of b"
  obtains b' where "sb_assign b p s = Some b'"
proof -
  have "length s \<le> snd (sb_info b ! p) \<or> sb_size b + max (length s) 8 \<le> sb_capacity_of b"
    using assms by (cases "length s = 0") auto
  then have "sb_assign b p s \<noteq> None" unfolding sb_assign_def slice_size_def Let_def by auto
  with that show ?thesis by auto
qed

section \<open>Filling a bag\<close>

text \<open>The loop of \<open>assign_ksuf\<close> that copies suffixes into a new bag.\<close>

fun sb_assign_all :: "stringbag \<Rightarrow> (nat \<times> bytes) list \<Rightarrow> stringbag option" where
  "sb_assign_all b [] = Some b"
| "sb_assign_all b ((p, s) # xs) =
     (case sb_assign b p s of None \<Rightarrow> None | Some b' \<Rightarrow> sb_assign_all b' xs)"

definition total_length :: "(nat \<times> bytes) list \<Rightarrow> nat" where
  "total_length xs = sum_list (map (\<lambda>(p, s). length s) xs)"

lemma sb_assign_all_fits:
  assumes "sb_wf ot width b" "sb_size b + total_length xs + 7 \<le> sb_capacity_of b"
    "\<forall>(p, s) \<in> set xs. p < width" "distinct (map fst xs)"
  shows "\<exists>b'. sb_assign_all b xs = Some b' \<and> sb_wf ot width b' \<and> sb_capacity_of b' = sb_capacity_of b \<and>
    (\<forall>q<width. sb_get b' q = (case map_of xs q of Some s \<Rightarrow> s | None \<Rightarrow> sb_get b q))"
  using assms
proof (induction xs arbitrary: b)
  case (Cons x xs)
  obtain p s where x: "x = (p, s)" by fastforce
  have t: "total_length (x # xs) = length s + total_length xs" by (simp add: total_length_def x)
  with Cons.prems have "sb_size b + length s + 7 \<le> sb_capacity_of b" by simp
  then obtain b1 where b1: "sb_assign b p s = Some b1" by (rule sb_assign_fits)
  have p: "p < width" using Cons.prems x by auto
  from sb_assign_wf [OF Cons.prems(1) p b1] have w: "sb_wf ot width b1" "sb_get b1 p = s"
    "\<forall>q<width. q \<noteq> p \<longrightarrow> sb_get b1 q = sb_get b q" "sb_capacity_of b1 = sb_capacity_of b"
    "sb_size b1 \<le> sb_size b + length s"
    by auto
  have "sb_size b1 + total_length xs + 7 \<le> sb_capacity_of b1" using Cons.prems(2) t w by simp
  from Cons.IH [OF w(1) this] Cons.prems obtain b' where b': "sb_assign_all b1 xs = Some b'"
    "sb_wf ot width b'" "sb_capacity_of b' = sb_capacity_of b1"
    "\<forall>q<width. sb_get b' q = (case map_of xs q of Some s \<Rightarrow> s | None \<Rightarrow> sb_get b1 q)"
    by auto
  have "map_of xs p = None" using Cons.prems(4) x by (auto simp: map_of_eq_None_iff)
  with b' w b1 x show ?case by (auto split: option.splits)
qed simp

section \<open>Properties\<close>



text \<open>\<open>safe_size\<close> is safe: a new bag of that capacity takes all the strings it was computed
  for, one per position, and gives each of them back. This is why the assertions in
  \<open>leaf::assign_ksuf\<close> cannot fail.\<close>

theorem stringbag_safe_size:
  assumes "sb_safe_size ot width (total_length xs) \<le> capacity" "capacity \<le> sb_max_size ot"
    and "\<forall>(p, s) \<in> set xs. p < width" "distinct (map fst xs)"
  shows "\<exists>b b'. sb_make ot width capacity = Some b \<and> sb_assign_all b xs = Some b' \<and>
    sb_wf ot width b' \<and> (\<forall>(p, s) \<in> set xs. sb_get b' p = s)"
proof -
  have c: "sb_overhead ot width + total_length xs + 7 \<le> capacity"
    using assms(1) by (simp add: sb_safe_size_def slice_size_def)
  then obtain b where b: "sb_make ot width capacity = Some b"
    using assms(2) by (auto simp: sb_make_def Let_def)
  have "0 < capacity" using c by simp
  note w = sb_make_wf [OF b this]
  have "sb_size b + total_length xs + 7 \<le> sb_capacity_of b" using c w by simp
  from sb_assign_all_fits [OF w(1) this assms(3,4)] obtain b' where
    b': "sb_assign_all b xs = Some b'" "sb_wf ot width b'"
    "\<forall>q<width. sb_get b' q = (case map_of xs q of Some s \<Rightarrow> s | None \<Rightarrow> sb_get b q)"
    by auto
  have "sb_get b' p = s" if "(p, s) \<in> set xs" for p s
    using that b'(3) assms(3,4) by (auto simp: map_of_is_SomeI)
  with b b' show ?thesis by blast
qed

theorem stringbag_safe_size_witness:
  "\<exists>b b'. sb_make 2 15 128 = Some b \<and> sb_assign_all b [(3, [1, 2]), (0, [9])] = Some b' \<and> sb_get b' 0 = [9]"
  using stringbag_safe_size [of 2 15 "[(3, [1, 2]), (0, [9])]" 128]
  by (fastforce simp: sb_safe_size_def sb_overhead_def sb_empty_size_def sb_max_size_def
      slice_size_def total_length_def)

end
