(* ===== verification/Circular_Int.thy ===== *)
theory Circular_Int
  imports Prelude
begin

text \<open>
  Epochs and phantom epochs are counters that wrap (\<open>circular_int.hh\<close>); kvtimestamps
  pack seconds and microseconds into one 64-bit word (\<open>timestamp.hh\<close>). The order of
  two counters is the sign of their difference, which is a linear order on every
  window shorter than half the range and on no larger one.
\<close>

section \<open>Circular integers\<close>

text \<open>\<open>circular_int<T>\<close> stores the unsigned value of \<open>T\<close>; the width is the type's.\<close>

type_synonym 'a circular_int = "'a word"

definition ci_inc :: "'a::len circular_int \<Rightarrow> 'a circular_int" where
  "ci_inc v = v + 1"

definition ci_dec :: "'a::len circular_int \<Rightarrow> 'a circular_int" where
  "ci_dec v = v - 1"

definition ci_add :: "'a::len circular_int \<Rightarrow> 'a word \<Rightarrow> 'a circular_int" where
  "ci_add v x = v + x"

definition ci_sub :: "'a::len circular_int \<Rightarrow> 'a word \<Rightarrow> 'a circular_int" where
  "ci_sub v x = v - x"

text \<open>\<open>cmpxchg\<close> returns the old value and stores only when it was the expected one.\<close>

definition ci_cmpxchg :: "'a::len circular_int \<Rightarrow> 'a word \<Rightarrow> 'a word \<Rightarrow> 'a circular_int \<times> 'a word" where
  "ci_cmpxchg v expected desired = (if v = expected then desired else v, v)"

definition next_nonzero :: "'a::len circular_int \<Rightarrow> 'a circular_int" where
  "next_nonzero x = (let v = x + 1 in v + (if v = 0 then 1 else 0))"

text \<open>The difference is read as the signed type.\<close>

definition ci_diff :: "'a::len circular_int \<Rightarrow> 'a circular_int \<Rightarrow> int" where
  "ci_diff a b = sint (a - b)"

definition less :: "'a::len word \<Rightarrow> 'a word \<Rightarrow> bool" where
  "less a b \<longleftrightarrow> sint (a - b) < 0"

definition less_equal :: "'a::len word \<Rightarrow> 'a word \<Rightarrow> bool" where
  "less_equal a b \<longleftrightarrow> sint (a - b) \<le> 0"

definition ci_lt :: "'a::len circular_int \<Rightarrow> 'a circular_int \<Rightarrow> bool" where
  "ci_lt a b \<longleftrightarrow> less a b"

definition ci_le :: "'a::len circular_int \<Rightarrow> 'a circular_int \<Rightarrow> bool" where
  "ci_le a b \<longleftrightarrow> \<not> less b a"

definition ci_ge :: "'a::len circular_int \<Rightarrow> 'a circular_int \<Rightarrow> bool" where
  "ci_ge a b \<longleftrightarrow> \<not> less a b"

definition ci_gt :: "'a::len circular_int \<Rightarrow> 'a circular_int \<Rightarrow> bool" where
  "ci_gt a b \<longleftrightarrow> less b a"

subsection \<open>Order on a window\<close>

text \<open>\<open>ahead a b\<close>: how many increments lead from \<open>a\<close> to \<open>b\<close>.\<close>

definition ahead :: "'a::len word \<Rightarrow> 'a word \<Rightarrow> nat" where
  "ahead a b = unat (b - a)"

lemma sint_u64: "sint (w :: u64) = (if 2 ^ 63 \<le> unat w then int (unat w) - 2 ^ 64 else int (unat w))"
proof -
  have b: "bit w 63 \<longleftrightarrow> 2 ^ 63 \<le> unat w"
  proof -
    have lt: "unat w < 2 ^ 64" by (rule order_less_le_trans [OF unsigned_less]) simp
    have "bit w 63 \<longleftrightarrow> odd (unat w div 2 ^ 63)"
      by (metis bit_iff_odd bit_unsigned_iff possible_bit_nat)
    moreover have "unat w div 2 ^ 63 = (if 2 ^ 63 \<le> unat w then 1 else 0)"
      using lt by (auto intro!: div_nat_eqI)
    ultimately show ?thesis by simp
  qed
  have "sint w = take_bit 64 (uint w) - 2 ^ 64 * of_bool (bit (uint w) 63)"
    using signed_take_bit_eq_take_bit_minus [of 63 "uint w"] by (simp add: sint_uint)
  also have "take_bit 64 (uint w) = int (unat w)"
    by (simp add: bintr_uint)
  also have "bit (uint w) 63 \<longleftrightarrow> bit w 63" by (simp add: bit_unsigned_iff)
  finally show ?thesis using b by simp
qed

lemma unat_u64: "unat (x :: u64) < 2 ^ 64"
  by (rule order_less_le_trans [OF unsigned_less]) simp

lemma uint_u64: "uint (x :: u64) < 2 ^ 64"
  by (rule order_less_le_trans [OF unsigned_less]) simp

lemma unat_diff_u64: "unat (a - b :: u64) = (if unat b \<le> unat a then unat a - unat b
    else 2 ^ 64 + unat a - unat b)"
  using unat_u64 [of a] unat_u64 [of b] unat_sub_if_size [of a b]
  by (auto simp: word_size)

lemma less_ahead: "less a (b :: u64) \<longleftrightarrow> 0 < ahead a b \<and> ahead a b \<le> 2 ^ 63"
proof -
  have "ahead a b = (if a = b then 0 else 2 ^ 64 - unat (a - b))"
    using unat_u64 [of a] unat_u64 [of b]
    by (auto simp: ahead_def unat_diff_u64 word_unat_eq_iff)
  moreover have "unat (a - b) < 2 ^ 64" "uint (a - b) < 2 ^ 64"
    by (rule unat_u64, rule uint_u64)
  moreover have "0 < unat (a - b)" if "a \<noteq> b" using that by (simp add: unat_gt_0)
  ultimately show ?thesis by (auto simp: less_def sint_u64)
qed

lemma less_equal_iff: "less_equal a (b :: u64) \<longleftrightarrow> a = b \<or> less a b"
proof -
  have "sint (a - b) = 0 \<longleftrightarrow> a = b"
    using uint_u64 [of "a - b"] by (auto simp: sint_u64 uint_0_iff)
  then show ?thesis by (auto simp: less_equal_def less_def order_le_less)
qed

lemma ahead_add:
  "ahead a (b :: u64) + ahead b c < 2 ^ 64 \<Longrightarrow> ahead a c = ahead a b + ahead b c"
  using unat_u64 [of a] unat_u64 [of b] unat_u64 [of c]
  by (auto simp: ahead_def unat_diff_u64 split: if_splits)

section \<open>Timestamps\<close>

text \<open>The high half holds seconds, the low half microseconds.\<close>

type_synonym kvtimestamp = u64

definition timestamp_parts :: "nat \<Rightarrow> nat \<Rightarrow> kvtimestamp" where
  "timestamp_parts sec usec = push_bit 32 (of_nat sec) OR ucast (of_nat usec :: u32)"

definition kvts_highpart :: "kvtimestamp \<Rightarrow> nat" where
  "kvts_highpart t = unat (drop_bit 32 t)"

definition kvts_lowpart :: "kvtimestamp \<Rightarrow> nat" where
  "kvts_lowpart t = unat (ucast t :: u32)"

definition timestamp_sub :: "kvtimestamp \<Rightarrow> kvtimestamp \<Rightarrow> kvtimestamp" where
  "timestamp_sub a b =
     (let d = a - b
      in if kvts_lowpart d > 999999 then d - (push_bit 32 1 - 1000000) else d)"

text \<open>The time a timestamp stands for, in microseconds.\<close>

definition usecs :: "kvtimestamp \<Rightarrow> nat" where
  "usecs t = kvts_highpart t * 1000000 + kvts_lowpart t"

lemma kvts_parts:
  "kvts_highpart t = unat t div 2 ^ 32" "kvts_lowpart t = unat t mod 2 ^ 32"
proof -
  show "kvts_highpart t = unat t div 2 ^ 32"
    by (simp only: kvts_highpart_def unat_drop_bit_eq) (simp add: drop_bit_eq_div)
  show "kvts_lowpart t = unat t mod 2 ^ 32"
    by (simp add: kvts_lowpart_def unsigned_ucast_eq take_bit_eq_mod)
qed

lemma timestamp_sub_usecs:
  assumes "kvts_lowpart a < 1000000" "kvts_lowpart b < 1000000" "unat b \<le> unat a"
  shows "usecs (timestamp_sub a b) + usecs b = usecs a" and "kvts_lowpart (timestamp_sub a b) < 1000000"
proof -
  define ah al bh bl where "ah = unat a div 2 ^ 32" "al = unat a mod 2 ^ 32"
    "bh = unat b div 2 ^ 32" "bl = unat b mod 2 ^ 32"
  note defs = this
  have pt: "kvts_highpart a = ah" "kvts_lowpart a = al" "kvts_highpart b = bh" "kvts_lowpart b = bl"
    by (simp_all add: kvts_parts defs)
  have a: "unat a = ah * 2 ^ 32 + al" and b: "unat b = bh * 2 ^ 32 + bl"
    by (simp_all add: defs)
  have l: "al < 1000000" "bl < 1000000" using assms by (simp_all add: kvts_parts defs)
  have d: "unat (a - b) = unat a - unat b" using assms by (simp add: unat_diff_u64)
  have hh: "bh \<le> ah" using assms(3) by (simp add: defs div_le_mono)
  have "usecs (timestamp_sub a b) + usecs b = usecs a \<and> kvts_lowpart (timestamp_sub a b) < 1000000"
  proof (cases "bl \<le> al")
    case True
    then have e: "unat (a - b) = (ah - bh) * 2 ^ 32 + (al - bl)"
      using a b d hh by (simp add: diff_mult_distrib)
    have p: "kvts_highpart (a - b) = ah - bh" "kvts_lowpart (a - b) = al - bl"
      using l unfolding kvts_parts e by simp_all
    then have "timestamp_sub a b = a - b" using l by (simp add: timestamp_sub_def Let_def)
    then show ?thesis using True hh l p
      by (simp add: usecs_def pt diff_mult_distrib)
  next
    case False
    have h: "bh < ah" using assms(3) a b False hh by (cases "bh = ah") simp_all
    then obtain k where k: "ah = bh + Suc k" using less_imp_Suc_add by auto
    define r where "r = 2 ^ 32 + al - bl"
    have r: "r < 2 ^ 32" "4293967296 < r" using l False by (simp_all add: r_def)
    have e: "unat (a - b) = k * 2 ^ 32 + r"
      using a b d k False l by (simp add: r_def)
    have p: "kvts_lowpart (a - b) = r"
      using r unfolding kvts_parts e by simp
    let ?t = "a - b - (2 ^ 32 - 1000000)"
    have t: "timestamp_sub a b = ?t"
      using p r by (simp add: timestamp_sub_def Let_def)
    have u: "unat ?t = k * 2 ^ 32 + (r - 4293967296)"
      using e r unat_diff_u64 [of "a - b" "2 ^ 32 - 1000000"] by simp
    have "r - 4293967296 < 2 ^ 32" using r by simp
    then have q: "kvts_highpart ?t = k" "kvts_lowpart ?t = r - 4293967296"
      unfolding kvts_parts u by simp_all
    have "r - 4293967296 = 1000000 + al - bl" using False l by (simp add: r_def)
    note q = q [unfolded this]
    show ?thesis unfolding t usecs_def q using k l False by (simp add: pt)
  qed
  then show "usecs (timestamp_sub a b) + usecs b = usecs a" "kvts_lowpart (timestamp_sub a b) < 1000000"
    by simp_all
qed

section \<open>The counter order as an interface\<close>

text \<open>What the tree and the log rely on: counters handed out within half the range of each
  other are linearly ordered, in the order they were handed out.\<close>

locale window_order =
  fixes before :: "'c \<Rightarrow> 'c \<Rightarrow> bool"
    and dist :: "'c \<Rightarrow> 'c \<Rightarrow> nat"
    and half :: nat
  assumes before_dist: "before a b \<longleftrightarrow> 0 < dist a b \<and> dist a b \<le> half"
    and dist_add: "dist a b + dist b c < 2 * half \<Longrightarrow> dist a c = dist a b + dist b c"
    and dist_zero: "dist a b = 0 \<longleftrightarrow> a = b"
    and dist_swap: "a \<noteq> b \<Longrightarrow> dist a b + dist b a = 2 * half"
begin

lemma before_irrefl: "\<not> before a a"
  using dist_zero by (simp add: before_dist)

lemma before_trans:
  assumes "before a b" "before b c" "dist a b + dist b c \<le> half"
  shows "before a c"
proof -
  have "0 < half" using assms by (auto simp: before_dist)
  with assms have "dist a c = dist a b + dist b c" by (intro dist_add) simp
  with assms show ?thesis by (simp add: before_dist)
qed

lemma before_total:
  assumes "a \<noteq> b" "dist a b \<noteq> half"
  shows "before a b \<longleftrightarrow> \<not> before b a"
  using assms dist_swap [OF assms(1)] dist_zero [of a b] dist_zero [of b a]
  by (auto simp: before_dist)

lemma half_way_both: "dist a b = half \<Longrightarrow> a \<noteq> b \<Longrightarrow> before a b \<and> before b a"
  using dist_swap [of a b] dist_zero [of a b] dist_zero [of b a] by (auto simp: before_dist)

end

interpretation epoch: window_order "less :: u64 \<Rightarrow> u64 \<Rightarrow> bool" ahead "2 ^ 63"
proof unfold_locales
  fix a b c :: u64
  show "less a b \<longleftrightarrow> 0 < ahead a b \<and> ahead a b \<le> 2 ^ 63" by (rule less_ahead)
  show "ahead a b + ahead b c < 2 * 2 ^ 63 \<Longrightarrow> ahead a c = ahead a b + ahead b c"
    by (rule ahead_add) simp
  show "ahead a b = 0 \<longleftrightarrow> a = b"
    by (auto simp: ahead_def unat_eq_0)
  show "a \<noteq> b \<Longrightarrow> ahead a b + ahead b a = 2 * 2 ^ 63"
    using unat_u64 [of a] unat_u64 [of b] by (auto simp: ahead_def unat_diff_u64 word_unat_eq_iff)
qed

lemma next_nonzero_simp: "next_nonzero (x :: u64) = (if x = -1 then 1 else x + 1)"
  by (auto simp: next_nonzero_def Let_def eq_neg_iff_add_eq_0)

section \<open>Properties\<close>



text \<open>The two ways the code writes "at most" disagree half-way round: the static
  \<open>less_equal\<close>, which \<open>apply_remove\<close> uses, accepts a pair exactly \<open>2 ^ 63\<close> apart that the
  member operator \<open><=\<close>, defined as "not greater", rejects; everywhere else they agree.\<close>

theorem less_equal_vs_operator:
  fixes a b :: u64
  shows "less_equal a b \<noteq> ci_le a b \<longleftrightarrow> ahead a b = 2 ^ 63"
proof (cases "a = b")
  case True
  then show ?thesis by (simp add: less_equal_def ci_le_def less_def ahead_def)
next
  case False
  then have "0 < ahead a b" "0 < ahead b a" using epoch.dist_zero [of a b] epoch.dist_zero [of b a]
    by auto
  with False epoch.dist_swap [OF False] show ?thesis
    by (auto simp: less_equal_iff ci_le_def less_ahead)
qed

text \<open>\<open>next_nonzero\<close>, which advances the global log epoch, never returns 0 (the value
  that means "no epoch") and always moves ahead in the circular order.\<close>

theorem next_nonzero_correct: "next_nonzero (x :: u64) \<noteq> 0 \<and> less x (next_nonzero x)"
proof -
  have "x + 1 \<noteq> 0" if "x \<noteq> -1" using that by (simp add: eq_neg_iff_add_eq_0)
  then show ?thesis by (auto simp: next_nonzero_simp less_ahead ahead_def)
qed

text \<open>Subtracting timestamps borrows correctly across the packed halves: for timestamps
  whose microseconds are below a million, the result stands for the exact difference in
  microseconds and its own microseconds are again below a million.\<close>

theorem timestamp_sub_correct:
  assumes "kvts_lowpart a < 1000000" "kvts_lowpart b < 1000000" "unat b \<le> unat a"
  shows "usecs (timestamp_sub a b) = usecs a - usecs b \<and>
    kvts_lowpart (timestamp_sub a b) < 1000000"
  using timestamp_sub_usecs [OF assms] by linarith

theorem timestamp_sub_correct_witness:
  "usecs (timestamp_sub (timestamp_parts 7 5) (timestamp_parts 3 999999)) = 3000006"
  using timestamp_sub_correct [of "timestamp_parts 7 5" "timestamp_parts 3 999999"]
  by (simp add: kvts_parts timestamp_parts_def usecs_def push_bit_eq_mult)

end
