(* ===== verification/MT_Struct.thy ===== *)
theory MT_Struct
  imports KPermuter KSearch Node_Version MT_Key String_Bag Circular_Int
begin

text \<open>
  The nodes of the tree (\<open>masstree_struct.hh\<close>) with the default parameters of
  \<open>nodeparams\<close>: fifteen slots in leaves and internodes, 64-bit slices, 32-bit versions,
  binary search. A node lives at a nonzero address of the heap of the world \<open>mt\<close>, which
  also holds the root pointer of the table, the nodes handed to RCU and the pending
  layer collections. Operations take the world and return the new one; \<open>None\<close> is a null
  or wrong pointer, a failed assertion, or a spin that would wait for another thread: the
  theories of the tree run one operation at a time.
\<close>

unbundle bit_operations_syntax

section \<open>Parameters and data\<close>

type_synonym ptr = nat

abbreviation NP :: "u32 nodeversion_parameters" where
  "NP \<equiv> nodeversion_parameters32"

definition width :: nat where
  "width = 15"

definition ksuf_keylenx :: int where
  "ksuf_keylenx = 64"

definition layer_keylenx :: int where
  "layer_keylenx = 128"

datatype modstate = modstate_insert | modstate_remove | modstate_deleted_layer

text \<open>\<open>leafvalue\<close>, the union of a value and a node pointer. Which one it is, is told by the
  key length of the slot; \<open>LV_empty\<close> is \<open>make_empty\<close>.\<close>

datatype 'v leafvalue = LV_empty | LV_value 'v | LV_layer ptr

record 'v leaf =
  l_version :: u32
  l_extrasize64 :: int
  l_modstate :: modstate
  l_keylenx :: "int list"
  l_permutation :: u64
  l_ikey0 :: "u64 list"
  l_lv :: "'v leafvalue list"
  l_ksuf :: "stringbag option"
  l_next :: ptr
  l_prev :: ptr
  l_parent :: ptr
  l_phantom_epoch :: u64
  l_iksuf :: "stringbag option"

record internode =
  i_version :: u32
  i_nkeys :: nat
  i_height :: nat
  i_ikey0 :: "u64 list"
  i_child :: "ptr list"
  i_parent :: ptr

datatype 'v node = Leaf "'v leaf" | Internode internode

record 'v mt =
  mt_heap :: "ptr \<Rightarrow> 'v node option"
  mt_next :: ptr
  mt_root :: ptr
  mt_limbo :: "ptr list"
  mt_gc :: "(ptr \<times> bytes) list"

section \<open>Access to nodes\<close>

definition ld_leaf :: "'v mt \<Rightarrow> ptr \<Rightarrow> 'v leaf option" where
  "ld_leaf w p = (case mt_heap w p of Some (Leaf l) \<Rightarrow> Some l | _ \<Rightarrow> None)"

definition ld_inode :: "'v mt \<Rightarrow> ptr \<Rightarrow> internode option" where
  "ld_inode w p = (case mt_heap w p of Some (Internode n) \<Rightarrow> Some n | _ \<Rightarrow> None)"

definition st_node :: "'v mt \<Rightarrow> ptr \<Rightarrow> 'v node \<Rightarrow> 'v mt" where
  "st_node w p n = w\<lparr>mt_heap := (mt_heap w)(p \<mapsto> n)\<rparr>"

definition st_leaf :: "'v mt \<Rightarrow> ptr \<Rightarrow> 'v leaf \<Rightarrow> 'v mt" where
  "st_leaf w p l = st_node w p (Leaf l)"

definition st_inode :: "'v mt \<Rightarrow> ptr \<Rightarrow> internode \<Rightarrow> 'v mt" where
  "st_inode w p n = st_node w p (Internode n)"

text \<open>\<open>pool_allocate\<close> and placement new: a fresh nonzero address.\<close>

definition alloc_node :: "'v mt \<Rightarrow> 'v node \<Rightarrow> ptr \<times> 'v mt" where
  "alloc_node w n = (mt_next w, (st_node w (mt_next w) n)\<lparr>mt_next := mt_next w + 1\<rparr>)"

text \<open>\<open>deallocate_rcu\<close>: readers may still look at the node until a grace period has passed.\<close>

definition deallocate_rcu :: "'v mt \<Rightarrow> ptr \<Rightarrow> 'v mt" where
  "deallocate_rcu w p = w\<lparr>mt_limbo := mt_limbo w @ [p]\<rparr>"

fun node_version_of :: "'v node \<Rightarrow> u32" where
  "node_version_of (Leaf l) = l_version l"
| "node_version_of (Internode n) = i_version n"

fun node_set_version :: "u32 \<Rightarrow> 'v node \<Rightarrow> 'v node" where
  "node_set_version v (Leaf l) = Leaf (l\<lparr>l_version := v\<rparr>)"
| "node_set_version v (Internode n) = Internode (n\<lparr>i_version := v\<rparr>)"

definition node_version :: "'v mt \<Rightarrow> ptr \<Rightarrow> u32 option" where
  "node_version w p = map_option node_version_of (mt_heap w p)"

definition upd_version :: "'v mt \<Rightarrow> ptr \<Rightarrow> (u32 \<Rightarrow> u32) \<Rightarrow> 'v mt option" where
  "upd_version w p f = map_option (\<lambda>n. st_node w p (node_set_version (f (node_version_of n)) n)) (mt_heap w p)"

text \<open>\<open>node_base\<close>.\<close>

definition node_parent :: "'v mt \<Rightarrow> ptr \<Rightarrow> ptr option" where
  "node_parent w p = (case mt_heap w p of Some (Leaf l) \<Rightarrow> Some (l_parent l)
     | Some (Internode n) \<Rightarrow> Some (i_parent n) | None \<Rightarrow> None)"

definition parent_exists :: "ptr \<Rightarrow> bool" where
  "parent_exists p \<longleftrightarrow> p \<noteq> 0"

definition set_parent :: "'v mt \<Rightarrow> ptr \<Rightarrow> ptr \<Rightarrow> 'v mt option" where
  "set_parent w p q = (case mt_heap w p of Some (Leaf l) \<Rightarrow> Some (st_leaf w p (l\<lparr>l_parent := q\<rparr>))
     | Some (Internode n) \<Rightarrow> Some (st_inode w p (n\<lparr>i_parent := q\<rparr>)) | None \<Rightarrow> None)"

definition make_layer_root :: "'v mt \<Rightarrow> ptr \<Rightarrow> 'v mt option" where
  "make_layer_root w p = do { w \<leftarrow> set_parent w p 0; upd_version w p (nv_mark_root NP) }"

definition maybe_parent :: "'v mt \<Rightarrow> ptr \<Rightarrow> ptr option" where
  "maybe_parent w p = do { x \<leftarrow> node_parent w p; Some (if parent_exists x then x else p) }"

section \<open>The methods of \<open>nodeversion\<close> on a node\<close>

definition node_stable :: "'v mt \<Rightarrow> ptr \<Rightarrow> u32 option" where
  "node_stable w p = do { v \<leftarrow> node_version w p; nv_stable NP v }"

definition node_is_root :: "'v mt \<Rightarrow> ptr \<Rightarrow> bool option" where
  "node_is_root w p = map_option (nv_is_root NP) (node_version w p)"

definition node_has_changed :: "'v mt \<Rightarrow> ptr \<Rightarrow> u32 \<Rightarrow> bool option" where
  "node_has_changed w p x = map_option (\<lambda>v. nv_has_changed NP v x) (node_version w p)"

text \<open>\<open>lock(expected)\<close>: a round that fails reloads \<open>expected\<close>; when that finds the node locked
  nobody is there to unlock it.\<close>

definition node_lock :: "'v mt \<Rightarrow> ptr \<Rightarrow> u32 \<Rightarrow> ('v mt \<times> u32) option" where
  "node_lock w p expected = do {
     v \<leftarrow> node_version w p;
     (case nv_lock_round NP v expected of
        (v', Inl r) \<Rightarrow> do { w \<leftarrow> upd_version w p (\<lambda>_. v'); Some (w, r) }
      | (_, Inr e) \<Rightarrow> (case nv_lock_round NP v e of
          (v', Inl r) \<Rightarrow> do { w \<leftarrow> upd_version w p (\<lambda>_. v'); Some (w, r) }
        | (_, Inr _) \<Rightarrow> None)) }"

definition node_try_lock :: "'v mt \<Rightarrow> ptr \<Rightarrow> ('v mt \<times> bool) option" where
  "node_try_lock w p = do {
     v \<leftarrow> node_version w p;
     (case nv_try_lock NP v v of (v', ok) \<Rightarrow> do { w \<leftarrow> upd_version w p (\<lambda>_. v'); Some (w, ok) }) }"

definition node_unlock :: "'v mt \<Rightarrow> ptr \<Rightarrow> 'v mt option" where
  "node_unlock w p = upd_version w p (nv_unlock NP)"

section \<open>Internodes\<close>

definition internode_new :: "nat \<Rightarrow> internode" where
  "internode_new height = \<lparr>i_version = nv_make NP False, i_nkeys = 0, i_height = height,
     i_ikey0 = replicate width 0, i_child = replicate (width + 1) 0, i_parent = 0\<rparr>"

definition internode_make :: "'v mt \<Rightarrow> nat \<Rightarrow> ptr \<times> 'v mt" where
  "internode_make w height = alloc_node w (Internode (internode_new height))"

definition internode_compare_key :: "u64 \<Rightarrow> internode \<Rightarrow> nat \<Rightarrow> int" where
  "internode_compare_key a n bp = compare a (i_ikey0 n ! bp)"

definition internode_upper :: "u64 \<Rightarrow> internode \<Rightarrow> nat" where
  "internode_upper a n =
     bound_upper width bound_method_binary (internode_compare_key a n) identity_get (i_nkeys n)"

definition internode_assign :: "'v mt \<Rightarrow> ptr \<Rightarrow> nat \<Rightarrow> u64 \<Rightarrow> ptr \<Rightarrow> 'v mt option" where
  "internode_assign w self p ikey child = do {
     w \<leftarrow> set_parent w child self;
     n \<leftarrow> ld_inode w self;
     Some (st_inode w self (n\<lparr>i_child := (i_child n)[p + 1 := child], i_ikey0 := (i_ikey0 n)[p := ikey]\<rparr>)) }"

text \<open>\<open>copy_range p xs xp n ys\<close> is \<open>xs\<close> after \<open>memcpy\<close> or \<open>memmove\<close> of \<open>n\<close> elements of \<open>ys\<close>
  from \<open>xp\<close> to \<open>p\<close>. The children are shifted by loops that copy one pointer at a time, from
  the end or from the start.\<close>

definition copy_range :: "nat \<Rightarrow> 'a list \<Rightarrow> nat \<Rightarrow> nat \<Rightarrow> 'a list \<Rightarrow> 'a list" where
  "copy_range p xs xp n ys = take p xs @ take n (drop xp ys) @ drop (p + n) xs"

fun copy_backward :: "nat \<Rightarrow> nat \<Rightarrow> nat \<Rightarrow> 'a list \<Rightarrow> 'a list" where
  "copy_backward a b 0 xs = xs"
| "copy_backward a b (Suc n) xs = copy_backward (a - 1) (b - 1) n (xs[a := xs ! b])"

fun copy_forward :: "nat \<Rightarrow> nat \<Rightarrow> nat \<Rightarrow> 'a list \<Rightarrow> 'a list" where
  "copy_forward a b 0 xs = xs"
| "copy_forward a b (Suc n) xs = copy_forward (a + 1) (b + 1) n (xs[a := xs ! b])"

definition shift_from :: "nat \<Rightarrow> internode \<Rightarrow> nat \<Rightarrow> nat \<Rightarrow> internode \<Rightarrow> internode" where
  "shift_from p x xp n self =
     (if n \<noteq> 0 then
        self\<lparr>i_ikey0 := copy_range p (i_ikey0 self) xp n (i_ikey0 x),
             i_child := copy_range (p + 1) (i_child self) (xp + 1) n (i_child x)\<rparr>
      else self)"

definition shift_up :: "nat \<Rightarrow> nat \<Rightarrow> nat \<Rightarrow> internode \<Rightarrow> internode" where
  "shift_up p xp n self =
     self\<lparr>i_ikey0 := copy_range p (i_ikey0 self) xp n (i_ikey0 self),
          i_child := copy_backward (p + n) (xp + n) n (i_child self)\<rparr>"

definition shift_down :: "nat \<Rightarrow> nat \<Rightarrow> nat \<Rightarrow> internode \<Rightarrow> internode" where
  "shift_down p xp n self =
     self\<lparr>i_ikey0 := copy_range p (i_ikey0 self) xp n (i_ikey0 self),
          i_child := copy_forward (p + 1) (xp + 1) n (i_child self)\<rparr>"

section \<open>Leaves\<close>

text \<open>\<open>sizeof(leaf<P>)\<close> for the default parameters, without the suffix bag at its end.\<close>

definition leaf_sizeof :: nat where
  "leaf_sizeof = 312"

text \<open>The constructor; \<open>sz\<close> is the allocated size. Slots are not initialised by the code.\<close>

definition leaf_new :: "nat \<Rightarrow> u64 \<Rightarrow> 'v leaf option" where
  "leaf_new sz phantom_epoch =
     (if sz mod 64 = 0 \<and> sz div 64 < 128 then
        (let extra = int (sz div 64) - int ((leaf_sizeof + 63) div 64) in do {
           iksuf \<leftarrow> (if extra > 0 then map_option Some (sb_make 1 width (sz - leaf_sizeof)) else Some None);
           Some \<lparr>l_version = nv_make NP True, l_extrasize64 = extra, l_modstate = modstate_insert,
             l_keylenx = replicate width 0, l_permutation = make_empty width,
             l_ikey0 = replicate width 0, l_lv = replicate width LV_empty, l_ksuf = None,
             l_next = 0, l_prev = 0, l_parent = 0, l_phantom_epoch = phantom_epoch, l_iksuf = iksuf\<rparr> })
      else None)"

definition leaf_make :: "'v mt \<Rightarrow> nat \<Rightarrow> u64 \<Rightarrow> (ptr \<times> 'v mt) option" where
  "leaf_make w ksufsize phantom_epoch =
     (let sz = unat (iceil (word_of_nat (leaf_sizeof + min ksufsize 128)) 64) in do {
        l \<leftarrow> leaf_new sz phantom_epoch;
        Some (alloc_node w (Leaf l)) })"

text \<open>The leaf whose phantom epoch is taken over is given by its address, 0 for none.\<close>

definition leaf_make_root :: "'v mt \<Rightarrow> nat \<Rightarrow> ptr \<Rightarrow> (ptr \<times> 'v mt) option" where
  "leaf_make_root w ksufsize parent = do {
     epoch \<leftarrow> (if parent \<noteq> 0 then map_option l_phantom_epoch (ld_leaf w parent) else Some 0);
     (n, w) \<leftarrow> leaf_make w ksufsize epoch;
     l \<leftarrow> ld_leaf w n;
     let w = st_leaf w n (l\<lparr>l_next := 0, l_prev := 0, l_ikey0 := (l_ikey0 l)[0 := 0]\<rparr>);
     w \<leftarrow> make_layer_root w n;
     Some (n, w) }"

definition leaf_allocated_size :: "'v leaf \<Rightarrow> nat" where
  "leaf_allocated_size l =
     (let es = (if l_extrasize64 l \<ge> 0 then l_extrasize64 l else - l_extrasize64 l - 1)
      in (leaf_sizeof + nat es * 64 + 63) div 64 * 64)"

definition leaf_size :: "'v leaf \<Rightarrow> nat" where
  "leaf_size l = perm_size (l_permutation l)"

definition leaf_full_version_value :: "'v leaf \<Rightarrow> u32" where
  "leaf_full_version_value l = push_bit 4 (l_version l) + word_of_nat (leaf_size l)"

definition leaf_full_unlocked_version_value :: "'v leaf \<Rightarrow> u32" where
  "leaf_full_unlocked_version_value l =
     (let v = l_version l; v = (if nv_locked NP v then nv_unlock NP v else v)
      in push_bit 4 v + word_of_nat (leaf_size l))"

definition leaf_has_changed :: "'v leaf \<Rightarrow> u32 \<Rightarrow> u64 \<Rightarrow> bool" where
  "leaf_has_changed l oldv oldperm \<longleftrightarrow> nv_has_changed NP (l_version l) oldv \<or> oldperm \<noteq> l_permutation l"

definition leaf_ikey_bound :: "'v leaf \<Rightarrow> u64" where
  "leaf_ikey_bound l = l_ikey0 l ! 0"

definition leaf_compare_key :: "key \<Rightarrow> 'v leaf \<Rightarrow> nat \<Rightarrow> int" where
  "leaf_compare_key a l bp = key_compare a (l_ikey0 l ! bp) (l_keylenx l ! bp)"

definition leaf_lower :: "key \<Rightarrow> 'v leaf \<Rightarrow> key_indexed_position" where
  "leaf_lower a l =
     bound_lower width bound_method_binary (leaf_compare_key a l) (perm_get (l_permutation l)) (leaf_size l)"

definition keylenx_is_layer :: "int \<Rightarrow> bool" where
  "keylenx_is_layer keylenx \<longleftrightarrow> keylenx > 127"

definition keylenx_has_ksuf :: "int \<Rightarrow> bool" where
  "keylenx_has_ksuf keylenx \<longleftrightarrow> keylenx = ksuf_keylenx"

definition leaf_is_layer :: "'v leaf \<Rightarrow> nat \<Rightarrow> bool" where
  "leaf_is_layer l p \<longleftrightarrow> keylenx_is_layer (l_keylenx l ! p)"

definition leaf_has_ksuf :: "'v leaf \<Rightarrow> nat \<Rightarrow> bool" where
  "leaf_has_ksuf l p \<longleftrightarrow> keylenx_has_ksuf (l_keylenx l ! p)"

text \<open>The bag that \<open>ksuf\<close> reads: the external one when there is one.\<close>

definition leaf_bag :: "'v leaf \<Rightarrow> stringbag option" where
  "leaf_bag l = (case l_ksuf l of Some b \<Rightarrow> Some b | None \<Rightarrow> l_iksuf l)"

definition leaf_ksuf :: "'v leaf \<Rightarrow> nat \<Rightarrow> bytes option" where
  "leaf_ksuf l p = map_option (\<lambda>b. sb_get b p) (leaf_bag l)"

definition leaf_ksuf_equals :: "'v leaf \<Rightarrow> nat \<Rightarrow> key \<Rightarrow> bool option" where
  "leaf_ksuf_equals l p ka =
     (if \<not> keylenx_has_ksuf (l_keylenx l ! p) then Some True
      else do {
        b \<leftarrow> leaf_bag l;
        let (pos, len) = sb_info b ! p;
        Some (int len = key_suffix_length ka \<and>
          equals_sloppy (sb_mem b) pos (k_mem ka) (k_s ka + nat ikey_size) (int len)) })"

text \<open>1 for a match that is no layer, 0 for no match, negative for a layer.\<close>

definition leaf_ksuf_matches :: "'v leaf \<Rightarrow> nat \<Rightarrow> key \<Rightarrow> int option" where
  "leaf_ksuf_matches l p ka =
     (let keylenx = l_keylenx l ! p in
      if keylenx < ksuf_keylenx then Some 1
      else if keylenx = layer_keylenx then Some (- ikey_size)
      else do {
        b \<leftarrow> leaf_bag l;
        let (pos, len) = sb_info b ! p;
        Some (of_bool (int len = key_suffix_length ka \<and>
          equals_sloppy (sb_mem b) pos (k_mem ka) (k_s ka + nat ikey_size) (int len))) })"

definition leaf_ksuf_used_capacity :: "'v leaf \<Rightarrow> nat option" where
  "leaf_ksuf_used_capacity l =
     (case l_ksuf l of Some b \<Rightarrow> Some (sb_used_capacity b)
      | None \<Rightarrow> if l_extrasize64 l > 0 then map_option sb_used_capacity (l_iksuf l) else Some 0)"

definition leaf_ksuf_capacity :: "'v leaf \<Rightarrow> nat option" where
  "leaf_ksuf_capacity l =
     (case l_ksuf l of Some b \<Rightarrow> Some (sb_capacity_of b)
      | None \<Rightarrow> if l_extrasize64 l > 0 then map_option sb_capacity_of (l_iksuf l) else Some 0)"

definition leaf_deleted_layer :: "'v leaf \<Rightarrow> bool" where
  "leaf_deleted_layer l \<longleftrightarrow> l_modstate l = modstate_deleted_layer"

section \<open>Assigning a slot\<close>

text \<open>\<open>assign_ksuf\<close>: into the current bag when it fits, else into a new external bag that takes
  the live suffixes along. The old bag is freed by RCU, which the model leaves out.\<close>

definition assign_ksuf :: "'v leaf \<Rightarrow> nat \<Rightarrow> bytes \<Rightarrow> bool \<Rightarrow> 'v leaf option" where
  "assign_ksuf l p s initializing =
     (case Option.bind (l_ksuf l) (\<lambda>b. sb_assign b p s) of
        Some b \<Rightarrow> Some (l\<lparr>l_ksuf := Some b\<rparr>)
      | None \<Rightarrow>
     (case (if l_extrasize64 l > 0 then Option.bind (l_iksuf l) (\<lambda>b. sb_assign b p s) else None) of
        Some b \<Rightarrow> Some (l\<lparr>l_iksuf := Some b\<rparr>)
      | None \<Rightarrow>
        (let perm = l_permutation l;
             n = (if initializing then p else perm_size perm);
             mps = filter (\<lambda>mp. mp \<noteq> p \<and> leaf_has_ksuf l mp)
                     (map (\<lambda>i. if initializing then i else perm_get perm i) [0..<n])
         in do {
           sufs \<leftarrow> those (map (\<lambda>mp. map_option (Pair mp) (leaf_ksuf l mp)) mps);
           let csz = sum_list (map (length \<circ> snd) sufs);
           let sz = unat (iceil_log2 (word_of_nat (sb_safe_size 2 width (csz + length s))));
           let sz = (case l_ksuf l of Some b \<Rightarrow> max sz (sb_capacity_of b) | None \<Rightarrow> sz);
           nksuf \<leftarrow> sb_make 2 width sz;
           nksuf \<leftarrow> sb_assign_all nksuf sufs;
           nksuf \<leftarrow> sb_assign nksuf p s;
           Some (l\<lparr>l_ksuf := Some nksuf,
             l_extrasize64 := (if l_extrasize64 l \<ge> 0 then - l_extrasize64 l - 1 else l_extrasize64 l)\<rparr>) })))"

definition leaf_set_slot :: "'v leaf \<Rightarrow> nat \<Rightarrow> u64 \<Rightarrow> int \<Rightarrow> 'v leaf" where
  "leaf_set_slot l p ikey keylenx =
     l\<lparr>l_ikey0 := (l_ikey0 l)[p := ikey], l_keylenx := (l_keylenx l)[p := keylenx]\<rparr>"

definition leaf_assign_key :: "'v leaf \<Rightarrow> nat \<Rightarrow> key \<Rightarrow> bool \<Rightarrow> 'v leaf option" where
  "leaf_assign_key l p ka initializing =
     (let l = l\<lparr>l_lv := (l_lv l)[p := LV_empty]\<rparr> in
      if \<not> key_has_suffix ka then Some (leaf_set_slot l p (k_ikey0 ka) (k_len ka))
      else assign_ksuf (leaf_set_slot l p (k_ikey0 ka) ksuf_keylenx) p (key_suffix ka) initializing)"

definition leaf_assign :: "'v leaf \<Rightarrow> nat \<Rightarrow> key \<Rightarrow> 'v leaf option" where
  "leaf_assign l p ka = leaf_assign_key l p ka False"

definition leaf_assign_initialize :: "'v leaf \<Rightarrow> nat \<Rightarrow> key \<Rightarrow> 'v leaf option" where
  "leaf_assign_initialize l p ka = leaf_assign_key l p ka True"

definition leaf_assign_initialize_from :: "'v leaf \<Rightarrow> nat \<Rightarrow> 'v leaf \<Rightarrow> nat \<Rightarrow> 'v leaf option" where
  "leaf_assign_initialize_from l p x xp =
     (let l = leaf_set_slot (l\<lparr>l_lv := (l_lv l)[p := l_lv x ! xp]\<rparr>) p (l_ikey0 x ! xp) (l_keylenx x ! xp)
      in if leaf_has_ksuf x xp then do { s \<leftarrow> leaf_ksuf x xp; assign_ksuf l p s True } else Some l)"

definition leaf_assign_initialize_for_layer :: "'v leaf \<Rightarrow> nat \<Rightarrow> key \<Rightarrow> 'v leaf option" where
  "leaf_assign_initialize_for_layer l p ka =
     (if key_has_suffix ka then Some (leaf_set_slot l p (k_ikey0 ka) layer_keylenx) else None)"

definition leaf_mark_deleted_layer :: "'v leaf \<Rightarrow> 'v leaf" where
  "leaf_mark_deleted_layer l = l\<lparr>l_modstate := modstate_deleted_layer\<rparr>"

section \<open>Walking the tree\<close>

text \<open>The loops of this section end when the operation runs alone on a well-formed tree;
  as written in the code they may run forever, so they are partial functions and a run
  that does not end is \<open>None\<close>.\<close>

partial_function (option) locked_parent :: "'v mt \<Rightarrow> ptr \<Rightarrow> ('v mt \<times> ptr) option" where
  "locked_parent w n = do {
     p \<leftarrow> node_parent w n;
     if \<not> parent_exists p then Some (w, p)
     else do {
       pv \<leftarrow> node_version w p;
       (w, _) \<leftarrow> node_lock w p pv;
       p' \<leftarrow> node_parent w n;
       if p = p' then Some (w, p)
       else do { w \<leftarrow> node_unlock w p; locked_parent w n } } }"

declare locked_parent.simps [code]

partial_function (option) internode_stable_last_key_compare :: "'v mt \<Rightarrow> ptr \<Rightarrow> key \<Rightarrow> u32 \<Rightarrow> int option" where
  "internode_stable_last_key_compare w p k v = do {
     x \<leftarrow> ld_inode w p;
     let n = i_nkeys x;
     let cmp = (if n \<noteq> 0 then internode_compare_key (k_ikey0 k) x (n - 1) else 1);
     c \<leftarrow> node_has_changed w p v;
     if \<not> c then Some cmp
     else do { v \<leftarrow> node_stable w p; internode_stable_last_key_compare w p k v } }"

declare internode_stable_last_key_compare.simps [code]

partial_function (option) leaf_stable_last_key_compare :: "'v mt \<Rightarrow> ptr \<Rightarrow> key \<Rightarrow> u32 \<Rightarrow> int option" where
  "leaf_stable_last_key_compare w q k v = do {
     l \<leftarrow> ld_leaf w q;
     let n = leaf_size l;
     let p = perm_get (l_permutation l) (if n \<noteq> 0 then n - 1 else 0);
     let cmp = leaf_compare_key k l p;
     c \<leftarrow> node_has_changed w q v;
     if \<not> c then Some cmp
     else do { v \<leftarrow> node_stable w q; leaf_stable_last_key_compare w q k v } }"

declare leaf_stable_last_key_compare.simps [code]

text \<open>The first loop of \<open>reach_leaf\<close>: from a possibly stale root to the true one.\<close>

partial_function (option) reach_root :: "'v mt \<Rightarrow> ptr \<Rightarrow> (ptr \<times> u32) option" where
  "reach_root w n = do {
     v \<leftarrow> node_stable w n;
     if nv_is_root NP v then Some (n, v)
     else do { n \<leftarrow> maybe_parent w n; reach_root w n } }"

declare reach_root.simps [code]

text \<open>The second loop, at node \<open>n\<close> with its version; a \<open>retry\<close> starts again at \<open>this\<close>.\<close>

partial_function (option) reach_leaf_loop :: "'v mt \<Rightarrow> ptr \<Rightarrow> key \<Rightarrow> ptr \<Rightarrow> u32 \<Rightarrow> (ptr \<times> u32) option" where
  "reach_leaf_loop w this ka n v =
     (if nv_isleaf NP v then Some (n, v)
      else do {
        inn \<leftarrow> ld_inode w n;
        let kp = internode_upper (k_ikey0 ka) inn;
        let c = i_child inn ! kp;
        if c = 0 then do { (r, rv) \<leftarrow> reach_root w this; reach_leaf_loop w this ka r rv }
        else do {
          cv \<leftarrow> node_stable w c;
          ch \<leftarrow> node_has_changed w n v;
          if \<not> ch then reach_leaf_loop w this ka c cv
          else do {
            v' \<leftarrow> node_stable w n;
            cmp \<leftarrow> (if nv_has_split NP v v' then internode_stable_last_key_compare w n ka v' else Some 0);
            if cmp > 0 then do { (r, rv) \<leftarrow> reach_root w this; reach_leaf_loop w this ka r rv }
            else reach_leaf_loop w this ka n v' } } })"

declare reach_leaf_loop.simps [code]

definition reach_leaf :: "'v mt \<Rightarrow> ptr \<Rightarrow> key \<Rightarrow> (ptr \<times> u32) option" where
  "reach_leaf w this ka = do { (r, rv) \<leftarrow> reach_root w this; reach_leaf_loop w this ka r rv }"

partial_function (option) advance_loop :: "'v mt \<Rightarrow> key \<Rightarrow> ptr \<Rightarrow> u32 \<Rightarrow> (ptr \<times> u32) option" where
  "advance_loop w ka n v = do {
     l \<leftarrow> ld_leaf w n;
     let next = l_next l;
     if nv_deleted NP v \<or> next = 0 then Some (n, v)
     else do {
       nl \<leftarrow> ld_leaf w next;
       if compare (k_ikey0 ka) (leaf_ikey_bound nl) \<ge> 0
       then do { v \<leftarrow> node_stable w next; advance_loop w ka next v }
       else Some (n, v) } }"

declare advance_loop.simps [code]

definition advance_to_key :: "'v mt \<Rightarrow> ptr \<Rightarrow> key \<Rightarrow> u32 \<Rightarrow> (ptr \<times> u32) option" where
  "advance_to_key w n ka oldv = do {
     v \<leftarrow> node_stable w n;
     cmp \<leftarrow> (if nv_has_split NP v oldv then leaf_stable_last_key_compare w n ka v else Some 0);
     if cmp > 0 then advance_loop w ka n v else Some (n, v) }"

section \<open>The table\<close>

definition mt_empty :: "'v mt" where
  "mt_empty = \<lparr>mt_heap = (\<lambda>_. None), mt_next = 1, mt_root = 0, mt_limbo = [], mt_gc = []\<rparr>"

definition mt_initialize :: "'v mt \<Rightarrow> 'v mt option" where
  "mt_initialize w =
     (if mt_root w \<noteq> 0 then None
      else do { (r, w) \<leftarrow> leaf_make_root w 0 0; Some (w\<lparr>mt_root := r\<rparr>) })"

definition fix_root :: "'v mt \<Rightarrow> ('v mt \<times> ptr) option" where
  "fix_root w = (let root = mt_root w in do {
     isroot \<leftarrow> node_is_root w root;
     if \<not> isroot then do { r \<leftarrow> maybe_parent w root; Some (w\<lparr>mt_root := r\<rparr>, r) }
     else Some (w, root) })"

section \<open>Searching the nodes\<close>

text \<open>The keys of a node in search order: the separators of an internode as they are, the
  slots of a leaf in the order of its permutation, each as its rank.\<close>

definition inode_sorted :: "internode \<Rightarrow> bool" where
  "inode_sorted n \<longleftrightarrow> (\<forall>j < i_nkeys n. \<forall>i < j. i_ikey0 n ! i < i_ikey0 n ! j)"

definition leaf_slot_rank :: "'v leaf \<Rightarrow> nat \<Rightarrow> nat" where
  "leaf_slot_rank l p = slot_rank (l_ikey0 l ! p) (l_keylenx l ! p)"

definition leaf_ranks :: "'v leaf \<Rightarrow> nat list" where
  "leaf_ranks l = map (\<lambda>i. leaf_slot_rank l (perm_get (l_permutation l) i)) [0..<leaf_size l]"

definition leaf_sorted :: "'v leaf \<Rightarrow> bool" where
  "leaf_sorted l \<longleftrightarrow> sorted_wrt (<) (leaf_ranks l) \<and>
     (\<forall>i < leaf_size l. 0 \<le> l_keylenx l ! perm_get (l_permutation l) i)"

lemma internode_compare_sign:
  "internode_compare_key a n i < 0 \<longleftrightarrow> a < i_ikey0 n ! i"
  "0 < internode_compare_key a n i \<longleftrightarrow> i_ikey0 n ! i < a"
  "0 \<le> internode_compare_key a n i \<longleftrightarrow> i_ikey0 n ! i \<le> a"
  by (auto simp: internode_compare_key_def compare_def)

lemma leaf_ranks_less:
  assumes "leaf_sorted l" "i < j" "j < leaf_size l"
  shows "leaf_slot_rank l (perm_get (l_permutation l) i) < leaf_slot_rank l (perm_get (l_permutation l) j)"
  using assms by (auto simp: leaf_sorted_def leaf_ranks_def sorted_wrt_iff_nth_less)

lemma leaf_search_sorted:
  assumes l: "leaf_sorted l"
  shows "search_sorted (leaf_compare_key k l) (perm_get (l_permutation l)) (leaf_size l)"
  unfolding search_sorted_def
proof (intro allI impI)
  fix i j
  let ?p = "perm_get (l_permutation l)"
  assume j: "j < leaf_size l" and ge: "0 \<le> leaf_compare_key k l (?p j)" and i: "i < j"
  note less = leaf_ranks_less [OF l i j]
  have len: "0 \<le> l_keylenx l ! ?p i" "0 \<le> l_keylenx l ! ?p j"
    using l i j by (auto simp: leaf_sorted_def)
  show "0 < leaf_compare_key k l (?p i)"
  proof (cases "0 \<le> k_len k")
    case True
    from ge less show ?thesis
      unfolding leaf_compare_key_def leaf_slot_rank_def key_compare_rank(3) [OF True len(1)]
      using key_compare_rank(1) [OF True len(2), of "l_ikey0 l ! ?p j"] by linarith
  next
    case False
    have "l_ikey0 l ! ?p i \<le> l_ikey0 l ! ?p j"
      using less unfolding leaf_slot_rank_def slot_rank_less [OF len] by auto
    moreover have "l_ikey0 l ! ?p j < k_ikey0 k"
      using ge len(2) len False by (auto simp: leaf_compare_key_def key_compare_def compare_def Let_def ikey_size_def split: if_splits)
    ultimately have "l_ikey0 l ! ?p i < k_ikey0 k" by simp
    then show ?thesis
      by (auto simp: leaf_compare_key_def key_compare_def compare_def Let_def)
  qed
qed

interpretation inode_search: searchable_node inode_sorted internode_compare_key "\<lambda>_. identity_get" i_nkeys
  by unfold_locales
    (fastforce simp: inode_sorted_def search_sorted_def internode_compare_sign identity_get_def)

interpretation leaf_search: searchable_node leaf_sorted leaf_compare_key "\<lambda>l. perm_get (l_permutation l)" leaf_size
  by unfold_locales (rule leaf_search_sorted)

text \<open>C9: an internode with its separators in order sends a slice to the child whose range has
  it: every separator before the returned position is at most the slice, every one from
  there on is greater.\<close>

theorem internode_upper_correct:
  assumes "inode_sorted n"
  shows "internode_upper a n \<le> i_nkeys n \<and>
    (\<forall>i < internode_upper a n. i_ikey0 n ! i \<le> a) \<and>
    (\<forall>i < i_nkeys n. internode_upper a n \<le> i \<longrightarrow> a < i_ikey0 n ! i)"
  using inode_search.bound_upper_correct [OF assms, of a width bound_method_binary]
  by (simp add: is_upper_def internode_upper_def internode_compare_sign identity_get_def)

theorem internode_upper_correct_witness:
  "internode_upper 7 ((internode_new 0)\<lparr>i_nkeys := 2, i_ikey0 := [5, 9]\<rparr>) \<le> 2"
proof -
  have "inode_sorted ((internode_new 0)\<lparr>i_nkeys := 2, i_ikey0 := [5, 9]\<rparr>)"
    by (auto simp: inode_sorted_def less_2_cases_iff)
  from internode_upper_correct [OF this, of 7] show ?thesis by simp
qed

lemma leaf_lower_spec:
  assumes "leaf_sorted l" "0 \<le> k_len k"
  shows "\<exists>i \<le> leaf_size l. kx_i (leaf_lower k l) = int i \<and>
    (\<forall>j < i. leaf_slot_rank l (perm_get (l_permutation l) j) < key_rank k) \<and>
    (\<forall>j < leaf_size l. i < j \<longrightarrow> key_rank k < leaf_slot_rank l (perm_get (l_permutation l) j)) \<and>
    (if kx_p (leaf_lower k l) = -1
     then i < leaf_size l \<longrightarrow> key_rank k < leaf_slot_rank l (perm_get (l_permutation l) i)
     else i < leaf_size l \<and> kx_p (leaf_lower k l) = int (perm_get (l_permutation l) i) \<and>
       leaf_slot_rank l (perm_get (l_permutation l) i) = key_rank k) \<and>
    leaf_lower k l = bound_lower width bound_method_linear (leaf_compare_key k l)
      (perm_get (l_permutation l)) (leaf_size l)"
proof -
  have len: "0 \<le> l_keylenx l ! perm_get (l_permutation l) j" if "j < leaf_size l" for j
    using assms(1) that by (simp add: leaf_sorted_def)
  have cmp: "leaf_compare_key k l (perm_get (l_permutation l) j) < 0 \<longleftrightarrow>
      key_rank k < leaf_slot_rank l (perm_get (l_permutation l) j)"
    "leaf_compare_key k l (perm_get (l_permutation l) j) = 0 \<longleftrightarrow>
      leaf_slot_rank l (perm_get (l_permutation l) j) = key_rank k"
    "0 < leaf_compare_key k l (perm_get (l_permutation l) j) \<longleftrightarrow>
      leaf_slot_rank l (perm_get (l_permutation l) j) < key_rank k" if "j < leaf_size l" for j
    using key_compare_rank [OF assms(2) len [OF that]]
    by (auto simp: leaf_compare_key_def leaf_slot_rank_def)
  show ?thesis
    using leaf_search.bound_lower_correct [OF assms(1), of k width bound_method_binary]
      leaf_search.method_irrelevant(1) [OF assms(1), of width bound_method_binary k width bound_method_linear]
    unfolding is_lower_def leaf_lower_def [symmetric]
    by (elim exE conjE) (rule exI, intro conjI, assumption+, auto simp: cmp split: if_splits)
qed

text \<open>C8: \<open>leaf::lower_bound_binary\<close> on a leaf in order finds the slot whose rank is the key's
  and its position, or, when no slot has the rank, the position where the key goes;
  linear search would give the same answer.\<close>

theorem leaf_lower_correct:
  assumes "leaf_sorted l" "0 \<le> k_len k"
  shows "\<exists>i \<le> leaf_size l. kx_i (leaf_lower k l) = int i \<and>
    (\<forall>j < i. leaf_slot_rank l (perm_get (l_permutation l) j) < key_rank k) \<and>
    (\<forall>j < leaf_size l. i < j \<longrightarrow> key_rank k < leaf_slot_rank l (perm_get (l_permutation l) j)) \<and>
    (if kx_p (leaf_lower k l) = -1
     then i < leaf_size l \<longrightarrow> key_rank k < leaf_slot_rank l (perm_get (l_permutation l) i)
     else i < leaf_size l \<and> kx_p (leaf_lower k l) = int (perm_get (l_permutation l) i) \<and>
       leaf_slot_rank l (perm_get (l_permutation l) i) = key_rank k) \<and>
    leaf_lower k l = bound_lower width bound_method_linear (leaf_compare_key k l)
      (perm_get (l_permutation l)) (leaf_size l)"
  using leaf_lower_spec [OF assms] .

theorem leaf_lower_correct_witness:
  "\<exists>l :: nat leaf. leaf_size l = 1 \<and> leaf_sorted l \<and> leaf_lower (key_make [1] 0 1) l =
     bound_lower width bound_method_linear (leaf_compare_key (key_make [1] 0 1) l)
       (perm_get (l_permutation l)) (leaf_size l)"
proof -
  let ?l = "\<lparr>l_version = 0, l_extrasize64 = 0, l_modstate = modstate_insert, l_keylenx = [1],
    l_permutation = 1, l_ikey0 = [7], l_lv = [LV_value (5 :: nat)], l_ksuf = None, l_next = 0,
    l_prev = 0, l_parent = 0, l_phantom_epoch = 0, l_iksuf = None\<rparr>"
  have sz: "leaf_size ?l = 1" by (simp add: leaf_size_def perm_size_def)
  have "perm_get 1 0 = 0" by (simp add: perm_get_def)
  with sz have s: "leaf_sorted ?l" by (simp add: leaf_sorted_def leaf_ranks_def)
  have "0 \<le> k_len (key_make [1] 0 1)" by (simp add: key_make_def)
  from leaf_lower_correct [OF s this] s sz show ?thesis by blast
qed

end
