(* ===== verification/MT_Get.thy ===== *)
theory MT_Get
  imports MT_Struct
begin

text \<open>
  Lookup (\<open>masstree_get.hh\<close> and the cursors of \<open>masstree_tcursor.hh\<close>): \<open>find_unlocked\<close>
  descends without locks, layer by layer, and validates the version of the leaf after
  reading it; \<open>find_locked\<close> does the same and returns with the leaf locked.
\<close>

section \<open>The unlocked cursor\<close>

record 'v unlocked_tcursor =
  uc_n :: ptr
  uc_ka :: key
  uc_v :: u32
  uc_perm :: u64
  uc_lv :: "'v leafvalue"
  uc_root :: ptr

definition unlocked_tcursor_make :: "ptr \<Rightarrow> bytes \<Rightarrow> 'v unlocked_tcursor" where
  "unlocked_tcursor_make root s = \<lparr>uc_n = 0, uc_ka = key_make s 0 (int (length s)), uc_v = 0,
     uc_perm = 0, uc_lv = LV_empty, uc_root = root\<rparr>"

definition uc_full_version_value :: "'v unlocked_tcursor \<Rightarrow> u32" where
  "uc_full_version_value c = push_bit 4 (uc_v c) + word_of_nat (perm_size (uc_perm c))"

text \<open>From the label \<open>forward\<close>, with the leaf and its version in the cursor; \<open>root\<close> is the root
  of the current layer. A \<open>goto retry\<close> reaches for a leaf again.\<close>

partial_function (option) find_unlocked_forward ::
  "'v mt \<Rightarrow> ptr \<Rightarrow> 'v unlocked_tcursor \<Rightarrow> ('v unlocked_tcursor \<times> int) option" where
  "find_unlocked_forward w root c =
     (if nv_deleted NP (uc_v c) then do {
        (n, v) \<leftarrow> reach_leaf w root (uc_ka c);
        find_unlocked_forward w root (c\<lparr>uc_n := n, uc_v := v\<rparr>) }
      else do {
        l \<leftarrow> ld_leaf w (uc_n c);
        let c = c\<lparr>uc_perm := l_permutation l\<rparr>;
        let kx = leaf_lower (uc_ka c) l;
        (c, m) \<leftarrow> (if kx_p kx \<ge> 0 then do {
            m \<leftarrow> leaf_ksuf_matches l (nat (kx_p kx)) (uc_ka c);
            Some (c\<lparr>uc_lv := l_lv l ! nat (kx_p kx)\<rparr>, m) }
          else Some (c, 0));
        changed \<leftarrow> node_has_changed w (uc_n c) (uc_v c);
        if changed then do {
          (n, v) \<leftarrow> advance_to_key w (uc_n c) (uc_ka c) (uc_v c);
          find_unlocked_forward w root (c\<lparr>uc_n := n, uc_v := v\<rparr>) }
        else if m < 0 then
          (case uc_lv c of LV_layer root' \<Rightarrow> do {
             let ka = key_shift_by (uc_ka c) (nat (- m));
             (n, v) \<leftarrow> reach_leaf w root' ka;
             find_unlocked_forward w root' (c\<lparr>uc_ka := ka, uc_n := n, uc_v := v\<rparr>) }
           | _ \<Rightarrow> None)
        else Some (c, m) })"

declare find_unlocked_forward.simps [code]

definition find_unlocked :: "'v mt \<Rightarrow> 'v unlocked_tcursor \<Rightarrow> ('v unlocked_tcursor \<times> int) option" where
  "find_unlocked w c = do {
     (n, v) \<leftarrow> reach_leaf w (uc_root c) (uc_ka c);
     find_unlocked_forward w (uc_root c) (c\<lparr>uc_n := n, uc_v := v\<rparr>) }"

text \<open>\<open>basic_table::get\<close>: the value when the key is there. The slot then holds a value.\<close>

definition mt_get :: "'v mt \<Rightarrow> bytes \<Rightarrow> 'v option option" where
  "mt_get w key = do {
     (lp, found) \<leftarrow> find_unlocked w (unlocked_tcursor_make (mt_root w) key);
     if found \<noteq> 0 then (case uc_lv lp of LV_value v \<Rightarrow> Some (Some v) | _ \<Rightarrow> None)
     else Some None }"

section \<open>The locked cursor\<close>

record tcursor =
  tc_n :: ptr
  tc_ka :: key
  tc_kx :: key_indexed_position
  tc_root :: ptr
  tc_state :: int
  tc_original_n :: ptr
  tc_original_v :: u32
  tc_updated_v :: u32
  tc_new_nodes :: "(ptr \<times> u32) list"

definition tcursor_at :: "ptr \<Rightarrow> bytes \<Rightarrow> tcursor" where
  "tcursor_at root s = \<lparr>tc_n = 0, tc_ka = key_make s 0 (int (length s)), tc_kx = \<lparr>kx_i = 0, kx_p = 0\<rparr>,
     tc_root = root, tc_state = 0, tc_original_n = 0, tc_original_v = 0, tc_updated_v = 0, tc_new_nodes = []\<rparr>"

definition tcursor_make :: "'v mt \<Rightarrow> bytes \<Rightarrow> ('v mt \<times> tcursor) option" where
  "tcursor_make w s = do { (w, root) \<leftarrow> fix_root w; Some (w, tcursor_at root s) }"

definition tc_has_value :: "tcursor \<Rightarrow> bool" where
  "tc_has_value c \<longleftrightarrow> kx_p (tc_kx c) \<ge> 0"

definition tc_value :: "'v mt \<Rightarrow> tcursor \<Rightarrow> 'v leafvalue option" where
  "tc_value w c = map_option (\<lambda>l. l_lv l ! nat (kx_p (tc_kx c))) (ld_leaf w (tc_n c))"

definition tc_set_value :: "'v mt \<Rightarrow> tcursor \<Rightarrow> 'v \<Rightarrow> 'v mt option" where
  "tc_set_value w c v = do {
     l \<leftarrow> ld_leaf w (tc_n c);
     Some (st_leaf w (tc_n c) (l\<lparr>l_lv := (l_lv l)[nat (kx_p (tc_kx c)) := LV_value v]\<rparr>)) }"

definition tc_is_first_layer :: "tcursor \<Rightarrow> bool" where
  "tc_is_first_layer c \<longleftrightarrow> \<not> key_is_shifted (tc_ka c)"

definition tc_previous_full_version_value :: "'v mt \<Rightarrow> tcursor \<Rightarrow> u32 option" where
  "tc_previous_full_version_value w c = do {
     l \<leftarrow> ld_leaf w (tc_n c);
     Some (push_bit 4 (nv_unlocked_version_value NP (l_version l)) + word_of_nat (leaf_size l)) }"

definition tc_next_full_version_value :: "'v mt \<Rightarrow> tcursor \<Rightarrow> int \<Rightarrow> u32 option" where
  "tc_next_full_version_value w c state = do {
     l \<leftarrow> ld_leaf w (tc_n c);
     let result = push_bit 4 (nv_unlock NP (l_version l)) + word_of_nat (leaf_size l);
     Some (if state < 0 \<and> tc_state c AND 1 \<noteq> 0 then result - 1
           else if state > 0 \<and> tc_state c = 2 then result + 1 else result) }"

definition tc_reset_retry :: "tcursor \<Rightarrow> tcursor \<times> ptr" where
  "tc_reset_retry c = (c\<lparr>tc_ka := key_unshift_all (tc_ka c)\<rparr>, tc_root c)"

partial_function (option) find_locked_forward ::
  "'v mt \<Rightarrow> ptr \<Rightarrow> tcursor \<Rightarrow> u32 \<Rightarrow> ('v mt \<times> tcursor) option" where
  "find_locked_forward w root c v =
     (if nv_deleted NP v then do {
        (n, v) \<leftarrow> reach_leaf w root (tc_ka c);
        find_locked_forward w root (c\<lparr>tc_n := n\<rparr>) v }
      else do {
        let n = tc_n c;
        l \<leftarrow> ld_leaf w n;
        let perm = l_permutation l;
        let kx = leaf_lower (tc_ka c) l;
        let p = nat (kx_p kx);
        m \<leftarrow> (if kx_p kx \<ge> 0 then leaf_ksuf_matches l p (tc_ka c) else Some 0);
        let c = c\<lparr>tc_kx := kx, tc_state := m\<rparr>;
        down \<leftarrow> (if kx_p kx \<ge> 0 \<and> m < 0 \<and> \<not> nv_has_changed NP (l_version l) v then
            (case l_lv l ! p of LV_layer r \<Rightarrow> map_option (\<lambda>b. if b then r else 0) (node_is_root w r) | _ \<Rightarrow> None)
          else Some 0);
        if down \<noteq> 0 then do {
          let ka = key_shift_by (tc_ka c) (nat (- m));
          (n, v) \<leftarrow> reach_leaf w down ka;
          find_locked_forward w down (c\<lparr>tc_ka := ka, tc_n := n\<rparr>) v }
        else do {
          (w, _) \<leftarrow> node_lock w n v;
          l \<leftarrow> ld_leaf w n;
          if nv_has_changed NP (l_version l) v \<or> l_permutation l \<noteq> perm then do {
            w \<leftarrow> node_unlock w n;
            (n, v) \<leftarrow> advance_to_key w n (tc_ka c) v;
            find_locked_forward w root (c\<lparr>tc_n := n\<rparr>) v }
          else if m < 0 then
            (case l_lv l ! p of LV_layer r \<Rightarrow> do {
               let ka = key_shift_by (tc_ka c) (nat (- m));
               r \<leftarrow> maybe_parent w r;
               let w = st_leaf w n (l\<lparr>l_lv := (l_lv l)[p := LV_layer r]\<rparr>);
               w \<leftarrow> node_unlock w n;
               (n, v) \<leftarrow> reach_leaf w r ka;
               find_locked_forward w r (c\<lparr>tc_ka := ka, tc_n := n\<rparr>) v }
             | _ \<Rightarrow> None)
          else if leaf_deleted_layer l then do {
            let ka = key_unshift_all (tc_ka c);
            w \<leftarrow> node_unlock w n;
            (n, v) \<leftarrow> reach_leaf w (tc_root c) ka;
            find_locked_forward w (tc_root c) (c\<lparr>tc_ka := ka, tc_n := n\<rparr>) v }
          else Some (w, c) } })"

declare find_locked_forward.simps [code]

definition find_locked :: "'v mt \<Rightarrow> tcursor \<Rightarrow> ('v mt \<times> tcursor) option" where
  "find_locked w c = do {
     (n, v) \<leftarrow> reach_leaf w (tc_root c) (tc_ka c);
     find_locked_forward w (tc_root c) (c\<lparr>tc_n := n\<rparr>) v }"

end
