(* ===== verification/MT_Scan.thy ===== *)
theory MT_Scan
  imports MT_Get
begin

text \<open>
  Range scans (\<open>masstree_scan.hh\<close>), forward and reverse. A scan keeps a position in one
  leaf, a stack of the layers above it and a key that it rewrites as it goes, so that it
  can find its place again; the four functions of \<open>scanstackelt\<close> are the transitions of
  a state machine that \<open>scan\<close> drives. What the caller's scanner does with leaves and
  values is a parameter.
\<close>

section \<open>State\<close>

datatype scan_state = scan_emit | scan_find_next | scan_down | scan_up | scan_retry

text \<open>The helper object: the direction, with the \<open>upper_bound_\<close> flag of the reverse one.\<close>

datatype scan_helper = forward_scan_helper | reverse_scan_helper bool

record scanstackelt =
  ss_root :: ptr
  ss_n :: ptr
  ss_v :: u32
  ss_perm :: u64
  ss_ki :: int
  ss_stack :: "ptr list"

definition ss_full_version_value :: "scanstackelt \<Rightarrow> u32" where
  "ss_full_version_value s = push_bit 4 (ss_v s) + word_of_nat (perm_size (ss_perm s))"

definition ss_kp :: "scanstackelt \<Rightarrow> int" where
  "ss_kp s = (if 0 \<le> ss_ki s \<and> ss_ki s < int (perm_size (ss_perm s))
     then int (perm_get (ss_perm s) (nat (ss_ki s))) else -1)"

section \<open>The helpers\<close>

fun initial_ksuf_match :: "scan_helper \<Rightarrow> int \<Rightarrow> bool \<Rightarrow> bool" where
  "initial_ksuf_match forward_scan_helper ksuf_compare emit_equal \<longleftrightarrow>
     ksuf_compare > 0 \<or> (ksuf_compare = 0 \<and> emit_equal)"
| "initial_ksuf_match (reverse_scan_helper _) ksuf_compare emit_equal \<longleftrightarrow>
     ksuf_compare < 0 \<or> (ksuf_compare = 0 \<and> emit_equal)"

fun is_duplicate :: "scan_helper \<Rightarrow> key \<Rightarrow> u64 \<Rightarrow> int \<Rightarrow> bool" where
  "is_duplicate forward_scan_helper k ikey keylenx \<longleftrightarrow> key_compare k ikey keylenx \<ge> 0"
| "is_duplicate (reverse_scan_helper upper_bound) k ikey keylenx \<longleftrightarrow>
     key_compare k ikey keylenx \<le> 0 \<and> \<not> upper_bound"

text \<open>\<open>lower_by\<close> searches the leaf through the permutation the scan has taken.\<close>

definition scan_lower_by :: "'v mt \<Rightarrow> key \<Rightarrow> scanstackelt \<Rightarrow> key_indexed_position option" where
  "scan_lower_by w k s = do {
     l \<leftarrow> ld_leaf w (ss_n s);
     Some (bound_lower MT_Struct.width bound_method_binary (leaf_compare_key k l)
       (perm_get (ss_perm s)) (perm_size (ss_perm s))) }"

fun helper_lower :: "scan_helper \<Rightarrow> 'v mt \<Rightarrow> key \<Rightarrow> scanstackelt \<Rightarrow> int option" where
  "helper_lower forward_scan_helper w k s = map_option kx_i (scan_lower_by w k s)"
| "helper_lower (reverse_scan_helper upper_bound) w k s =
     (if upper_bound then Some (int (perm_size (ss_perm s)) - 1)
      else map_option (\<lambda>kx. kx_i kx - of_bool (kx_p kx < 0)) (scan_lower_by w k s))"

fun lower_with_position :: "scan_helper \<Rightarrow> 'v mt \<Rightarrow> key \<Rightarrow> scanstackelt \<Rightarrow> key_indexed_position option" where
  "lower_with_position forward_scan_helper w k s = scan_lower_by w k s"
| "lower_with_position (reverse_scan_helper _) w k s =
     map_option (\<lambda>kx. kx\<lparr>kx_i := kx_i kx - of_bool (kx_p kx < 0)\<rparr>) (scan_lower_by w k s)"

fun mark_key_complete :: "scan_helper \<Rightarrow> scan_helper" where
  "mark_key_complete forward_scan_helper = forward_scan_helper"
| "mark_key_complete (reverse_scan_helper _) = reverse_scan_helper False"

fun helper_next :: "scan_helper \<Rightarrow> int \<Rightarrow> int" where
  "helper_next forward_scan_helper ki = ki + 1"
| "helper_next (reverse_scan_helper _) ki = ki - 1"

fun helper_advance :: "scan_helper \<Rightarrow> 'v mt \<Rightarrow> ptr \<Rightarrow> key \<Rightarrow> (ptr \<times> key) option" where
  "helper_advance forward_scan_helper w n k = do { l \<leftarrow> ld_leaf w n; Some (l_next l, k) }"
| "helper_advance (reverse_scan_helper _) w n k = do {
     l \<leftarrow> ld_leaf w n;
     Some (l_prev l, key_assign_store_length (key_assign_store_ikey k (leaf_ikey_bound l)) 0) }"

text \<open>The reverse helper walks right while the next leaf is at or below the key.\<close>

partial_function (option) reverse_stable :: "'v mt \<Rightarrow> ptr \<Rightarrow> key \<Rightarrow> (ptr \<times> u32) option" where
  "reverse_stable w n k = do {
     v \<leftarrow> node_stable w n;
     l \<leftarrow> ld_leaf w n;
     if l_next l = 0 then Some (n, v)
     else do {
       nl \<leftarrow> ld_leaf w (l_next l);
       let cmp = compare (k_ikey0 k) (leaf_ikey_bound nl);
       if cmp < 0 \<or> (cmp = 0 \<and> k_len k = 0) then Some (n, v)
       else reverse_stable w (l_next l) k } }"

declare reverse_stable.simps [code]

fun helper_stable :: "scan_helper \<Rightarrow> 'v mt \<Rightarrow> ptr \<Rightarrow> key \<Rightarrow> (ptr \<times> u32) option" where
  "helper_stable forward_scan_helper w n k = map_option (Pair n) (node_stable w n)"
| "helper_stable (reverse_scan_helper _) w n k = reverse_stable w n k"

fun helper_shift_clear :: "scan_helper \<Rightarrow> key \<Rightarrow> scan_helper \<times> key" where
  "helper_shift_clear forward_scan_helper ka = (forward_scan_helper, key_shift_clear ka)"
| "helper_shift_clear (reverse_scan_helper _) ka = (reverse_scan_helper True, key_shift_clear_reverse ka)"

section \<open>The transitions\<close>

text \<open>\<open>Str::compare\<close> as \<open>ksuf\<close> uses it: \<open>memcmp\<close> on the common length, then the lengths.\<close>

definition str_compare :: "bytes \<Rightarrow> bytes \<Rightarrow> int" where
  "str_compare a b =
     (let lencmp = int (length a) - int (length b);
          minlen = min (length a) (length b);
          cmp = memcmp (take minlen a) (take minlen b)
      in if cmp \<noteq> 0 then cmp else lencmp)"

text \<open>\<open>find_initial\<close> from \<open>retry_node\<close>, with the leaf and its version in the stack element.\<close>

partial_function (option) find_initial_node ::
  "scan_helper \<Rightarrow> 'v mt \<Rightarrow> key \<Rightarrow> bool \<Rightarrow> 'v leafvalue \<Rightarrow> scanstackelt \<Rightarrow>
   (scan_state \<times> key \<times> 'v leafvalue \<times> scanstackelt) option" where
  "find_initial_node h w ka emit_equal entry s =
     (if nv_deleted NP (ss_v s) then do {
        (n, v) \<leftarrow> reach_leaf w (ss_root s) ka;
        find_initial_node h w ka emit_equal entry (s\<lparr>ss_n := n, ss_v := v\<rparr>) }
      else do {
        l \<leftarrow> ld_leaf w (ss_n s);
        let s = s\<lparr>ss_perm := l_permutation l\<rparr>;
        kx \<leftarrow> lower_with_position h w ka s;
        let p = nat (kx_p kx);
        let keylenx = l_keylenx l ! p;
        let entry = (if kx_p kx \<ge> 0 then l_lv l ! p else entry);
        suffix \<leftarrow> (if kx_p kx \<ge> 0 \<and> keylenx_has_ksuf keylenx then leaf_ksuf l p else Some []);
        changed \<leftarrow> node_has_changed w (ss_n s) (ss_v s);
        if changed then do {
          (n, v) \<leftarrow> advance_to_key w (ss_n s) ka (ss_v s);
          find_initial_node h w ka emit_equal entry (s\<lparr>ss_n := n, ss_v := v\<rparr>) }
        else do {
          let s = s\<lparr>ss_ki := kx_i kx\<rparr>;
          if kx_p kx \<ge> 0 then
            (if keylenx_is_layer keylenx then
               (case entry of LV_layer r \<Rightarrow>
                  Some (scan_down, ka, entry,
                    s\<lparr>ss_stack := ss_stack s @ [ss_root s, ss_n s], ss_root := r\<rparr>)
                | _ \<Rightarrow> None)
             else if keylenx_has_ksuf keylenx \<and>
                 initial_ksuf_match h (str_compare suffix (key_suffix ka)) emit_equal then
               (let (ka, keylen) = key_assign_store_suffix ka suffix
                in Some (scan_emit, key_assign_store_length ka keylen, entry, s))
             else if \<not> keylenx_has_ksuf keylenx \<and> emit_equal then Some (scan_emit, ka, entry, s)
             else Some (scan_find_next, ka, entry, s\<lparr>ss_ki := helper_next h (ss_ki s)\<rparr>))
          else Some (scan_find_next, ka, entry, s) } })"

declare find_initial_node.simps [code]

definition find_initial ::
  "scan_helper \<Rightarrow> 'v mt \<Rightarrow> key \<Rightarrow> bool \<Rightarrow> 'v leafvalue \<Rightarrow> scanstackelt \<Rightarrow>
   (scan_state \<times> key \<times> 'v leafvalue \<times> scanstackelt) option" where
  "find_initial h w ka emit_equal entry s = do {
     (n, v) \<leftarrow> reach_leaf w (ss_root s) ka;
     find_initial_node h w ka emit_equal entry (s\<lparr>ss_n := n, ss_v := v\<rparr>) }"

partial_function (option) find_retry ::
  "scan_helper \<Rightarrow> 'v mt \<Rightarrow> key \<Rightarrow> scanstackelt \<Rightarrow> (scan_state \<times> scanstackelt) option" where
  "find_retry h w ka s = do {
     (n, v) \<leftarrow> reach_leaf w (ss_root s) ka;
     if nv_deleted NP v then find_retry h w ka (s\<lparr>ss_n := n, ss_v := v\<rparr>)
     else do {
       l \<leftarrow> ld_leaf w n;
       let s = s\<lparr>ss_n := n, ss_v := v, ss_perm := l_permutation l\<rparr>;
       ki \<leftarrow> helper_lower h w ka s;
       Some (scan_find_next, s\<lparr>ss_ki := ki\<rparr>) } }"

declare find_retry.simps [code]

text \<open>From the label \<open>changed\<close>: take the leaf's state anew.\<close>

definition find_next_changed ::
  "scan_helper \<Rightarrow> 'v mt \<Rightarrow> key \<Rightarrow> 'v leafvalue \<Rightarrow> scanstackelt \<Rightarrow>
   (scan_state \<times> scan_helper \<times> key \<times> 'v leafvalue \<times> scanstackelt) option" where
  "find_next_changed h w ka entry s = do {
     (n, v) \<leftarrow> helper_stable h w (ss_n s) ka;
     l \<leftarrow> ld_leaf w n;
     let s = s\<lparr>ss_n := n, ss_v := v, ss_perm := l_permutation l\<rparr>;
     ki \<leftarrow> helper_lower h w ka s;
     Some (scan_find_next, h, ka, entry, s\<lparr>ss_ki := ki\<rparr>) }"

partial_function (option) find_next_entry ::
  "scan_helper \<Rightarrow> 'v mt \<Rightarrow> key \<Rightarrow> 'v leafvalue \<Rightarrow> scanstackelt \<Rightarrow>
   (scan_state \<times> scan_helper \<times> key \<times> 'v leafvalue \<times> scanstackelt) option" where
  "find_next_entry h w ka entry s =
     (if ss_kp s \<ge> 0 then do {
        let kp = nat (ss_kp s);
        l \<leftarrow> ld_leaf w (ss_n s);
        let ikey = l_ikey0 l ! kp;
        let keylenx = l_keylenx l ! kp;
        let entry = l_lv l ! kp;
        (ka, keylen) \<leftarrow> (if keylenx_has_ksuf keylenx
           then map_option (key_assign_store_suffix ka) (leaf_ksuf l kp) else Some (ka, keylenx));
        changed \<leftarrow> node_has_changed w (ss_n s) (ss_v s);
        if changed then find_next_changed h w ka entry s
        else if is_duplicate h ka ikey keylenx
        then find_next_entry h w ka entry (s\<lparr>ss_ki := helper_next h (ss_ki s)\<rparr>)
        else do {
          let ka = key_assign_store_ikey ka ikey;
          let h = mark_key_complete h;
          if keylenx_is_layer keylenx then
            (case entry of LV_layer r \<Rightarrow>
               Some (scan_down, h, ka, entry,
                 s\<lparr>ss_stack := ss_stack s @ [ss_root s, ss_n s], ss_root := r\<rparr>)
             | _ \<Rightarrow> None)
          else Some (scan_emit, h, key_assign_store_length ka keylen, entry, s) } }
      else do {
        changed \<leftarrow> node_has_changed w (ss_n s) (ss_v s);
        if changed then find_next_changed h w ka entry s
        else do {
          (n, ka) \<leftarrow> helper_advance h w (ss_n s) ka;
          let s = s\<lparr>ss_n := n\<rparr>;
          if n = 0 then Some (scan_up, mark_key_complete h, ka, entry, s)
          else find_next_changed h w ka entry s } })"

declare find_next_entry.simps [code]

definition find_next ::
  "scan_helper \<Rightarrow> 'v mt \<Rightarrow> key \<Rightarrow> 'v leafvalue \<Rightarrow> scanstackelt \<Rightarrow>
   (scan_state \<times> scan_helper \<times> key \<times> 'v leafvalue \<times> scanstackelt) option" where
  "find_next h w ka entry s =
     (if nv_deleted NP (ss_v s) then Some (scan_retry, h, ka, entry, s)
      else find_next_entry h w ka entry s)"

section \<open>The scan\<close>

definition maxkeylen :: nat where
  "maxkeylen = 255"

text \<open>The caller's scanner: \<open>sc_leaf\<close> is \<open>visit_leaf\<close>, \<open>sc_value\<close> is \<open>visit_value\<close>, which gets
  the full key and says whether to go on. Both thread the scanner's own state.\<close>

record ('v, 'a) scanner =
  sc_leaf :: "scanstackelt \<Rightarrow> key \<Rightarrow> 'a \<Rightarrow> 'a"
  sc_value :: "bytes \<Rightarrow> 'v leafvalue \<Rightarrow> 'a \<Rightarrow> 'a \<times> bool"

record ('v, 'a) scan =
  sn_helper :: scan_helper
  sn_ka :: key
  sn_stack :: scanstackelt
  sn_entry :: "'v leafvalue"
  sn_count :: nat
  sn_acc :: 'a

partial_function (option) scan_descend ::
  "('v, 'a) scanner \<Rightarrow> 'v mt \<Rightarrow> bool \<Rightarrow> ('v, 'a) scan \<Rightarrow> (scan_state \<times> ('v, 'a) scan) option" where
  "scan_descend F w emit_firstkey x = do {
     (state, ka, entry, s) \<leftarrow> find_initial (sn_helper x) w (sn_ka x) emit_firstkey (sn_entry x) (sn_stack x);
     let x = x\<lparr>sn_ka := ka, sn_entry := entry, sn_stack := s, sn_acc := sc_leaf F s ka (sn_acc x)\<rparr>;
     if state \<noteq> scan_down then Some (state, x)
     else scan_descend F w emit_firstkey (x\<lparr>sn_ka := key_shift ka\<rparr>) }"

declare scan_descend.simps [code]

definition scan_do_find_next :: "'v mt \<Rightarrow> ('v, 'a) scan \<Rightarrow> (scan_state \<times> ('v, 'a) scan) option" where
  "scan_do_find_next w x = do {
     (state, h, ka, entry, s) \<leftarrow> find_next (sn_helper x) w (sn_ka x) (sn_entry x) (sn_stack x);
     Some (state, x\<lparr>sn_helper := h, sn_ka := ka, sn_entry := entry, sn_stack := s\<rparr>) }"

text \<open>The case \<open>scan_find_next\<close>, with its label.\<close>

definition scan_case_find_next ::
  "('v, 'a) scanner \<Rightarrow> 'v mt \<Rightarrow> ('v, 'a) scan \<Rightarrow> (scan_state \<times> ('v, 'a) scan) option" where
  "scan_case_find_next F w x = do {
     (state, x) \<leftarrow> scan_do_find_next w x;
     Some (state, if state \<noteq> scan_up
       then x\<lparr>sn_acc := sc_leaf F (sn_stack x) (sn_ka x) (sn_acc x)\<rparr> else x) }"

definition scan_do_retry :: "'v mt \<Rightarrow> ('v, 'a) scan \<Rightarrow> (scan_state \<times> ('v, 'a) scan) option" where
  "scan_do_retry w x = do {
     (state, s) \<leftarrow> find_retry (sn_helper x) w (sn_ka x) (sn_stack x);
     Some (state, x\<lparr>sn_stack := s\<rparr>) }"

text \<open>Popping layers; \<open>None\<close> in the result means the stack is empty and the scan is done.\<close>

partial_function (option) scan_pop :: "scanstackelt \<Rightarrow> key \<Rightarrow> (scanstackelt \<times> key) option option" where
  "scan_pop s ka =
     (if ss_stack s = [] then Some None
      else
        (let n = last (ss_stack s); st = butlast (ss_stack s);
             r = last st; st = butlast st;
             s = s\<lparr>ss_n := n, ss_root := r, ss_stack := st\<rparr>;
             ka = key_unshift ka
         in if key_empty ka then scan_pop s ka else Some (Some (s, ka))))"

declare scan_pop.simps [code]

text \<open>One turn of the state machine; \<open>Inr\<close> is \<open>goto done\<close>.\<close>

definition scan_turn ::
  "('v, 'a) scanner \<Rightarrow> 'v mt \<Rightarrow> scan_state \<Rightarrow> ('v, 'a) scan \<Rightarrow>
   ((scan_state \<times> ('v, 'a) scan) + ('v, 'a) scan) option" where
  "scan_turn F w state x =
     (case state of
        scan_emit \<Rightarrow>
          (let x = x\<lparr>sn_count := sn_count x + 1\<rparr>;
               (acc, go) = sc_value F (key_full_string (sn_ka x)) (sn_entry x) (sn_acc x);
               x = x\<lparr>sn_acc := acc\<rparr>
           in if \<not> go then Some (Inr x)
              else map_option Inl (scan_do_find_next w
                (x\<lparr>sn_stack := (sn_stack x)\<lparr>ss_ki := helper_next (sn_helper x) (ss_ki (sn_stack x))\<rparr>\<rparr>)))
      | scan_find_next \<Rightarrow> map_option Inl (scan_case_find_next F w x)
      | scan_up \<Rightarrow> do {
          popped \<leftarrow> scan_pop (sn_stack x) (sn_ka x);
          (case popped of
             None \<Rightarrow> Some (Inr x)
           | Some (s, ka) \<Rightarrow> do {
               (n, v) \<leftarrow> helper_stable (sn_helper x) w (ss_n s) ka;
               l \<leftarrow> ld_leaf w n;
               let s = s\<lparr>ss_n := n, ss_v := v, ss_perm := l_permutation l\<rparr>;
               ki \<leftarrow> helper_lower (sn_helper x) w ka s;
               map_option Inl (scan_case_find_next F w
                 (x\<lparr>sn_stack := s\<lparr>ss_ki := ki\<rparr>, sn_ka := ka\<rparr>)) }) }
      | scan_down \<Rightarrow>
          (let (h, ka) = helper_shift_clear (sn_helper x) (sn_ka x)
           in map_option Inl (scan_do_retry w (x\<lparr>sn_helper := h, sn_ka := ka\<rparr>)))
      | scan_retry \<Rightarrow> map_option Inl (scan_do_retry w x))"

partial_function (option) scan_loop ::
  "('v, 'a) scanner \<Rightarrow> 'v mt \<Rightarrow> scan_state \<Rightarrow> ('v, 'a) scan \<Rightarrow> ('v, 'a) scan option" where
  "scan_loop F w state x = do {
     r \<leftarrow> scan_turn F w state x;
     (case r of Inl (state, x) \<Rightarrow> scan_loop F w state x | Inr x \<Rightarrow> Some x) }"

declare scan_loop.simps [code]

text \<open>The key buffer holds the first key; the rest of it is not initialised by the code.\<close>

definition mt_scan_with ::
  "scan_helper \<Rightarrow> ('v, 'a) scanner \<Rightarrow> 'v mt \<Rightarrow> bytes \<Rightarrow> bool \<Rightarrow> 'a \<Rightarrow> (nat \<times> 'a) option" where
  "mt_scan_with h F w firstkey emit_firstkey acc =
     (if length firstkey > maxkeylen then None
      else do {
        let keybuf = firstkey @ replicate (maxkeylen - length firstkey) 0;
        (state, x) \<leftarrow> scan_descend F w emit_firstkey
          \<lparr>sn_helper = h, sn_ka = key_make keybuf 0 (int (length firstkey)),
           sn_stack = \<lparr>ss_root = mt_root w, ss_n = 0, ss_v = 0, ss_perm = 0, ss_ki = 0, ss_stack = []\<rparr>,
           sn_entry = LV_empty, sn_count = 0, sn_acc = acc\<rparr>;
        x \<leftarrow> scan_loop F w state x;
        Some (sn_count x, sn_acc x) })"

definition mt_scan :: "('v, 'a) scanner \<Rightarrow> 'v mt \<Rightarrow> bytes \<Rightarrow> bool \<Rightarrow> 'a \<Rightarrow> (nat \<times> 'a) option" where
  "mt_scan = mt_scan_with forward_scan_helper"

definition mt_rscan :: "('v, 'a) scanner \<Rightarrow> 'v mt \<Rightarrow> bytes \<Rightarrow> bool \<Rightarrow> 'a \<Rightarrow> (nat \<times> 'a) option" where
  "mt_rscan = mt_scan_with (reverse_scan_helper False)"

end
