(* ===== verification/MT_Split.thy ===== *)
theory MT_Split
  imports MT_Get
begin

text \<open>
  Splitting nodes (\<open>masstree_split.hh\<close>): \<open>leaf::split_into\<close> and \<open>internode::split_into\<close>
  distribute the slots of a full node and the new one over two nodes, and \<open>make_split\<close>
  carries the split up through the parents. The leaf list is linked as
  \<open>btree_leaflink\<close> links it when nobody else holds the mark.
\<close>

section \<open>\<open>leaf::split_into\<close>\<close>

definition ikey_after_insert :: "'v leaf \<Rightarrow> u64 \<Rightarrow> nat \<Rightarrow> tcursor \<Rightarrow> u64" where
  "ikey_after_insert l perm i c =
     (if int i < kx_i (tc_kx c) then l_ikey0 l ! perm_get perm i
      else if int i = kx_i (tc_kx c) then k_ikey0 (tc_ka c)
      else l_ikey0 l ! perm_get perm (i - 1))"

text \<open>The search for a split point with different slices on its two sides; positions are the
  integers of the code, which run out of the node when there is none.\<close>

partial_function (option) split_adjust ::
  "(nat \<Rightarrow> u64) \<Rightarrow> u64 \<Rightarrow> int \<Rightarrow> int \<Rightarrow> int \<Rightarrow> int option" where
  "split_adjust key_at mid_ikey w midl midr =
     (if midr \<le> w \<and> mid_ikey \<noteq> key_at (nat midr) then Some midr
      else if midl \<ge> 0 \<and> mid_ikey \<noteq> key_at (nat midl) then Some (midl + 1)
      else split_adjust key_at mid_ikey w (midl - 1) (midr + 1))"

declare split_adjust.simps [code]

definition leaf_split_mid :: "'v leaf \<Rightarrow> tcursor \<Rightarrow> nat option" where
  "leaf_split_mid l c =
     (let perml = l_permutation l;
          w = perm_size perml;
          p = nat (kx_i (tc_kx c));
          mid = (if p = 0 \<and> l_prev l = 0 then 1
                 else if p = w \<and> l_next l = 0 then w
                 else width div 2 + 1);
          key_at = (\<lambda>i. ikey_after_insert l perml i c)
      in if key_at mid = key_at (mid - 1)
         then map_option nat (split_adjust key_at (key_at mid) (int w) (int mid - 2) (int mid + 1))
         else Some mid)"

text \<open>The loop that moves the items from position \<open>x\<close> on to the new leaf.\<close>

fun split_move :: "'v leaf \<Rightarrow> key \<Rightarrow> nat \<Rightarrow> nat \<Rightarrow> nat \<Rightarrow> nat \<Rightarrow> u64 \<Rightarrow> 'v leaf \<Rightarrow> 'v leaf option" where
  "split_move l ka mid p 0 x pv nr = Some nr"
| "split_move l ka mid p (Suc n) x pv nr =
     (if x = p then do {
        nr \<leftarrow> leaf_assign_initialize nr (x - mid) ka;
        split_move l ka mid p n (x + 1) pv nr }
      else do {
        nr \<leftarrow> leaf_assign_initialize_from nr (x - mid) l (unat (pv AND 15));
        split_move l ka mid p n (x + 1) (drop_bit 4 pv) nr })"

text \<open>\<open>btree_leaflink::link_split\<close> run alone: the mark it sets on the next pointer is
  overwritten before it returns.\<close>

definition link_split :: "'v mt \<Rightarrow> ptr \<Rightarrow> ptr \<Rightarrow> 'v mt option" where
  "link_split w n nr = do {
     r \<leftarrow> ld_leaf w nr;
     let w = st_leaf w nr (r\<lparr>l_prev := n\<rparr>);
     l \<leftarrow> ld_leaf w n;
     let next = l_next l;
     r \<leftarrow> ld_leaf w nr;
     let w = st_leaf w nr (r\<lparr>l_next := next\<rparr>);
     w \<leftarrow> (if next \<noteq> 0 then do { x \<leftarrow> ld_leaf w next; Some (st_leaf w next (x\<lparr>l_prev := nr\<rparr>)) } else Some w);
     l \<leftarrow> ld_leaf w n;
     Some (st_leaf w n (l\<lparr>l_next := nr\<rparr>)) }"

text \<open>What \<open>split_into\<close> makes of the new leaf: its slots, its permutation and the split type.\<close>

definition leaf_split_right :: "'v leaf \<Rightarrow> tcursor \<Rightarrow> 'v leaf \<Rightarrow> ('v leaf \<times> nat) option" where
  "leaf_split_right l c r =
     (if leaf_size l < width - 1 then None
      else do {
        mid \<leftarrow> leaf_split_mid l c;
        let perml = l_permutation l;
        let w = perm_size perml;
        let p = nat (kx_i (tc_kx c));
        let pv = value_from perml (mid - of_bool (p < mid));
        r \<leftarrow> split_move l (tc_ka c) mid p (w + 1 - mid) mid pv r;
        let permr = make_sorted width (w + 1 - mid);
        let permr = (if p \<ge> mid then remove_to_back width permr (p - mid) else permr);
        Some (r\<lparr>l_permutation := permr\<rparr>, if p < mid then 0 else 1 + of_bool (mid = w)) })"

definition leaf_split_into :: "'v mt \<Rightarrow> ptr \<Rightarrow> ptr \<Rightarrow> tcursor \<Rightarrow> ('v mt \<times> u64 \<times> nat) option" where
  "leaf_split_into w self nr c = do {
     l \<leftarrow> ld_leaf w self;
     r \<leftarrow> ld_leaf w nr;
     (r, split_type) \<leftarrow> leaf_split_right l c r;
     let w = st_leaf w nr r;
     w \<leftarrow> link_split w self nr;
     Some (w, l_ikey0 r ! 0, split_type) }"

section \<open>\<open>internode::split_into\<close>\<close>

text \<open>Sets the parent of each child in turn.\<close>

fun set_parents :: "'v mt \<Rightarrow> ptr list \<Rightarrow> ptr \<Rightarrow> 'v mt option" where
  "set_parents w [] q = Some w"
| "set_parents w (c # cs) q = do { w \<leftarrow> set_parent w c q; set_parents w cs q }"

text \<open>The contents of the two nodes and the split key. \<open>assign\<close> sets the parent of \<open>value\<close>, which
  the loop over all children of \<open>nr\<close> repeats.\<close>

definition internode_split_nodes ::
  "internode \<Rightarrow> internode \<Rightarrow> nat \<Rightarrow> u64 \<Rightarrow> ptr \<Rightarrow> nat \<Rightarrow> internode \<times> internode \<times> u64 \<times> int" where
  "internode_split_nodes n nr p ka v split_type =
     (let mid = (if split_type = 2 then width else (width + 1) div 2);
          nr = nr\<lparr>i_nkeys := width + 1 - (mid + 1)\<rparr>;
          (nr, split_ikey) =
            (if p < mid then
               (shift_from 0 n mid (width - mid) (nr\<lparr>i_child := (i_child nr)[0 := i_child n ! mid]\<rparr>),
                i_ikey0 n ! (mid - 1))
             else if p = mid then
               (shift_from 0 n mid (width - mid) (nr\<lparr>i_child := (i_child nr)[0 := v]\<rparr>), ka)
             else
               (let nr = nr\<lparr>i_child := (i_child nr)[0 := i_child n ! (mid + 1)]\<rparr>;
                    nr = shift_from 0 n (mid + 1) (p - (mid + 1)) nr;
                    nr = nr\<lparr>i_child := (i_child nr)[p - (mid + 1) + 1 := v],
                            i_ikey0 := (i_ikey0 nr)[p - (mid + 1) := ka]\<rparr>;
                    nr = shift_from (p + 1 - (mid + 1)) n p (width - p) nr
                in (nr, i_ikey0 n ! mid)));
          n = n\<lparr>i_version := nv_mark_split NP (i_version n)\<rparr>
      in if p < mid then (n\<lparr>i_nkeys := mid - 1\<rparr>, nr, split_ikey, int p)
         else (n\<lparr>i_nkeys := mid\<rparr>, nr, split_ikey, -1))"

definition internode_split_into ::
  "'v mt \<Rightarrow> ptr \<Rightarrow> ptr \<Rightarrow> nat \<Rightarrow> u64 \<Rightarrow> ptr \<Rightarrow> nat \<Rightarrow> ('v mt \<times> u64 \<times> int) option" where
  "internode_split_into w self nr p ka v split_type = do {
     n \<leftarrow> ld_inode w self;
     r \<leftarrow> ld_inode w nr;
     let (n', r', split_ikey, kp) = internode_split_nodes n r p ka v split_type;
     let w = st_inode w nr r';
     w \<leftarrow> set_parents w (take (i_nkeys r' + 1) (i_child r')) nr;
     n \<leftarrow> ld_inode w self;
     Some (st_inode w self (n\<lparr>i_version := i_version n', i_nkeys := i_nkeys n'\<rparr>), split_ikey, kp) }"

section \<open>\<open>make_split\<close>\<close>

text \<open>The last step at the leaf: the left leaf is cut down to its share, and the cursor moves to
  the leaf that takes the new key.\<close>

definition split_finish_leaf :: "'v mt \<Rightarrow> tcursor \<Rightarrow> ptr \<Rightarrow> ptr \<Rightarrow> nat \<Rightarrow> ('v mt \<times> tcursor) option" where
  "split_finish_leaf w c nl nr split_type = do {
     l \<leftarrow> ld_leaf w nl;
     r \<leftarrow> ld_leaf w nr;
     let perml = l_permutation l;
     let wd = perm_size perml;
     let perml = set_size perml (wd - leaf_size r);
     let perml = (if wd \<noteq> width then exchange perml (perm_size perml) (width - 1) else perml);
     let l = l\<lparr>l_version := nv_mark_split NP (l_version l), l_permutation := perml\<rparr>;
     if split_type = 0 then do {
       let kp = perm_back width perml;
       l \<leftarrow> leaf_assign l kp (tc_ka c);
       Some (st_leaf w nl l, c\<lparr>tc_kx := (tc_kx c)\<lparr>kx_p := int kp\<rparr>,
         tc_new_nodes := tc_new_nodes c @ [(nr, leaf_full_unlocked_version_value r)]\<rparr>) }
     else do {
       let i = kx_i (tc_kx c) - int (perm_size perml);
       Some (st_leaf w nl l, c\<lparr>tc_kx := \<lparr>kx_i = i, kx_p = i\<rparr>, tc_n := nr,
         tc_updated_v := leaf_full_unlocked_version_value l\<rparr>) } }"

text \<open>Inserts the split of node \<open>n\<close> with new sibling \<open>child\<close> and separating slice \<open>xikey\<close> into the
  parent \<open>p\<close> (0 when \<open>n\<close> is the root of its layer). The result has the sibling of \<open>p\<close> when \<open>p\<close>
  itself was split (0 otherwise), and its separating slice.\<close>

definition split_insert_parent ::
  "'v mt \<Rightarrow> ptr \<Rightarrow> ptr \<Rightarrow> ptr \<Rightarrow> u64 \<Rightarrow> nat \<Rightarrow> nat \<Rightarrow> ('v mt \<times> ptr \<times> u64) option" where
  "split_insert_parent w n child p xikey height split_type =
     (if \<not> parent_exists p then do {
        let (nn, w) = internode_make w (height + 1);
        x \<leftarrow> ld_inode w nn;
        let w = st_inode w nn (x\<lparr>i_child := (i_child x)[0 := n]\<rparr>);
        w \<leftarrow> internode_assign w nn 0 xikey child;
        x \<leftarrow> ld_inode w nn;
        let w = st_inode w nn (x\<lparr>i_nkeys := 1\<rparr>);
        w \<leftarrow> make_layer_root w nn;
        w \<leftarrow> set_parent w n nn;
        Some (w, 0, 0) }
      else do {
        x \<leftarrow> ld_inode w p;
        let kp = internode_upper xikey x;
        w \<leftarrow> upd_version w p (nv_mark_insert NP);
        if i_height x > height + 1 then do {
          let (nn, w) = internode_make w (height + 1);
          x \<leftarrow> ld_inode w nn;
          let w = st_inode w nn (x\<lparr>i_child := (i_child x)[0 := n]\<rparr>);
          w \<leftarrow> internode_assign w nn 0 xikey child;
          x \<leftarrow> ld_inode w nn;
          let w = st_inode w nn (x\<lparr>i_nkeys := 1\<rparr>);
          w \<leftarrow> set_parent w nn p;
          x \<leftarrow> ld_inode w p;
          let w = st_inode w p (x\<lparr>i_child := (i_child x)[kp := nn]\<rparr>);
          w \<leftarrow> set_parent w n nn;
          Some (w, 0, 0) }
        else do {
          (w, next_child, xikey', kp) \<leftarrow>
            (if i_nkeys x \<ge> width then do {
               let (nc, w) = internode_make w (height + 1);
               x \<leftarrow> ld_inode w p;
               w \<leftarrow> upd_version w nc (\<lambda>_. nv_mark_nonroot NP (i_version x));
               (w, xikey', kp') \<leftarrow> internode_split_into w p nc kp xikey child split_type;
               Some (w, nc, xikey', kp') }
             else Some (w, 0, 0, int kp));
          w \<leftarrow> (if kp \<ge> 0 then do {
              x \<leftarrow> ld_inode w p;
              let w = st_inode w p (shift_up (nat kp + 1) (nat kp) (i_nkeys x - nat kp) x);
              w \<leftarrow> internode_assign w p (nat kp) xikey child;
              x \<leftarrow> ld_inode w p;
              Some (st_inode w p (x\<lparr>i_nkeys := i_nkeys x + 1\<rparr>)) }
            else Some w);
          Some (w, next_child, xikey') } })"

text \<open>One level per round, hand over hand: \<open>n\<close> and \<open>child\<close> are locked when a round starts.\<close>

partial_function (option) make_split_loop ::
  "'v mt \<Rightarrow> tcursor \<Rightarrow> ptr \<Rightarrow> ptr \<Rightarrow> u64 \<Rightarrow> nat \<Rightarrow> nat \<Rightarrow> ('v mt \<times> tcursor) option" where
  "make_split_loop w c n child xikey height split_type = do {
     (w, p) \<leftarrow> locked_parent w n;
     (w, next_child, xikey') \<leftarrow> split_insert_parent w n child p xikey height split_type;
     (w, c) \<leftarrow> (if n = tc_n c then split_finish_leaf w c n child split_type else Some (w, c));
     w \<leftarrow> (if n \<noteq> tc_n c then node_unlock w n else Some w);
     w \<leftarrow> (if child \<noteq> tc_n c then node_unlock w child else Some w);
     if next_child \<noteq> 0 then make_split_loop w c p next_child xikey' (height + 1) split_type
     else if p \<noteq> 0 then do { w \<leftarrow> node_unlock w p; Some (w, c) }
     else Some (w, c) }"

declare make_split_loop.simps [code]

text \<open>First the attempt to get by without a split, when only slot 0 is free and may not be used.\<close>

definition make_split :: "'v mt \<Rightarrow> tcursor \<Rightarrow> ('v mt \<times> tcursor) option" where
  "make_split w c = do {
     let n = tc_n c;
     l \<leftarrow> ld_leaf w n;
     let perm = exchange (l_permutation l) (leaf_size l) (width - 1);
     let kp = perm_back width perm;
     if leaf_size l < width \<and> kp \<noteq> 0 then do {
       l \<leftarrow> leaf_assign (l\<lparr>l_permutation := perm\<rparr>) kp (tc_ka c);
       Some (st_leaf w n l, c\<lparr>tc_kx := (tc_kx c)\<lparr>kx_p := int kp\<rparr>\<rparr>) }
     else do {
       let c = (if leaf_size l < width then c\<lparr>tc_kx := (tc_kx c)\<lparr>kx_p := int kp\<rparr>\<rparr> else c);
       cap \<leftarrow> leaf_ksuf_used_capacity l;
       (child, w) \<leftarrow> leaf_make w cap (l_phantom_epoch l);
       w \<leftarrow> upd_version w child (\<lambda>_. l_version l);
       (w, xikey, split_type) \<leftarrow> leaf_split_into w n child c;
       make_split_loop w c n child xikey 0 split_type } }"

end
