(* ===== verification/MT_Remove.thy ===== *)
theory MT_Remove
  imports MT_Get
begin

text \<open>
  Removal (\<open>masstree_remove.hh\<close>): taking a key out of its leaf, unlinking a leaf that
  became empty from the leaf list and from its parents, collecting a layer that became
  empty (\<open>gc_layer\<close>, run later as an RCU callback), and destroying a tree.
\<close>

section \<open>Removing a leaf\<close>

text \<open>\<open>btree_leaflink::unlink\<close> run alone.\<close>

definition unlink :: "'v mt \<Rightarrow> ptr \<Rightarrow> 'v mt option" where
  "unlink w n = do {
     l \<leftarrow> ld_leaf w n;
     let next = l_next l;
     let prev = l_prev l;
     pl \<leftarrow> ld_leaf w prev;
     if l_next pl \<noteq> n then None
     else do {
       w \<leftarrow> (if next \<noteq> 0 then do { x \<leftarrow> ld_leaf w next; Some (st_leaf w next (x\<lparr>l_prev := prev\<rparr>)) } else Some w);
       pl \<leftarrow> ld_leaf w prev;
       Some (st_leaf w prev (pl\<lparr>l_next := next\<rparr>)) } }"

text \<open>\<open>redirect\<close>: rewrites the separating slice of the nearest ancestor that has one.\<close>

partial_function (option) redirect_loop :: "'v mt \<Rightarrow> ptr \<Rightarrow> int \<Rightarrow> u64 \<Rightarrow> u64 \<Rightarrow> 'v mt option" where
  "redirect_loop w n kp ikey replacement_ikey = do {
     (w, p) \<leftarrow> locked_parent w n;
     w \<leftarrow> (if kp \<ge> 0 then node_unlock w n else Some w);
     x \<leftarrow> ld_inode w p;
     let k = internode_upper ikey x;
     let w = (if k > 0 then st_inode w p (x\<lparr>i_ikey0 := (i_ikey0 x)[k - 1 := replacement_ikey]\<rparr>) else w);
     if k = 0 \<or> (k = 1 \<and> i_child x ! 0 = 0) then redirect_loop w p (int k) ikey replacement_ikey
     else node_unlock w p }"

declare redirect_loop.simps [code]

definition redirect :: "'v mt \<Rightarrow> ptr \<Rightarrow> u64 \<Rightarrow> u64 \<Rightarrow> 'v mt option" where
  "redirect w n ikey replacement_ikey = redirect_loop w n (-1) ikey replacement_ikey"

text \<open>One level of the collapse: the child at \<open>kp\<close> of \<open>p\<close> becomes \<open>replacement\<close>, or goes away.\<close>

definition remove_child :: "internode \<Rightarrow> nat \<Rightarrow> ptr \<Rightarrow> internode" where
  "remove_child x kp replacement =
     (let x = x\<lparr>i_child := (i_child x)[kp := replacement]\<rparr> in
      if replacement = 0 \<and> kp > 0
      then (shift_down (kp - 1) kp (i_nkeys x - kp) x)\<lparr>i_nkeys := i_nkeys x - 1\<rparr>
      else x)"

partial_function (option) remove_leaf_loop :: "'v mt \<Rightarrow> ptr \<Rightarrow> u64 \<Rightarrow> ptr \<Rightarrow> 'v mt option" where
  "remove_leaf_loop w n ikey replacement = do {
     (w, p) \<leftarrow> locked_parent w n;
     w \<leftarrow> upd_version w p (nv_mark_insert NP);
     x \<leftarrow> ld_inode w p;
     let kp = internode_upper ikey x;
     let x = remove_child x kp replacement;
     let w = st_inode w p x;
     w \<leftarrow> (if replacement \<noteq> 0 then set_parent w replacement p else Some w);
     (w, ikey) \<leftarrow> (if kp \<le> 1 \<and> i_nkeys x > 0 \<and> i_child x ! 0 = 0
        then do { w \<leftarrow> redirect w p ikey (i_ikey0 x ! 0); Some (w, i_ikey0 x ! 0) }
        else Some (w, ikey));
     w \<leftarrow> node_unlock w n;
     root \<leftarrow> node_is_root w p;
     if i_nkeys x \<noteq> 0 \<or> root then node_unlock w p
     else do {
       w \<leftarrow> upd_version w p (nv_mark_deleted NP);
       let w = deallocate_rcu w p;
       x \<leftarrow> ld_inode w p;
       let replacement = i_child x ! 0;
       let w = st_inode w p (x\<lparr>i_child := (i_child x)[0 := 0]\<rparr>);
       remove_leaf_loop w p ikey replacement } }"

declare remove_leaf_loop.simps [code]

text \<open>The leaf that takes over the keys keeps the larger phantom epoch.\<close>

definition propagate_phantom_epoch :: "'v mt \<Rightarrow> ptr \<Rightarrow> u64 \<Rightarrow> 'v mt option" where
  "propagate_phantom_epoch w prev epoch = do {
     pl \<leftarrow> ld_leaf w prev;
     Some (if less (l_phantom_epoch pl) epoch then st_leaf w prev (pl\<lparr>l_phantom_epoch := epoch\<rparr>) else w) }"

text \<open>The result tells whether the leaf is gone, in which case it has been unlocked.\<close>

definition remove_leaf :: "'v mt \<Rightarrow> ptr \<Rightarrow> ptr \<Rightarrow> bytes \<Rightarrow> ('v mt \<times> bool) option" where
  "remove_leaf w lf root pfx = do {
     l \<leftarrow> ld_leaf w lf;
     if l_prev l = 0 then
       Some (if l_next l = 0 \<and> pfx \<noteq> [] then w\<lparr>mt_gc := mt_gc w @ [(root, pfx)]\<rparr> else w, False)
     else do {
       w \<leftarrow> upd_version w lf (nv_mark_deleted NP);
       let w = deallocate_rcu w lf;
       w \<leftarrow> propagate_phantom_epoch w (l_prev l) (l_phantom_epoch l);
       w \<leftarrow> unlink w lf;
       w \<leftarrow> remove_leaf_loop w lf (leaf_ikey_bound l) 0;
       Some (w, True) } }"

definition leaf_finish_remove :: "'v leaf \<Rightarrow> nat \<Rightarrow> 'v leaf" where
  "leaf_finish_remove l i =
     (let l = (if l_modstate l = modstate_insert
               then l\<lparr>l_version := nv_mark_insert NP (l_version l), l_modstate := modstate_remove\<rparr> else l)
      in l\<lparr>l_permutation := remove (l_permutation l) i\<rparr>)"

definition finish_remove :: "'v mt \<Rightarrow> tcursor \<Rightarrow> ('v mt \<times> bool) option" where
  "finish_remove w c = do {
     l \<leftarrow> ld_leaf w (tc_n c);
     let l = leaf_finish_remove l (nat (kx_i (tc_kx c)));
     let w = st_leaf w (tc_n c) l;
     if leaf_size l \<noteq> 0 then Some (w, False)
     else remove_leaf w (tc_n c) (tc_root c) (key_prefix_string (tc_ka c)) }"

section \<open>Collecting an empty layer\<close>

text \<open>The loop that replaces a chain of root internodes without keys by their only child.
  \<open>None\<close> in the second component is a \<open>return false\<close>, the leaf at the end of the chain otherwise.\<close>

partial_function (option) gc_collapse :: "'v mt \<Rightarrow> ptr \<Rightarrow> nat \<Rightarrow> ('v mt \<times> ptr option) option" where
  "gc_collapse w n p = do {
     l \<leftarrow> ld_leaf w n;
     (case l_lv l ! p of
        LV_layer layer \<Rightarrow> do {
          isroot \<leftarrow> node_is_root w layer;
          if \<not> isroot then do {
            q \<leftarrow> maybe_parent w layer;
            gc_collapse (st_leaf w n (l\<lparr>l_lv := (l_lv l)[p := LV_layer q]\<rparr>)) n p }
          else do {
            v \<leftarrow> node_version w layer;
            if nv_isleaf NP v then Some (w, Some layer)
            else do {
              x \<leftarrow> ld_inode w layer;
              if i_nkeys x > 0 then Some (w, None)
              else do {
                (w, _) \<leftarrow> node_lock w layer v;
                x \<leftarrow> ld_inode w layer;
                if \<not> nv_is_root NP (i_version x) \<or> i_nkeys x > 0
                then do { w \<leftarrow> node_unlock w layer; Some (w, None) }
                else do {
                  let child = i_child x ! 0;
                  (w, ok) \<leftarrow> node_try_lock w child;
                  if \<not> ok then do { w \<leftarrow> node_unlock w layer; gc_collapse w n p }
                  else do {
                    w \<leftarrow> make_layer_root w child;
                    l \<leftarrow> ld_leaf w n;
                    let w = st_leaf w n (l\<lparr>l_lv := (l_lv l)[p := LV_layer child]\<rparr>);
                    w \<leftarrow> node_unlock w child;
                    w \<leftarrow> upd_version w layer (nv_mark_split NP);
                    w \<leftarrow> set_parent w layer child;
                    w \<leftarrow> node_unlock w layer;
                    gc_collapse (deallocate_rcu w layer) n p } } } } } }
      | _ \<Rightarrow> None) }"

declare gc_collapse.simps [code]

text \<open>The end of \<open>gc_layer\<close>: an empty leaf is marked as a deleted layer and freed.\<close>

definition gc_kill_leaf :: "'v mt \<Rightarrow> ptr \<Rightarrow> ptr \<Rightarrow> ('v mt \<times> bool) option" where
  "gc_kill_leaf w n lf = do {
     l \<leftarrow> ld_leaf w lf;
     if leaf_size l > 0 then Some (w, False)
     else do {
       (w, _) \<leftarrow> node_lock w lf (l_version l);
       l \<leftarrow> ld_leaf w lf;
       if \<not> nv_is_root NP (l_version l) \<or> leaf_size l > 0
       then do { w \<leftarrow> node_unlock w lf; Some (w, False) }
       else do {
         w \<leftarrow> propagate_phantom_epoch w n (l_phantom_epoch l);
         l \<leftarrow> ld_leaf w lf;
         let w = st_leaf w lf (leaf_mark_deleted_layer l);
         w \<leftarrow> node_unlock w lf;
         Some (deallocate_rcu w lf, True) } } }"

definition gc_layer :: "'v mt \<Rightarrow> tcursor \<Rightarrow> ('v mt \<times> tcursor \<times> bool) option" where
  "gc_layer w c = do {
     (w, c) \<leftarrow> find_locked w c;
     let n = tc_n c;
     l \<leftarrow> ld_leaf w n;
     if nv_deleted NP (l_version l) \<or> leaf_deleted_layer l then None
     else if key_has_suffix (tc_ka c) then Some (w, c, False)
     else do {
       let i = kx_i (tc_kx c) + of_bool (tc_has_value c);
       let c = c\<lparr>tc_kx := (tc_kx c)\<lparr>kx_i := i\<rparr>\<rparr>;
       if i \<ge> int (leaf_size l) then Some (w, c, False)
       else do {
         let p = perm_get (l_permutation l) (nat i);
         let c = c\<lparr>tc_kx := \<lparr>kx_i = i, kx_p = int p\<rparr>\<rparr>;
         if l_ikey0 l ! p \<noteq> k_ikey0 (tc_ka c) \<or> \<not> leaf_is_layer l p then Some (w, c, False)
         else do {
           (w, layer) \<leftarrow> gc_collapse w n p;
           (case layer of None \<Rightarrow> Some (w, c, False)
            | Some lf \<Rightarrow> do { (w, ok) \<leftarrow> gc_kill_leaf w n lf; Some (w, c, ok) }) } } } }"

text \<open>\<open>gc_layer_rcu_callback\<close>: a registered callback finds the root it was made for, which may
  have split since.\<close>

partial_function (option) gc_find_root :: "'v mt \<Rightarrow> ptr \<Rightarrow> ptr option" where
  "gc_find_root w r = do {
     b \<leftarrow> node_is_root w r;
     if b then Some r else do { r \<leftarrow> maybe_parent w r; gc_find_root w r } }"

declare gc_find_root.simps [code]

definition gc_layer_callback :: "'v mt \<Rightarrow> ptr \<Rightarrow> bytes \<Rightarrow> 'v mt option" where
  "gc_layer_callback w root s = do {
     root \<leftarrow> gc_find_root w root;
     v \<leftarrow> node_version w root;
     if nv_deleted NP v then Some w
     else do {
       (w, lp, do_remove) \<leftarrow> gc_layer w (tcursor_at root s);
       (w, gone) \<leftarrow> (if do_remove then finish_remove w lp else Some (w, False));
       if \<not> gone then node_unlock w (tc_n lp) else Some w } }"

text \<open>Running the callbacks that have been registered, oldest first.\<close>

fun run_gc :: "(ptr \<times> bytes) list \<Rightarrow> 'v mt \<Rightarrow> 'v mt option" where
  "run_gc [] w = Some w"
| "run_gc ((r, s) # cbs) w = do { w \<leftarrow> gc_layer_callback w r s; run_gc cbs w }"

section \<open>Destroying a tree\<close>

text \<open>The second run of \<open>destroy_rcu_callback\<close>: a queue of nodes threaded through their parent
  pointers, here the list it represents. The result lists the nodes freed, in order.\<close>

definition destroy_children :: "'v node \<Rightarrow> ptr list" where
  "destroy_children n = (case n of
     Leaf l \<Rightarrow> concat (map (\<lambda>i. let p = perm_get (l_permutation l) i in
        if leaf_is_layer l p then (case l_lv l ! p of LV_layer q \<Rightarrow> [q] | _ \<Rightarrow> []) else []) [0..<leaf_size l])
   | Internode x \<Rightarrow> filter (\<lambda>c. c \<noteq> 0) (take (i_nkeys x + 1) (i_child x)))"

partial_function (option) destroy_loop :: "'v mt \<Rightarrow> ptr list \<Rightarrow> ptr list \<Rightarrow> ('v mt \<times> ptr list) option" where
  "destroy_loop w workq freed =
     (case workq of [] \<Rightarrow> Some (w, freed)
      | n # q \<Rightarrow> do {
          x \<leftarrow> mt_heap w n;
          destroy_loop (w\<lparr>mt_heap := (mt_heap w)(n := None)\<rparr>) (q @ destroy_children x) (freed @ [n]) })"

declare destroy_loop.simps [code]

definition destroy_first :: "'v mt \<Rightarrow> ptr \<Rightarrow> ('v mt \<times> ptr) option" where
  "destroy_first w root = do {
     root \<leftarrow> gc_find_root w root;
     v \<leftarrow> node_version w root;
     (w, _) \<leftarrow> node_lock w root v;
     w \<leftarrow> upd_version w root (nv_mark_deleted_tree NP);
     w \<leftarrow> node_unlock w root;
     Some (w, root) }"

definition destroy_second :: "'v mt \<Rightarrow> ptr \<Rightarrow> ('v mt \<times> ptr list) option" where
  "destroy_second w root = destroy_loop w [root] []"

end
