(* ===== verification/MT_Insert.thy ===== *)
theory MT_Insert
  imports MT_Split MT_Remove
begin

text \<open>
  Insertion (\<open>masstree_insert.hh\<close>): \<open>find_insert\<close> locks the leaf responsible for a key and
  makes room for it, by a free slot, a new layer or a split; the caller stores the value
  and \<open>finish\<close> makes the key visible (or removes it) and unlocks.
\<close>

section \<open>A new layer\<close>

text \<open>The twig: while the two suffixes agree in a whole slice, a leaf with one layer entry.
  Result: the world, first and last leaf of the twig (\<open>n\<close> when there is none), the two keys
  shifted, their comparison, and the new nodes.\<close>

partial_function (option) make_twig ::
  "'v mt \<Rightarrow> ptr \<Rightarrow> ptr \<Rightarrow> ptr \<Rightarrow> key \<Rightarrow> key \<Rightarrow> int \<Rightarrow> (ptr \<times> u32) list \<Rightarrow>
   ('v mt \<times> ptr \<times> ptr \<times> key \<times> key \<times> int \<times> (ptr \<times> u32) list) option" where
  "make_twig w n twig_head twig_tail oka ka kcmp new_nodes =
     (if kcmp \<noteq> 0 then Some (w, twig_head, twig_tail, oka, ka, kcmp, new_nodes)
      else do {
        (nl, w) \<leftarrow> leaf_make_root w 0 twig_tail;
        l \<leftarrow> ld_leaf w nl;
        l \<leftarrow> leaf_assign_initialize_for_layer l 0 oka;
        let w = st_leaf w nl l;
        w \<leftarrow> (if twig_head \<noteq> n then do {
            t \<leftarrow> ld_leaf w twig_tail;
            Some (st_leaf w twig_tail (t\<lparr>l_lv := (l_lv t)[0 := LV_layer nl]\<rparr>)) }
          else Some w);
        let l = l\<lparr>l_permutation := make_sorted width 1\<rparr>;
        let w = st_leaf w nl l;
        let oka = key_shift oka;
        let ka = key_shift ka;
        make_twig w n (if twig_head \<noteq> n then twig_head else nl) nl oka ka (key_compare_key oka ka)
          (new_nodes @ [(nl, leaf_full_unlocked_version_value l)]) })"

declare make_twig.simps [code]

text \<open>The leaf at the end of the twig holds both keys, but only the old one is visible.\<close>

definition new_layer_leaf :: "'v leaf \<Rightarrow> key \<Rightarrow> key \<Rightarrow> int \<Rightarrow> 'v leafvalue \<Rightarrow> 'v leaf option" where
  "new_layer_leaf nl oka ka kcmp lv = do {
     nl \<leftarrow> leaf_assign_initialize nl 0 (if kcmp < 0 then oka else ka);
     nl \<leftarrow> leaf_assign_initialize nl 1 (if kcmp < 0 then ka else oka);
     let nl = nl\<lparr>l_lv := (l_lv nl)[of_bool (kcmp > 0) := lv]\<rparr>;
     Some (nl\<lparr>l_permutation :=
       (if kcmp < 0 then make_sorted width 1 else remove_to_back width (make_sorted width 2) 0)\<rparr>) }"

definition make_new_layer :: "'v mt \<Rightarrow> tcursor \<Rightarrow> ('v mt \<times> tcursor) option" where
  "make_new_layer w c = do {
     let n = tc_n c;
     let p = nat (kx_p (tc_kx c));
     l \<leftarrow> ld_leaf w n;
     suf \<leftarrow> leaf_ksuf l p;
     let oka = key_make suf 0 (int (length suf));
     let ka = key_shift (tc_ka c);
     (w, twig_head, twig_tail, oka, ka, kcmp, new_nodes) \<leftarrow>
       make_twig w n n n oka ka (key_compare_key oka ka) (tc_new_nodes c);
     let ksufsize =
       (if key_has_suffix ka \<or> key_has_suffix oka
        then nat (max 0 (key_suffix_length ka) + max 0 (key_suffix_length oka)) * (width div 2)
          + sb_overhead 1 width
        else 0);
     (nlp, w) \<leftarrow> leaf_make_root w ksufsize twig_tail;
     nl \<leftarrow> ld_leaf w nlp;
     l \<leftarrow> ld_leaf w n;
     nl \<leftarrow> new_layer_leaf nl oka ka kcmp (l_lv l ! p);
     let w = st_leaf w nlp nl;
     (w, _) \<leftarrow> node_lock w nlp (l_version nl);
     w \<leftarrow> upd_version w n (nv_mark_insert NP);
     w \<leftarrow> (if twig_tail \<noteq> n then do {
         t \<leftarrow> ld_leaf w twig_tail;
         Some (st_leaf w twig_tail (t\<lparr>l_lv := (l_lv t)[0 := LV_layer nlp]\<rparr>)) }
       else Some w);
     l \<leftarrow> ld_leaf w n;
     let l = l\<lparr>l_lv := (l_lv l)[p := LV_layer (if twig_head \<noteq> n then twig_head else nlp)],
               l_keylenx := (l_keylenx l)[p := layer_keylenx]\<rparr>;
     let w = st_leaf w n l;
     w \<leftarrow> node_unlock w n;
     Some (w, c\<lparr>tc_ka := ka, tc_n := nlp, tc_kx := \<lparr>kx_i = of_bool (kcmp < 0), kx_p = of_bool (kcmp < 0)\<rparr>,
       tc_updated_v := leaf_full_unlocked_version_value l, tc_new_nodes := new_nodes\<rparr>) }"

section \<open>Insertion and the end of an operation\<close>

text \<open>A leaf that had removals changes its state, which readers see as an insertion.\<close>

definition leaf_set_insert_state :: "'v leaf \<Rightarrow> 'v leaf" where
  "leaf_set_insert_state l =
     (if l_modstate l \<noteq> modstate_insert
      then l\<lparr>l_version := nv_mark_insert NP (l_version l), l_modstate := modstate_insert\<rparr> else l)"

text \<open>\<open>find_insert\<close>; the result tells whether the key was there.\<close>

definition find_insert :: "'v mt \<Rightarrow> tcursor \<Rightarrow> ('v mt \<times> tcursor \<times> bool) option" where
  "find_insert w c = do {
     (w, c) \<leftarrow> find_locked w c;
     let n = tc_n c;
     l \<leftarrow> ld_leaf w n;
     let c = c\<lparr>tc_original_n := n, tc_original_v := leaf_full_unlocked_version_value l\<rparr>;
     if tc_state c \<noteq> 0 then Some (w, c, True)
     else do {
       let c = c\<lparr>tc_state := 2\<rparr>;
       if kx_p (tc_kx c) \<ge> 0 then do { (w, c) \<leftarrow> make_new_layer w c; Some (w, c, False) }
       else do {
         let l = leaf_set_insert_state l;
         let w = st_leaf w n l;
         let kp = perm_back width (l_permutation l);
         if leaf_size l < width \<and> (kp \<noteq> 0 \<or> l_prev l = 0 \<or> leaf_ikey_bound l = k_ikey0 (tc_ka c))
         then do {
           l \<leftarrow> leaf_assign l kp (tc_ka c);
           Some (st_leaf w n l, c\<lparr>tc_kx := (tc_kx c)\<lparr>kx_p := int kp\<rparr>\<rparr>, False) }
         else do {
           let c = (if leaf_size l < width then c\<lparr>tc_kx := (tc_kx c)\<lparr>kx_p := int kp\<rparr>\<rparr> else c);
           (w, c) \<leftarrow> make_split w c;
           Some (w, c, False) } } } }"

definition finish_insert :: "'v mt \<Rightarrow> tcursor \<Rightarrow> 'v mt option" where
  "finish_insert w c = do {
     l \<leftarrow> ld_leaf w (tc_n c);
     let perm = l_permutation l;
     if int (perm_back width perm) \<noteq> kx_p (tc_kx c) then None
     else Some (st_leaf w (tc_n c) (l\<lparr>l_permutation := fst (insert_from_back width perm (nat (kx_i (tc_kx c))))\<rparr>)) }"

definition tc_finish :: "'v mt \<Rightarrow> tcursor \<Rightarrow> int \<Rightarrow> ('v mt \<times> tcursor) option" where
  "tc_finish w c state = do {
     (w, gone) \<leftarrow>
       (if state < 0 \<and> tc_state c = 1 then finish_remove w c
        else if state > 0 \<and> tc_state c = 2 then do { w \<leftarrow> finish_insert w c; Some (w, False) }
        else Some (w, False));
     if gone then Some (w, c)
     else do {
       l \<leftarrow> ld_leaf w (tc_n c);
       let v = leaf_full_unlocked_version_value l;
       let c = (if tc_n c = tc_original_n c then c\<lparr>tc_updated_v := v\<rparr>
                else c\<lparr>tc_new_nodes := tc_new_nodes c @ [(tc_n c, v)]\<rparr>);
       w \<leftarrow> node_unlock w (tc_n c);
       Some (w, c) } }"

text \<open>The two operations that callers build from the cursor: put a value, remove a key. Each
  returns whether the key was there.\<close>

definition mt_put :: "'v mt \<Rightarrow> bytes \<Rightarrow> 'v \<Rightarrow> ('v mt \<times> bool) option" where
  "mt_put w key v = do {
     (w, c) \<leftarrow> tcursor_make w key;
     (w, c, found) \<leftarrow> find_insert w c;
     w \<leftarrow> tc_set_value w c v;
     (w, c) \<leftarrow> tc_finish w c 1;
     Some (w, found) }"

definition mt_remove :: "'v mt \<Rightarrow> bytes \<Rightarrow> ('v mt \<times> bool) option" where
  "mt_remove w key = do {
     (w, c) \<leftarrow> tcursor_make w key;
     (w, c) \<leftarrow> find_locked w c;
     (w, c) \<leftarrow> tc_finish w c (-1);
     Some (w, tc_state c \<noteq> 0) }"

end
