(* ===== verification/MT_Rep.thy ===== *)
theory MT_Rep
  imports MT_Get
begin

text \<open>
  What the nodes in the heap stand for. A tree of nodes is described by its shape, an
  abstract tree that says which addresses hold which keys and children; the shape has a
  meaning as a finite map from strings to values, an invariant (order of the keys, ranges
  of the subtrees), and a relation to the heap. The lemmas of this theory walk the shape
  the way the code walks the heap.
\<close>

section \<open>Shapes\<close>

text \<open>\<open>TNil\<close> is the null child that a removal may leave first in an internode. The slot of a
  layer has the pointer that the leaf stores, which may be stale: it points to some node
  of the layer, from where the parents lead to the root.\<close>

datatype 'v tree =
    TNil
  | TLeaf ptr "'v slot list"
  | TNode ptr "u64 list" "'v tree list"
and 'v slot =
    SVal u64 int bytes 'v
  | SLayer u64 ptr "'v tree"

fun root_addr :: "'v tree \<Rightarrow> ptr" where
  "root_addr TNil = 0"
| "root_addr (TLeaf p es) = p"
| "root_addr (TNode p ks ts) = p"

fun slot_ikey :: "'v slot \<Rightarrow> u64" where
  "slot_ikey (SVal i k suf v) = i"
| "slot_ikey (SLayer i r t) = i"

fun slot_keylenx :: "'v slot \<Rightarrow> int" where
  "slot_keylenx (SVal i k suf v) = k"
| "slot_keylenx (SLayer i r t) = layer_keylenx"

definition rank_of :: "'v slot \<Rightarrow> nat" where
  "rank_of e = slot_rank (slot_ikey e) (slot_keylenx e)"

definition str_rank :: "bytes \<Rightarrow> nat" where
  "str_rank s = slot_rank (ikey_of s) (int (length s))"

text \<open>The addresses of one layer, and of a tree with all its layers.\<close>

primrec layer_addrs :: "'v tree \<Rightarrow> ptr list" where
  "layer_addrs TNil = []"
| "layer_addrs (TLeaf p es) = [p]"
| "layer_addrs (TNode p ks ts) = p # concat (map layer_addrs ts)"

primrec addrs :: "'v tree \<Rightarrow> ptr list" and slot_addrs :: "'v slot \<Rightarrow> ptr list" where
  "addrs TNil = []"
| "addrs (TLeaf p es) = p # concat (map slot_addrs es)"
| "addrs (TNode p ks ts) = p # concat (map addrs ts)"
| "slot_addrs (SVal i k suf v) = []"
| "slot_addrs (SLayer i r t) = addrs t"

section \<open>The map a shape stands for\<close>

fun first_of :: "(bytes \<Rightarrow> 'v option) list \<Rightarrow> bytes \<Rightarrow> 'v option" where
  "first_of [] s = None"
| "first_of (m # ms) s = (case m s of None \<Rightarrow> first_of ms s | Some v \<Rightarrow> Some v)"

definition slot_matches :: "u64 \<Rightarrow> int \<Rightarrow> bytes \<Rightarrow> bytes \<Rightarrow> bool" where
  "slot_matches i k suf s \<longleftrightarrow> ikey_of s = i \<and>
     (if k = ksuf_keylenx then 8 < length s \<and> drop 8 s = suf else length s \<le> 8 \<and> int (length s) = k)"

primrec tree_map :: "'v tree \<Rightarrow> bytes \<Rightarrow> 'v option" and slot_map :: "'v slot \<Rightarrow> bytes \<Rightarrow> 'v option" where
  "tree_map TNil = (\<lambda>s. None)"
| "tree_map (TLeaf p es) = first_of (map slot_map es)"
| "tree_map (TNode p ks ts) = first_of (map tree_map ts)"
| "slot_map (SVal i k suf v) = (\<lambda>s. if slot_matches i k suf s then Some v else None)"
| "slot_map (SLayer i r t) = (\<lambda>s. if 8 < length s \<and> ikey_of s = i then tree_map t (drop 8 s) else None)"

lemma first_of_none: "first_of ms s = None \<longleftrightarrow> (\<forall>m \<in> set ms. m s = None)"
  by (induction ms) (auto split: option.splits)

lemma first_of_unique:
  assumes "m \<in> set ms" "\<And>m'. m' \<in> set ms \<Longrightarrow> m' \<noteq> m \<Longrightarrow> m' s = None"
  shows "first_of ms s = m s"
  using assms
proof (induction ms)
  case (Cons a ms)
  show ?case
  proof (cases "a = m")
    case True
    have "first_of ms s = None \<or> first_of ms s = m s" 
    proof (cases "m \<in> set ms")
      case True
      with Cons show ?thesis by simp
    next
      case False
      then have "first_of ms s = None" unfolding first_of_none using Cons.prems(2) by auto
      then show ?thesis ..
    qed
    with True show ?thesis by (auto split: option.splits)
  next
    case False
    with Cons.prems have "a s = None" "m \<in> set ms" by auto
    with Cons show ?thesis by simp
  qed
qed simp

lemma first_of_append: "first_of (ms @ ms') s = (case first_of ms s of None \<Rightarrow> first_of ms' s | Some v \<Rightarrow> Some v)"
  by (induction ms) (auto split: option.splits)

section \<open>The invariant of shapes\<close>

text \<open>Slices as natural numbers, so that the range of a subtree can end at \<open>2 ^ 64\<close>.\<close>

fun wf_children :: "(nat \<Rightarrow> nat \<Rightarrow> bool) list \<Rightarrow> u64 list \<Rightarrow> nat \<Rightarrow> nat \<Rightarrow> bool" where
  "wf_children [c] [] lo hi \<longleftrightarrow> c lo hi"
| "wf_children (c # cs) (k # ks) lo hi \<longleftrightarrow>
     lo \<le> unat k \<and> unat k < hi \<and> c lo (unat k) \<and> wf_children cs ks (unat k) hi"
| "wf_children _ _ lo hi \<longleftrightarrow> False"

definition top :: nat where
  "top = 2 ^ 64"

text \<open>The suffixes of fifteen keys of this length fit into one bag of \<open>2 ^ 16\<close> bytes; the
  clients of the code limit keys to \<open>MASSTREE_MAXKEYLEN\<close>, 255 bytes.\<close>

definition max_ksuf :: nat where
  "max_ksuf = 4096"

primrec wf_tree :: "'v tree \<Rightarrow> nat \<Rightarrow> nat \<Rightarrow> bool" and wf_slot :: "'v slot \<Rightarrow> bool" where
  "wf_tree TNil = (\<lambda>lo hi. hi \<le> lo)"
| "wf_tree (TLeaf p es) = (\<lambda>lo hi. length es \<le> width \<and> sorted_wrt (<) (map rank_of es) \<and>
     (\<forall>e \<in> set es. lo \<le> unat (slot_ikey e) \<and> unat (slot_ikey e) < hi) \<and>
     (\<forall>b \<in> set (map wf_slot es). b))"
| "wf_tree (TNode p ks ts) = (\<lambda>lo hi. length ks \<le> width \<and> sorted_wrt (<) ks \<and>
     wf_children (map wf_tree ts) ks lo hi)"
| "wf_slot (SVal i k suf v) =
     ((k = ksuf_keylenx \<or> 0 \<le> k \<and> k \<le> 8) \<and> length suf \<le> max_ksuf)"
| "wf_slot (SLayer i r t) = (wf_tree t 0 top \<and> r \<in> set (layer_addrs t))"

lemma wf_slot_keylenx: "wf_slot e \<Longrightarrow> 0 \<le> slot_keylenx e"
  by (cases e) (auto simp: ksuf_keylenx_def layer_keylenx_def)

lemma slot_map_rank:
  assumes "wf_slot e" "slot_map e s \<noteq> None"
  shows "rank_of e = str_rank s"
proof (cases e)
  case (SVal i k suf v)
  with assms show ?thesis
    by (auto simp: rank_of_def str_rank_def slot_matches_def slot_rank_def ksuf_keylenx_def
        split: if_splits)
next
  case (SLayer i r t)
  with assms show ?thesis
    by (auto simp: rank_of_def str_rank_def slot_rank_def layer_keylenx_def split: if_splits)
qed

lemma str_rank_ikey: "str_rank s div 10 = unat (ikey_of s)"
proof -
  have "nat (min (int (length s)) 9) < 10" by auto
  then show ?thesis by (simp add: str_rank_def slot_rank_def)
qed

lemma rank_of_ikey: "rank_of e div 10 = unat (slot_ikey e)"
proof -
  have "nat (min (slot_keylenx e) 9) < 10" by auto
  then show ?thesis by (simp add: rank_of_def slot_rank_def)
qed

lemma slot_map_ikey: "wf_slot e \<Longrightarrow> slot_map e s \<noteq> None \<Longrightarrow> slot_ikey e = ikey_of s"
  by (metis rank_of_ikey slot_map_rank str_rank_ikey word_unat_eq_iff)

text \<open>A subtree knows nothing of keys outside its range.\<close>

lemma wf_children_sub:
  "wf_children cs ks lo hi \<Longrightarrow> c \<in> set cs \<Longrightarrow> \<exists>lo' hi'. lo \<le> lo' \<and> hi' \<le> hi \<and> c lo' hi'"
proof (induction cs ks lo hi rule: wf_children.induct)
  case (2 c' cs k ks lo hi)
  have le: "lo \<le> unat k" "unat k \<le> hi" "c' lo (unat k)" "wf_children cs ks (unat k) hi"
    using 2(2) by simp_all
  show ?case
  proof (cases "c = c'")
    case True
    with le show ?thesis by blast
  next
    case False
    with 2(3) have "c \<in> set cs" by simp
    from 2(1) [OF le(4) this] obtain lo' hi' where "unat k \<le> lo'" "hi' \<le> hi" "c lo' hi'" by blast
    with le(1) show ?thesis by (meson order_trans)
  qed
qed auto

lemma tree_map_range:
  fixes t :: "'v tree"
  shows "wf_tree t lo hi \<Longrightarrow> tree_map t s \<noteq> None \<Longrightarrow> lo \<le> unat (ikey_of s) \<and> unat (ikey_of s) < hi"
proof (induction t arbitrary: lo hi rule: tree.induct [where ?P2.0 = "\<lambda>_. True"])
  case (TLeaf p es)
  then obtain e where e: "e \<in> set es" "slot_map e s \<noteq> None" by (auto simp: first_of_none)
  with TLeaf.prems have "wf_slot e" "lo \<le> unat (slot_ikey e)" "unat (slot_ikey e) < hi" by auto
  with slot_map_ikey [of e s] e show ?case by simp
next
  case (TNode p ks ts)
  then obtain t where t: "t \<in> set ts" "tree_map t s \<noteq> None" by (auto simp: first_of_none)
  have "wf_children (map wf_tree ts) ks lo hi" using TNode.prems by simp
  from wf_children_sub [OF this, of "wf_tree t"] t obtain lo' hi' where
    le: "lo \<le> lo'" "hi' \<le> hi" "wf_tree t lo' hi'" by auto
  from TNode.IH [OF t(1) le(3) t(2)] le(1,2) show ?case by linarith
qed simp_all

section \<open>The shape and the heap\<close>

text \<open>What one node of a shape says of the node at its address: the slots of a leaf in key
  order (slice, key length, suffix, contents), or the separators and children of an
  internode. \<open>views\<close> lists the nodes of a tree with their addresses, whether they are the
  root of their layer, and their parents.\<close>

datatype 'v view = VLeaf "(u64 \<times> int \<times> bytes \<times> 'v leafvalue) list" | VNode "u64 list" "ptr list"

fun slot_view :: "'v slot \<Rightarrow> u64 \<times> int \<times> bytes \<times> 'v leafvalue" where
  "slot_view (SVal i k suf v) = (i, k, suf, LV_value v)"
| "slot_view (SLayer i r t) = (i, layer_keylenx, [], LV_layer r)"

primrec views :: "'v tree \<Rightarrow> bool \<Rightarrow> ptr \<Rightarrow> (ptr \<times> bool \<times> ptr \<times> 'v view) list" and
  slot_views :: "'v slot \<Rightarrow> (ptr \<times> bool \<times> ptr \<times> 'v view) list" where
  "views TNil = (\<lambda>root par. [])"
| "views (TLeaf p es) = (\<lambda>root par.
     (p, root, par, VLeaf (map slot_view es)) # concat (map slot_views es))"
| "views (TNode p ks ts) = (\<lambda>root par.
     (p, root, par, VNode ks (map root_addr ts)) # concat (map (\<lambda>f. f False p) (map views ts)))"
| "slot_views (SVal i k suf v) = []"
| "slot_views (SLayer i r t) = views t True 0"

text \<open>The version word of a node of the tree, and of one that nobody writes.\<close>

definition ver_shape :: "bool \<Rightarrow> bool \<Rightarrow> u32 \<Rightarrow> bool" where
  "ver_shape leaf root v \<longleftrightarrow> ver_ok 0 v \<and> nv_isleaf NP v = leaf \<and> nv_is_root NP v = root \<and> \<not> nv_deleted NP v"

definition ver_clean :: "u32 \<Rightarrow> bool" where
  "ver_clean v \<longleftrightarrow> \<not> nv_locked NP v \<and> v AND dirty_mask NP = 0"

definition leaf_slots :: "'v leaf \<Rightarrow> nat list" where
  "leaf_slots l = map (perm_get (l_permutation l)) [0..<leaf_size l]"

definition slot_of :: "'v leaf \<Rightarrow> nat \<Rightarrow> u64 \<times> int \<times> bytes \<times> 'v leafvalue" where
  "slot_of l q = (l_ikey0 l ! q, l_keylenx l ! q,
     if leaf_has_ksuf l q then the (leaf_ksuf l q) else [], l_lv l ! q)"

definition leaf_view :: "'v leaf \<Rightarrow> (u64 \<times> int \<times> bytes \<times> 'v leafvalue) list" where
  "leaf_view l = map (slot_of l) (leaf_slots l)"

definition leaf_ok :: "'v leaf \<Rightarrow> bool" where
  "leaf_ok l \<longleftrightarrow> length (l_ikey0 l) = width \<and> length (l_keylenx l) = width \<and> length (l_lv l) = width \<and>
     perm_wf width (l_permutation l) \<and> l_modstate l \<noteq> modstate_deleted_layer \<and>
     (case l_ksuf l of Some b \<Rightarrow> sb_wf 2 width b \<and> l_extrasize64 l < 0 | None \<Rightarrow> l_extrasize64 l \<ge> 0) \<and>
     (case l_iksuf l of Some b \<Rightarrow> sb_wf 1 width b | None \<Rightarrow> l_extrasize64 l \<le> 0) \<and>
     (\<forall>q \<in> set (leaf_slots l). leaf_has_ksuf l q \<longrightarrow> leaf_bag l \<noteq> None)"

definition inode_ok :: "internode \<Rightarrow> bool" where
  "inode_ok n \<longleftrightarrow> length (i_ikey0 n) = width \<and> length (i_child n) = width + 1 \<and> i_nkeys n \<le> width"

fun node_ok :: "bool \<Rightarrow> ptr \<Rightarrow> 'v view \<Rightarrow> 'v node \<Rightarrow> bool" where
  "node_ok root par (VLeaf ss) (Leaf l) \<longleftrightarrow>
     ver_shape True root (l_version l) \<and> l_parent l = par \<and> leaf_ok l \<and> leaf_view l = ss"
| "node_ok root par (VNode ks cs) (Internode n) \<longleftrightarrow>
     ver_shape False root (i_version n) \<and> i_parent n = par \<and> inode_ok n \<and>
     take (i_nkeys n) (i_ikey0 n) = ks \<and> take (i_nkeys n + 1) (i_child n) = cs"
| "node_ok root par _ _ \<longleftrightarrow> False"

definition node_rep :: "'v mt \<Rightarrow> ptr \<times> bool \<times> ptr \<times> 'v view \<Rightarrow> bool" where
  "node_rep w = (\<lambda>(p, root, par, x). p \<noteq> 0 \<and> p < mt_next w \<and>
     (\<exists>n. mt_heap w p = Some n \<and> node_ok root par x n))"

definition quiet :: "'v mt \<Rightarrow> ptr \<Rightarrow> bool" where
  "quiet w p \<longleftrightarrow> (\<exists>n. mt_heap w p = Some n \<and> ver_clean (node_version_of n))"

text \<open>A tree of the heap between operations: all its nodes are there and quiet.\<close>

definition at_rest :: "'v mt \<Rightarrow> bool \<Rightarrow> ptr \<Rightarrow> 'v tree \<Rightarrow> bool" where
  "at_rest w root par t \<longleftrightarrow>
     (\<forall>e \<in> set (views t root par). node_rep w e) \<and> (\<forall>p \<in> set (addrs t). quiet w p)"

lemma at_rest_node:
  "at_rest w root par (TNode p ks ts) \<longleftrightarrow>
     node_rep w (p, root, par, VNode ks (map root_addr ts)) \<and> quiet w p \<and>
     (\<forall>t \<in> set ts. at_rest w False p t)"
  by (auto simp: at_rest_def)

lemma slots_views:
  "(\<forall>e \<in> set es. \<forall>x \<in> set (slot_views e). P x) \<longleftrightarrow>
     (\<forall>i r t. SLayer i r t \<in> set es \<longrightarrow> (\<forall>x \<in> set (views t True 0). P x))"
  by (metis slot.exhaust slot_views.simps empty_iff list.set(1))

lemma slots_addrs:
  "(\<forall>e \<in> set es. \<forall>x \<in> set (slot_addrs e). P x) \<longleftrightarrow>
     (\<forall>i r t. SLayer i r t \<in> set es \<longrightarrow> (\<forall>x \<in> set (addrs t). P x))"
  by (metis slot.exhaust slot_addrs.simps empty_iff list.set(1))

lemma at_rest_leaf:
  "at_rest w root par (TLeaf p es) \<longleftrightarrow>
     node_rep w (p, root, par, VLeaf (map slot_view es)) \<and> quiet w p \<and>
     (\<forall>i r t. SLayer i r t \<in> set es \<longrightarrow> at_rest w True 0 t)"
  unfolding at_rest_def using slots_views [of es "node_rep w"] slots_addrs [of es "quiet w"]
  by (simp add: all_conj_distrib imp_conjR) blast

section \<open>Versions of nodes at rest\<close>

lemma ver_clean_stable [simp]: "ver_clean v \<Longrightarrow> nv_stable NP v = Some v"
  by (simp add: ver_clean_def nv_stable_def)

lemma has_changed_same [simp]: "nv_has_changed NP v v = False"
  by (simp add: nv_has_changed_def nodeversion_parameters32_def)

lemma node_version_at [simp]: "mt_heap w p = Some n \<Longrightarrow> node_version w p = Some (node_version_of n)"
  by (simp add: node_version_def)

lemma node_stable_at: "mt_heap w p = Some n \<Longrightarrow> ver_clean (node_version_of n) \<Longrightarrow>
    node_stable w p = Some (node_version_of n)"
  by (simp add: node_stable_def)

section \<open>Climbing to the root of a layer\<close>

lemma at_rest_root:
  assumes "at_rest w root par t" "t \<noteq> TNil"
  obtains n where "mt_heap w (root_addr t) = Some n" "root_addr t \<noteq> 0"
    "ver_clean (node_version_of n)" "nv_is_root NP (node_version_of n) = root"
    "node_parent w (root_addr t) = Some par"
proof (cases t)
  case (TLeaf p es)
  with assms that show thesis
    by (auto simp: at_rest_leaf node_rep_def quiet_def ver_shape_def node_parent_def
        elim!: node_ok.elims)
next
  case (TNode p ks ts)
  with assms that show thesis
    by (auto simp: at_rest_node node_rep_def quiet_def ver_shape_def node_parent_def
        elim!: node_ok.elims)
qed (use assms in simp)

lemma reach_root_here:
  assumes "at_rest w True 0 t" "t \<noteq> TNil"
  obtains v where "reach_root w (root_addr t) = Some (root_addr t, v)"
    "node_version w (root_addr t) = Some v" "ver_clean v"
proof -
  from at_rest_root [OF assms] obtain n where n: "mt_heap w (root_addr t) = Some n"
    "ver_clean (node_version_of n)" "nv_is_root NP (node_version_of n)" by blast
  have "reach_root w (root_addr t) = Some (root_addr t, node_version_of n)"
    using n by (subst reach_root.simps) (simp add: node_stable_at)
  with n that show thesis by simp
qed

lemma reach_root_up:
  fixes t :: "'v tree"
  assumes "at_rest w False par t" "par \<noteq> 0" "r \<in> set (layer_addrs t)"
  shows "reach_root w r = reach_root w par"
  using assms
proof (induction t arbitrary: par rule: tree.induct [where ?P2.0 = "\<lambda>_. True"])
  case (TLeaf p es)
  then have "at_rest w False par (TLeaf p es)" "TLeaf p es \<noteq> TNil" by simp_all
  from at_rest_root [OF this] obtain n where "mt_heap w p = Some n" "ver_clean (node_version_of n)"
    "\<not> nv_is_root NP (node_version_of n)" "node_parent w p = Some par" by auto
  with TLeaf show ?case
    by (subst reach_root.simps) (simp add: node_stable_at maybe_parent_def parent_exists_def)
next
  case (TNode p ks ts)
  then have "at_rest w False par (TNode p ks ts)" "TNode p ks ts \<noteq> TNil" by simp_all
  from at_rest_root [OF this] obtain n where n: "mt_heap w p = Some n" "ver_clean (node_version_of n)"
    "\<not> nv_is_root NP (node_version_of n)" "node_parent w p = Some par" "p \<noteq> 0" by auto
  have p: "reach_root w p = reach_root w par"
    using n TNode.prems by (subst reach_root.simps) (simp add: node_stable_at maybe_parent_def parent_exists_def)
  show ?case
  proof (cases "r = p")
    case False
    with TNode.prems obtain t where "t \<in> set ts" "r \<in> set (layer_addrs t)" "at_rest w False p t"
      by (auto simp: at_rest_node)
    with TNode.IH n(5) p show ?thesis by simp
  qed (simp add: p)
qed simp_all

text \<open>From any node of a layer the parents lead to the root of the layer.\<close>

lemma reach_root_layer:
  assumes "at_rest w True 0 t" "r \<in> set (layer_addrs t)"
  shows "reach_root w r = reach_root w (root_addr t)"
proof (cases t)
  case (TNode p ks ts)
  show ?thesis
  proof (cases "r = p")
    case False
    with TNode assms obtain u where "u \<in> set ts" "r \<in> set (layer_addrs u)" "at_rest w False p u"
      by (auto simp: at_rest_node)
    moreover have "p \<noteq> 0" using TNode assms by (simp add: at_rest_node node_rep_def)
    ultimately show ?thesis using reach_root_up TNode by auto
  qed (simp add: TNode)
qed (use assms in simp_all)

section \<open>Descending to a leaf\<close>

definition upper_pos :: "u64 list \<Rightarrow> u64 \<Rightarrow> nat" where
  "upper_pos ks i = length (takeWhile (\<lambda>k. k \<le> i) ks)"

text \<open>The leaf of a layer that is responsible for a slice.\<close>

primrec descend :: "'v tree \<Rightarrow> u64 \<Rightarrow> 'v tree" where
  "descend TNil = (\<lambda>i. TNil)"
| "descend (TLeaf p es) = (\<lambda>i. TLeaf p es)"
| "descend (TNode p ks ts) = (\<lambda>i. (map descend ts ! upper_pos ks i) i)"

lemma upper_pos_le: "upper_pos ks i \<le> length ks"
  by (simp add: upper_pos_def length_takeWhile_le)

lemma internode_upper_pos:
  assumes "take (i_nkeys n) (i_ikey0 n) = ks" "sorted_wrt (<) ks" "inode_ok n"
  shows "internode_upper a n = upper_pos ks a" "inode_sorted n"
proof -
  have l: "length ks = i_nkeys n" using assms(1,3) by (auto simp: inode_ok_def)
  have k: "i_ikey0 n ! i = ks ! i" if "i < i_nkeys n" for i using assms(1) that by auto
  show s: "inode_sorted n"
    using assms(2) l by (auto simp: inode_sorted_def k sorted_wrt_iff_nth_less)
  let ?u = "upper_pos ks a"
  have "is_upper (internode_compare_key a n) identity_get (i_nkeys n) ?u"
    unfolding is_upper_def identity_get_def internode_compare_sign
  proof (intro conjI allI impI)
    show "?u \<le> i_nkeys n" using upper_pos_le l by metis
    fix i assume i: "i < ?u"
    then have "ks ! i \<in> set (takeWhile (\<lambda>k. k \<le> a) ks)"
      by (metis nth_mem takeWhile_nth upper_pos_def)
    then have "ks ! i \<le> a" by (auto dest: set_takeWhileD)
    then show "i_ikey0 n ! i \<le> a" using k [of i] i upper_pos_le [of ks a] l by simp
  next
    fix i assume i: "i < i_nkeys n" "?u \<le> i"
    then have "a < ks ! ?u"
      using nth_length_takeWhile [of "\<lambda>k. k \<le> a" ks] l by (simp add: upper_pos_def)
    also have "ks ! ?u \<le> ks ! i"
      using i l assms(2) by (cases "?u = i") (auto simp: sorted_wrt_iff_nth_less less_le)
    finally show "a < i_ikey0 n ! i" using k i by simp
  qed
  then show "internode_upper a n = ?u"
    using is_upper_unique inode_search.bound_upper_correct [OF s] unfolding internode_upper_def by blast
qed

lemma wf_children_length: "wf_children cs ks lo hi \<Longrightarrow> length cs = length ks + 1"
  by (induction cs ks lo hi rule: wf_children.induct) auto

lemma wf_children_pick:
  assumes "wf_children cs ks lo hi" "lo \<le> unat i" "unat i < hi"
  shows "\<exists>lo' hi'. (cs ! upper_pos ks i) lo' hi' \<and> lo' \<le> unat i \<and> unat i < hi' \<and> lo \<le> lo' \<and> hi' \<le> hi"
  using assms
proof (induction cs ks lo hi rule: wf_children.induct)
  case (2 c cs k ks lo hi)
  have w: "lo \<le> unat k" "unat k < hi" "c lo (unat k)" "wf_children cs ks (unat k) hi"
    using 2(2) by simp_all
  show ?case
  proof (cases "k \<le> i")
    case True
    then have "unat k \<le> unat i" by (simp add: word_le_nat_alt)
    from 2(1) [OF w(4) this 2(4)] obtain lo' hi' where
      "(cs ! upper_pos ks i) lo' hi'" "lo' \<le> unat i" "unat i < hi'" "unat k \<le> lo'" "hi' \<le> hi" by auto
    with w(1) True show ?thesis by (auto simp: upper_pos_def intro: order_trans)
  next
    case False
    then have "unat i < unat k" by (simp add: word_le_nat_alt)
    with False w 2 show ?thesis by (auto simp: upper_pos_def intro: less_imp_le)
  qed
qed (auto simp: upper_pos_def)

lemma wf_children_other:
  assumes "wf_children cs ks lo hi" "j < length cs" "j \<noteq> upper_pos ks i"
  shows "\<exists>lo' hi'. (cs ! j) lo' hi' \<and> (unat i < lo' \<or> hi' \<le> unat i)"
  using assms
proof (induction cs ks lo hi arbitrary: j rule: wf_children.induct)
  case (2 c cs k ks lo hi)
  have w: "lo \<le> unat k" "unat k < hi" "c lo (unat k)" "wf_children cs ks (unat k) hi"
    using 2(2) by simp_all
  show ?case
  proof (cases j)
    case 0
    with 2 have "k \<le> i" by (auto simp: upper_pos_def split: if_splits)
    with 0 w show ?thesis by (auto simp: word_le_nat_alt)
  next
    case (Suc j')
    show ?thesis
    proof (cases "k \<le> i")
      case True
      have "j' < length cs" "j' \<noteq> upper_pos ks i" using 2 Suc True by (auto simp: upper_pos_def)
      then show ?thesis using 2(1) [OF w(4)] Suc by simp
    next
      case False
      then have lt: "unat i < unat k" by (simp add: word_le_nat_alt)
      have "cs ! j' \<in> set cs" using 2 Suc by simp
      from wf_children_sub [OF w(4) this] obtain lo' hi' where "unat k \<le> lo'" "(cs ! j') lo' hi'" by blast
      with lt Suc show ?thesis by (auto intro: order.strict_trans2)
    qed
  qed
qed (auto simp: upper_pos_def)

text \<open>The leaf is well-formed and alone responsible: the tree knows of a key what the leaf knows.\<close>

lemma descend_leaf:
  fixes t :: "'v tree"
  assumes "wf_tree t lo hi" "lo \<le> unat i" "unat i < hi"
  shows "\<exists>p es lo' hi'. descend t i = TLeaf p es \<and> wf_tree (TLeaf p es) lo' hi' \<and> lo \<le> lo' \<and> hi' \<le> hi \<and>
    lo' \<le> unat i \<and> unat i < hi' \<and> p \<in> set (layer_addrs t) \<and>
    (\<forall>s. ikey_of s = i \<longrightarrow> tree_map t s = first_of (map slot_map es) s)"
  using assms
proof (induction t arbitrary: lo hi rule: tree.induct [where ?P2.0 = "\<lambda>_. True"])
  case (TLeaf p es)
  then show ?case by auto
next
  case (TNode p ks ts)
  let ?u = "upper_pos ks i"
  have w: "wf_children (map wf_tree ts) ks lo hi" using TNode.prems by simp
  have l: "length ts = length ks + 1" using wf_children_length [OF w] by simp
  then have u: "?u < length ts" using upper_pos_le [of ks i] by simp
  from wf_children_pick [OF w TNode.prems(2,3)] obtain lo' hi' where
    lh: "wf_tree (ts ! ?u) lo' hi'" "lo' \<le> unat i" "unat i < hi'" "lo \<le> lo'" "hi' \<le> hi" using u by auto
  have "ts ! ?u \<in> set ts" using u by simp
  from TNode.IH [OF this lh(1-3)] obtain q es lo2 hi2 where ih: "descend (ts ! ?u) i = TLeaf q es"
    "wf_tree (TLeaf q es) lo2 hi2" "lo' \<le> lo2" "hi2 \<le> hi'" "lo2 \<le> unat i" "unat i < hi2"
    "q \<in> set (layer_addrs (ts ! ?u))"
    "\<forall>s. ikey_of s = i \<longrightarrow> tree_map (ts ! ?u) s = first_of (map slot_map es) s" by blast
  have "tree_map (TNode p ks ts) s = tree_map (ts ! ?u) s" if s: "ikey_of s = i" for s
  proof -
    have "tree_map u s = None" if m: "u \<in> set ts" "tree_map u \<noteq> tree_map (ts ! ?u)" for u
    proof -
      from m obtain j where j: "j < length ts" "u = ts ! j" "j \<noteq> ?u" by (metis in_set_conv_nth)
      from wf_children_other [OF w, of j i] j obtain a b where
        "wf_tree u a b" "unat i < a \<or> b \<le> unat i" by auto
      with tree_map_range [of u a b s] s show ?thesis by (metis not_less)
    qed
    then have "first_of (map tree_map ts) s = tree_map (ts ! ?u) s"
      using u by (intro first_of_unique) auto
    then show ?thesis by simp
  qed
  moreover have "q \<in> set (layer_addrs (TNode p ks ts))" using ih(7) u by auto
  moreover have "descend (TNode p ks ts) i = TLeaf q es" using ih(1) u by simp
  moreover have "lo \<le> lo2" "hi2 \<le> hi" using ih(3,4) lh(4,5) by simp_all
  ultimately show ?case using ih(2,5,6,8) by (intro exI [of _ q] exI [of _ es] exI [of _ lo2] exI [of _ hi2]) simp
qed simp_all

section \<open>Reaching the leaf\<close>

lemma reach_leaf_loop_at:
  fixes t :: "'v tree"
  assumes "at_rest w root par t" "wf_tree t lo hi" "lo \<le> unat (k_ikey0 ka)" "unat (k_ikey0 ka) < hi"
    "node_version w (root_addr t) = Some v"
  shows "\<exists>v'. reach_leaf_loop w this ka (root_addr t) v = Some (root_addr (descend t (k_ikey0 ka)), v') \<and>
    node_version w (root_addr (descend t (k_ikey0 ka))) = Some v' \<and>
    (\<exists>root par. at_rest w root par (descend t (k_ikey0 ka)))"
  using assms
proof (induction t arbitrary: lo hi root par v rule: tree.induct [where ?P2.0 = "\<lambda>_. True"])
  case (TLeaf p es)
  then have "nv_isleaf NP v"
    by (auto simp: at_rest_leaf node_rep_def ver_shape_def elim!: node_ok.elims)
  with TLeaf show ?case by (auto simp: reach_leaf_loop.simps)
next
  case (TNode p ks ts)
  let ?i = "k_ikey0 ka" let ?u = "upper_pos ks ?i"
  obtain n where n: "mt_heap w p = Some (Internode n)" "ver_shape False root (i_version n)" "inode_ok n"
    "take (i_nkeys n) (i_ikey0 n) = ks" "take (i_nkeys n + 1) (i_child n) = map root_addr ts"
    using TNode.prems(1) by (auto simp: at_rest_node node_rep_def elim!: node_ok.elims)
  have v: "v = i_version n" using TNode.prems(5) n(1) by simp
  have w: "wf_children (map wf_tree ts) ks lo hi" "sorted_wrt (<) ks" using TNode.prems(2) by simp_all
  have l: "length ts = length ks + 1" using wf_children_length [OF w(1)] by simp
  then have u: "?u < length ts" using upper_pos_le [of ks ?i] by simp
  from wf_children_pick [OF w(1) TNode.prems(3,4)] obtain lo' hi' where
    lh: "wf_tree (ts ! ?u) lo' hi'" "lo' \<le> unat ?i" "unat ?i < hi'" using u by auto
  have t: "ts ! ?u \<in> set ts" "at_rest w False p (ts ! ?u)" "ts ! ?u \<noteq> TNil"
    using u TNode.prems(1) lh by (auto simp: at_rest_node)
  from at_rest_root [OF t(2,3)] obtain c where c: "mt_heap w (root_addr (ts ! ?u)) = Some c"
    "root_addr (ts ! ?u) \<noteq> 0" "ver_clean (node_version_of c)" by blast
  have "length ks = i_nkeys n" using n(3,4) by (auto simp: inode_ok_def)
  then have "i_child n ! ?u = take (i_nkeys n + 1) (i_child n) ! ?u"
    using upper_pos_le [of ks ?i] by simp
  also have "\<dots> = root_addr (ts ! ?u)" unfolding n(5) using u by simp
  finally have ch: "i_child n ! ?u = root_addr (ts ! ?u)" .
  have "reach_leaf_loop w this ka p v = reach_leaf_loop w this ka (root_addr (ts ! ?u)) (node_version_of c)"
    using n(1,2) c v ch internode_upper_pos(1) [OF n(4) w(2) n(3), of ?i]
    by (subst reach_leaf_loop.simps)
      (simp add: ver_shape_def ld_inode_def node_stable_at node_has_changed_def)
  with TNode.IH [OF t(1,2) lh, of "node_version_of c"] c u show ?case by simp
qed simp_all

lemma at_rest_nil: "wf_tree t lo hi \<Longrightarrow> lo < hi \<Longrightarrow> t \<noteq> TNil"
  by auto

lemma unat_top: "unat (i :: u64) < top"
  unfolding top_def using unsigned_less [of i, where ?'a = nat] by simp

lemma reach_leaf_at:
  assumes t: "at_rest w True 0 t" "wf_tree t 0 top" "r \<in> set (layer_addrs t)"
  shows "\<exists>v p es root par. reach_leaf w r ka = Some (p, v) \<and> descend t (k_ikey0 ka) = TLeaf p es \<and>
    node_version w p = Some v \<and> at_rest w root par (TLeaf p es)"
proof -
  have "t \<noteq> TNil" using t(2) by (rule at_rest_nil) (simp add: top_def)
  from reach_root_here [OF t(1) this] obtain v where v:
    "reach_root w (root_addr t) = Some (root_addr t, v)" "node_version w (root_addr t) = Some v" by blast
  from descend_leaf [OF t(2) _ unat_top, of "k_ikey0 ka"] obtain p es where
    d: "descend t (k_ikey0 ka) = TLeaf p es" by auto
  have l: "reach_leaf w r ka = reach_leaf_loop w r ka (root_addr t) v"
    unfolding reach_leaf_def reach_root_layer [OF t(1,3)] v(1) by simp
  from reach_leaf_loop_at [OF t(1,2) _ unat_top v(2), of ka r] d show ?thesis unfolding l by auto
qed

section \<open>The slots of a leaf\<close>

lemma slot_view_fst [simp]: "fst (slot_view e) = slot_ikey e" "fst (snd (slot_view e)) = slot_keylenx e"
  by (cases e; simp)+

lemma leaf_at:
  assumes "at_rest w root par (TLeaf p es)" "wf_tree (TLeaf p es) lo hi"
  obtains l where "mt_heap w p = Some (Leaf l)" "ver_shape True root (l_version l)"
    "ver_clean (l_version l)" "l_parent l = par" "leaf_ok l" "leaf_view l = map slot_view es"
  using assms by (auto simp: at_rest_leaf node_rep_def quiet_def elim!: node_ok.elims)

lemma perm_get_less: "perm_wf W x \<Longrightarrow> i < W \<Longrightarrow> perm_get x i < W"
  using nth_mem [of i "plist W x"] by (simp add: perm_wf_def)

lemma leaf_view_nth:
  assumes "leaf_ok l" "leaf_view l = map slot_view es"
  shows "leaf_size l = length es"
    "i < length es \<Longrightarrow> perm_get (l_permutation l) i < width \<and>
       slot_of l (perm_get (l_permutation l) i) = slot_view (es ! i)"
proof -
  show s: "leaf_size l = length es" using arg_cong [OF assms(2), of length] by (simp add: leaf_view_def leaf_slots_def)
  have w: "perm_wf width (l_permutation l)" using assms(1) by (simp add: leaf_ok_def)
  assume i: "i < length es"
  then have "leaf_view l ! i = slot_view (es ! i)" using assms(2) by simp
  then have "slot_of l (perm_get (l_permutation l) i) = slot_view (es ! i)"
    using i s by (simp add: leaf_view_def leaf_slots_def)
  moreover have "perm_get (l_permutation l) i < width"
    by (rule perm_get_less [OF w]) (use w i s in \<open>simp add: perm_wf_def leaf_size_def\<close>)
  ultimately show "perm_get (l_permutation l) i < width \<and>
       slot_of l (perm_get (l_permutation l) i) = slot_view (es ! i)" by simp
qed

lemma leaf_view_rank:
  assumes "leaf_ok l" "leaf_view l = map slot_view es" "i < length es"
  shows "l_ikey0 l ! perm_get (l_permutation l) i = slot_ikey (es ! i)"
    "l_keylenx l ! perm_get (l_permutation l) i = slot_keylenx (es ! i)"
    "leaf_slot_rank l (perm_get (l_permutation l) i) = rank_of (es ! i)"
proof -
  have e: "slot_of l (perm_get (l_permutation l) i) = slot_view (es ! i)"
    using leaf_view_nth(2) [OF assms] by simp
  from arg_cong [OF e, of fst] arg_cong [OF e, of "fst \<circ> snd"]
  show "l_ikey0 l ! perm_get (l_permutation l) i = slot_ikey (es ! i)"
    "l_keylenx l ! perm_get (l_permutation l) i = slot_keylenx (es ! i)"
    by (simp_all add: slot_of_def)
  then show "leaf_slot_rank l (perm_get (l_permutation l) i) = rank_of (es ! i)"
    by (simp add: leaf_slot_rank_def rank_of_def)
qed

lemma leaf_view_sorted:
  assumes "leaf_ok l" "leaf_view l = map slot_view es" "wf_tree (TLeaf p es) lo hi"
  shows "leaf_sorted l"
proof -
  note s = leaf_view_nth(1) [OF assms(1,2)] and r = leaf_view_rank [OF assms(1,2)]
  have "leaf_ranks l = map rank_of es"
    by (rule nth_equalityI) (simp_all add: leaf_ranks_def s r)
  moreover have "0 \<le> slot_keylenx (es ! i)" if "i < length es" for i
    using assms(3) that by (auto intro!: wf_slot_keylenx)
  ultimately show ?thesis using assms(3) by (simp add: leaf_sorted_def s r)
qed

lemma key_rank_str: "key_wf k \<Longrightarrow> key_rank k = str_rank (key_str k)"
  by (simp add: key_rank_def str_rank_def key_wf_def length_key_str)

lemma leaf_find:
  assumes "leaf_ok l" "leaf_view l = map slot_view es" "wf_tree (TLeaf p es) lo hi" "key_wf k"
  shows "\<exists>i \<le> length es. kx_i (leaf_lower k l) = int i \<and>
    (\<forall>j < i. rank_of (es ! j) < str_rank (key_str k)) \<and>
    (\<forall>j < length es. i < j \<longrightarrow> str_rank (key_str k) < rank_of (es ! j)) \<and>
    (if kx_p (leaf_lower k l) = -1
     then i < length es \<longrightarrow> str_rank (key_str k) < rank_of (es ! i)
     else i < length es \<and> kx_p (leaf_lower k l) = int (perm_get (l_permutation l) i) \<and>
       rank_of (es ! i) = str_rank (key_str k))"
proof -
  note s = leaf_view_nth(1) [OF assms(1,2)] and r = leaf_view_rank [OF assms(1,2)]
  have "0 \<le> k_len k" using assms(4) by (simp add: key_wf_def)
  from leaf_lower_spec [OF leaf_view_sorted [OF assms(1-3)] this]
  show ?thesis unfolding s key_rank_str [OF assms(4)]
    by (elim exE conjE) (rule exI, intro conjI, assumption+, auto simp: r split: if_splits)
qed

end
