(* ===== verification/MT_Lookup.thy ===== *)
theory MT_Lookup
  imports MT_Rep
begin

text \<open>
  Lookup is right: on a table at rest, \<open>get\<close> walks the layers to the leaf that is responsible
  for the key, finds the slot with the rank of the key when there is one, and compares the
  suffix exactly, so it returns what the shape of the table maps the key to.
\<close>

section \<open>What a matching slot says\<close>

lemma leaf_bag_wf:
  assumes "leaf_ok l" "leaf_bag l = Some b"
  shows "\<exists>ot. sb_wf ot width b"
  using assms by (auto simp: leaf_ok_def leaf_bag_def split: option.splits)

text \<open>The comparison of a suffix in the bag with the key is exact although it reads
  whole words: both strings are inside their memory.\<close>

lemma suffix_compare:
  assumes "sb_wf ot width b" "q < width" "key_wf k" "8 < length (key_str k)" "sb_info b ! q = (pos, len)"
  shows "int len = key_suffix_length k \<and>
      equals_sloppy (sb_mem b) pos (k_mem k) (k_s k + nat ikey_size) (int len) \<longleftrightarrow>
    drop 8 (key_str k) = sb_get b q"
proof (cases "int len = key_suffix_length k")
  case True
  have kl: "int (length (key_str k)) = k_len k" using assms(3) by (rule length_key_str)
  have b: "pos + len \<le> length (sb_mem b)"
    using assms(1,2,5) by (fastforce simp: sb_wf_def)
  have m: "k_s k + 8 + len \<le> length (k_mem k)"
  proof -
    have "nat (k_len k) = len + 8" using True by (simp add: key_suffix_length_def ikey_size_def)
    with assms(3) show ?thesis by (simp add: key_wf_def)
  qed
  have "nat (k_len k) - 8 = len" using True by (simp add: key_suffix_length_def ikey_size_def)
  then have d: "drop 8 (key_str k) = mem_read (k_mem k) (k_s k + 8) len"
    by (simp add: key_str_def drop_mem_read)
  have e: "equals_sloppy (sb_mem b) pos (k_mem k) (k_s k + 8) (int len) \<longleftrightarrow>
      mem_read (sb_mem b) pos len = mem_read (k_mem k) (k_s k + 8) len"
    using equals_sloppy_eq [of pos "int len" "sb_mem b" "k_s k + 8" "k_mem k"] b m by simp
  have "nat ikey_size = 8" by (simp add: ikey_size_def)
  then have "int len = key_suffix_length k \<and>
      equals_sloppy (sb_mem b) pos (k_mem k) (k_s k + nat ikey_size) (int len) \<longleftrightarrow>
    mem_read (sb_mem b) pos len = mem_read (k_mem k) (k_s k + 8) len"
    using e True by (simp only: simp_thms)
  moreover have "sb_get b q = mem_read (sb_mem b) pos len" by (simp add: sb_get_def assms(5))
  ultimately show ?thesis unfolding d by metis
next
  case False
  have "length (sb_get b q) = len"
    using assms(1,2,5) by (fastforce simp: sb_get_def sb_wf_def)
  moreover from False length_key_str [OF assms(3)] assms(4) have "length (drop 8 (key_str k)) \<noteq> len"
    by (simp add: key_suffix_length_def ikey_size_def)
  ultimately have "drop 8 (key_str k) \<noteq> sb_get b q" by metis
  with False show ?thesis by simp
qed

lemma ksuf_matches_at:
  assumes l: "leaf_ok l" "leaf_view l = map slot_view es" and k: "key_wf k"
    and i: "i < length es" "wf_slot (es ! i)" "rank_of (es ! i) = str_rank (key_str k)"
  shows "es ! i = SVal a b suf v \<Longrightarrow> leaf_ksuf_matches l (perm_get (l_permutation l) i) k =
      Some (if slot_map (es ! i) (key_str k) = Some v then 1 else 0) \<and>
      l_lv l ! perm_get (l_permutation l) i = LV_value v"
    "es ! i = SLayer a r t \<Longrightarrow> leaf_ksuf_matches l (perm_get (l_permutation l) i) k = Some (-8) \<and>
      l_lv l ! perm_get (l_permutation l) i = LV_layer r"
proof -
  let ?q = "perm_get (l_permutation l) i" and ?s = "key_str k"
  note v = leaf_view_nth(2) [OF l i(1)] and r = leaf_view_rank(1,2) [OF l i(1)]
  have lv: "l_lv l ! ?q = snd (snd (snd (slot_view (es ! i))))"
    using arg_cong [OF conjunct2 [OF v], of "snd \<circ> snd \<circ> snd"] by (simp add: slot_of_def)
  {
    assume e: "es ! i = SLayer a r t"
    with lv r show "leaf_ksuf_matches l ?q k = Some (-8) \<and> l_lv l ! ?q = LV_layer r"
      by (simp add: leaf_ksuf_matches_def ksuf_keylenx_def layer_keylenx_def ikey_size_def)
  next
    assume e: "es ! i = SVal a b suf v"
    have ab: "l_ikey0 l ! ?q = a" "l_keylenx l ! ?q = b" using e r by simp_all
    have m: "leaf_ksuf_matches l ?q k = Some (if slot_matches a b suf ?s then 1 else 0)"
    proof (cases "b = ksuf_keylenx")
      case False
      with e i(2) have b: "0 \<le> b" "b \<le> 8" by auto
      from i(3) e b have "a = ikey_of ?s \<and> int (length ?s) = b"
        by (auto simp: rank_of_def str_rank_def slot_rank_eq)
      with b show ?thesis
        by (simp add: leaf_ksuf_matches_def ab slot_matches_def ksuf_keylenx_def)
    next
      case True
      from i(3) e True have s: "a = ikey_of ?s" "8 < length ?s"
        by (auto simp: rank_of_def str_rank_def slot_rank_eq ksuf_keylenx_def)
      have h: "leaf_has_ksuf l ?q" using ab True by (simp add: leaf_has_ksuf_def keylenx_has_ksuf_def)
      have "?q \<in> set (leaf_slots l)" using i(1) leaf_view_nth(1) [OF l] by (simp add: leaf_slots_def)
      with h l(1) obtain bag where b: "leaf_bag l = Some bag" by (auto simp: leaf_ok_def)
      obtain ot where w: "sb_wf ot width bag" using leaf_bag_wf [OF l(1) b] ..
      obtain pos len where p: "sb_info bag ! ?q = (pos, len)" by fastforce
      have "suf = sb_get bag ?q" using conjunct2 [OF v] h b e by (simp add: slot_of_def leaf_ksuf_def)
      then show ?thesis
        using suffix_compare [OF w conjunct1 [OF v] k s(2) p] ab True b p s
        by (simp add: leaf_ksuf_matches_def slot_matches_def ksuf_keylenx_def layer_keylenx_def)
    qed
    with e lv show "leaf_ksuf_matches l ?q k = Some (if slot_map (es ! i) ?s = Some v then 1 else 0) \<and>
        l_lv l ! ?q = LV_value v"
      by simp
  }
qed

lemma leaf_map_at:
  assumes "wf_tree (TLeaf p es) lo hi" "i < length es" "rank_of (es ! i) = str_rank s"
  shows "first_of (map slot_map es) s = slot_map (es ! i) s"
proof (rule first_of_unique)
  show "slot_map (es ! i) \<in> set (map slot_map es)" using assms(2) by simp
  fix m assume m: "m \<in> set (map slot_map es)" "m \<noteq> slot_map (es ! i)"
  then obtain j where j: "j < length es" "m = slot_map (es ! j)" by (auto simp: in_set_conv_nth)
  with m have "j \<noteq> i" by auto
  have "sorted_wrt (<) (map rank_of es)" using assms(1) by simp
  then have "rank_of (es ! j) \<noteq> rank_of (es ! i)"
    using j(1) assms(2) \<open>j \<noteq> i\<close>
    by (metis length_map less_irrefl linorder_neqE_nat nth_map sorted_wrt_nth_less)
  moreover have "wf_slot (es ! j)" using assms(1) j(1) by simp
  ultimately show "m s = None" using slot_map_rank [of "es ! j" s] j(2) assms(3) by metis
qed

lemma leaf_map_none:
  assumes "wf_tree (TLeaf p es) lo hi" "\<And>i. i < length es \<Longrightarrow> rank_of (es ! i) \<noteq> str_rank s"
  shows "first_of (map slot_map es) s = None"
  unfolding first_of_none using assms slot_map_rank by (fastforce simp: in_set_conv_nth)

section \<open>Lookup\<close>

lemma key_shift_by_8: "key_shift_by k 8 = key_shift k"
  by (simp add: key_shift_by_def key_shift_def ikey_size_def)

lemma find_unlocked_at:
  assumes "at_rest w True 0 t" "wf_tree t 0 top" "r \<in> set (layer_addrs t)"
    and "key_wf (uc_ka c)" "key_str (uc_ka c) = s"
  shows "\<exists>n v. reach_leaf w r (uc_ka c) = Some (n, v) \<and>
    (\<exists>c' m. find_unlocked_forward w r (c\<lparr>uc_n := n, uc_v := v\<rparr>) = Some (c', m) \<and>
      (case tree_map t s of None \<Rightarrow> m = 0 | Some x \<Rightarrow> m \<noteq> 0 \<and> uc_lv c' = LV_value x))"
  using assms
proof (induction "length s" arbitrary: t r c s rule: less_induct)
  case less
  let ?k = "uc_ka c"
  have ik: "k_ikey0 ?k = ikey_of s" using less.prems by (simp add: key_wf_def)
  from reach_leaf_at [OF less.prems(1-3), of ?k] obtain n v es root par where
    rl: "reach_leaf w r ?k = Some (n, v)" "descend t (ikey_of s) = TLeaf n es"
      "node_version w n = Some v" "at_rest w root par (TLeaf n es)" unfolding ik by blast
  from descend_leaf [OF less.prems(2) _ unat_top, of "ikey_of s"] rl(2) obtain lo hi where
    wf: "wf_tree (TLeaf n es) lo hi" and tm: "tree_map t s = first_of (map slot_map es) s" by auto
  from leaf_at [OF rl(4) wf] obtain l where l: "mt_heap w n = Some (Leaf l)" "ver_shape True root (l_version l)"
    "leaf_ok l" "leaf_view l = map slot_view es" by blast
  have v: "v = l_version l" using rl(3) l(1) by simp
  let ?c = "c\<lparr>uc_n := n, uc_v := v\<rparr>"
  note fwd = find_unlocked_forward.simps [of w r ?c]
  have nd: "\<not> nv_deleted NP v" "ld_leaf w n = Some l" "node_has_changed w n v = Some False"
    using l v by (simp_all add: ver_shape_def ld_leaf_def node_has_changed_def)
  note lf = leaf_find [OF l(3,4) wf less.prems(4)]
  show ?case
  proof (cases "kx_p (leaf_lower ?k l) = -1")
    case True
    from lf obtain i where i: "i \<le> length es" "\<forall>j < i. rank_of (es ! j) < str_rank s"
      "\<forall>j < length es. i < j \<longrightarrow> str_rank s < rank_of (es ! j)"
      "i < length es \<longrightarrow> str_rank s < rank_of (es ! i)"
      using True less.prems(5) by auto
    have "rank_of (es ! j) \<noteq> str_rank s" if "j < length es" for j
      using i that by (cases j i rule: linorder_cases) auto
    then have "tree_map t s = None" using leaf_map_none [OF wf] tm by simp
    moreover have "find_unlocked_forward w r ?c = Some (?c\<lparr>uc_perm := l_permutation l\<rparr>, 0)"
      unfolding fwd using nd True by simp
    ultimately show ?thesis using rl(1) by simp
  next
    case False
    with lf obtain i where i: "i < length es" "kx_p (leaf_lower ?k l) = int (perm_get (l_permutation l) i)"
      "rank_of (es ! i) = str_rank (key_str ?k)" by auto
    have ws: "wf_slot (es ! i)" using wf i(1) by simp
    have tm: "tree_map t s = slot_map (es ! i) s"
      unfolding tm using leaf_map_at [OF wf i(1)] i(3) less.prems(5) by simp
    note m = ksuf_matches_at [OF l(3,4) less.prems(4) i(1) ws i(3)]
    show ?thesis
    proof (cases "es ! i")
      case (SVal a b suf x)
      let ?m = "if slot_map (es ! i) s = Some x then 1 else 0 :: int"
      have "find_unlocked_forward w r ?c = Some (?c\<lparr>uc_perm := l_permutation l, uc_lv := LV_value x\<rparr>, ?m)"
        unfolding fwd using nd m(1) [OF SVal] i(2) less.prems(5) by simp
      then show ?thesis using rl(1) SVal tm by simp
    next
      case (SLayer a r' t')
      have "SLayer a r' t' \<in> set es" using SLayer i(1) by (metis nth_mem)
      then have t': "at_rest w True 0 t'" using rl(4) by (auto simp: at_rest_leaf)
      have wt: "wf_tree t' 0 top" "r' \<in> set (layer_addrs t')" using ws SLayer by simp_all
      have s: "a = ikey_of s" "8 < length s"
        using i(3) SLayer less.prems(5)
        by (auto simp: rank_of_def str_rank_def slot_rank_eq layer_keylenx_def)
      have hs: "key_has_suffix ?k"
        using s less.prems(4,5) length_key_str [of ?k] by (simp add: key_has_suffix_def ikey_size_def)
      let ?c' = "c\<lparr>uc_perm := l_permutation l, uc_lv := LV_layer r', uc_ka := key_shift ?k\<rparr>"
      have k': "key_wf (uc_ka ?c')" "key_str (uc_ka ?c') = drop 8 s"
        using key_shift_wf [OF less.prems(4) hs] less.prems(5) by simp_all
      have "length (drop 8 s) < length s" using s by simp
      from less.hyps [OF this t' wt k'] obtain n' v' c2 m2 where
        ih: "reach_leaf w r' (key_shift ?k) = Some (n', v')"
          "find_unlocked_forward w r' (?c'\<lparr>uc_n := n', uc_v := v'\<rparr>) = Some (c2, m2)"
          "case tree_map t' (drop 8 s) of None \<Rightarrow> m2 = 0 | Some x \<Rightarrow> m2 \<noteq> 0 \<and> uc_lv c2 = LV_value x"
        by auto
      have "find_unlocked_forward w r ?c = find_unlocked_forward w r' (?c'\<lparr>uc_n := n', uc_v := v'\<rparr>)"
        unfolding fwd using nd m(2) [OF SLayer] i(2) ih(1) by (simp add: key_shift_by_8)
      moreover have "tree_map t s = tree_map t' (drop 8 s)" using tm SLayer s by simp
      ultimately show ?thesis using rl(1) ih(2,3) by simp
    qed
  qed
qed

section \<open>Tables\<close>

text \<open>The world is a table at rest with shape \<open>t\<close>: the root pointer is some node of the top
  layer (an old root, after a split), every node is there, quiet and different from the
  others.\<close>

definition table_rep :: "'v mt \<Rightarrow> 'v tree \<Rightarrow> bool" where
  "table_rep w t \<longleftrightarrow> at_rest w True 0 t \<and> wf_tree t 0 top \<and> distinct (addrs t) \<and>
     mt_root w \<in> set (layer_addrs t)"

lemma table_get:
  assumes "table_rep w t"
  shows "mt_get w s = Some (tree_map t s)"
proof -
  let ?c = "unlocked_tcursor_make (mt_root w) s :: 'a unlocked_tcursor"
  have k: "key_wf (uc_ka ?c)" "key_str (uc_ka ?c) = s" "uc_root ?c = mt_root w"
    using key_make_wf [of "int (length s)" 0 s] by (simp_all add: unlocked_tcursor_make_def)
  from find_unlocked_at [OF _ _ _ k(1,2), of w t "mt_root w"] assms obtain n v c' m where
    "reach_leaf w (mt_root w) (uc_ka ?c) = Some (n, v)"
    "find_unlocked_forward w (mt_root w) (?c\<lparr>uc_n := n, uc_v := v\<rparr>) = Some (c', m)"
    "case tree_map t s of None \<Rightarrow> m = 0 | Some x \<Rightarrow> m \<noteq> 0 \<and> uc_lv c' = LV_value x"
    unfolding table_rep_def by blast
  then show ?thesis
    by (simp add: mt_get_def find_unlocked_def k split: option.splits)
qed

lemma leaf_make_root_top:
  "leaf_make_root w 0 0 = Some (mt_next w, w\<lparr>mt_heap := (mt_heap w)(mt_next w \<mapsto>
     Leaf \<lparr>l_version = 0xC0000000, l_extrasize64 = 0, l_modstate = modstate_insert,
       l_keylenx = replicate width 0, l_permutation = make_empty width,
       l_ikey0 = replicate width 0, l_lv = replicate width LV_empty, l_ksuf = None,
       l_next = 0, l_prev = 0, l_parent = 0, l_phantom_epoch = 0, l_iksuf = None\<rparr>),
     mt_next := mt_next w + 1\<rparr>)"
proof -
  have sz: "unat (iceil (312 :: u64) 64) = 320" by code_simp
  have v: "nv_mark_root NP (nv_make NP True) = 0xC0000000"
    by (simp add: nv_mark_root_def nv_make_def nodeversion_parameters32_def)
  have r: "(replicate width 0)[0 := 0] = replicate width (0 :: u64)"
    by (simp add: width_def numeral_eq_Suc)
  show ?thesis
    by (simp add: leaf_make_root_def leaf_make_def leaf_sizeof_def sz leaf_new_def Let_def alloc_node_def
        st_leaf_def st_node_def ld_leaf_def make_layer_root_def set_parent_def upd_version_def v r)
qed

lemma initialize_rep:
  assumes "mt_root w = 0" "0 < mt_next w"
  shows "\<exists>w'. mt_initialize w = Some w' \<and> table_rep w' (TLeaf (mt_next w) [])"
proof -
  have v: "ver_shape True True 0xC0000000" "ver_clean 0xC0000000"
    by (simp_all add: ver_shape_def ver_ok_def ver_clean_def nv_isleaf_def nv_is_root_def nv_deleted_def
        nv_locked_def nodeversion_parameters32_def)
  have p: "perm_wf width (make_empty width)" "perm_size (make_empty width) = 0"
    by (simp_all add: width_def perm_wf_make_empty perm_size_make_empty)
  then show ?thesis
    using assms by (simp add: mt_initialize_def leaf_make_root_top table_rep_def at_rest_leaf node_rep_def
        quiet_def v leaf_ok_def leaf_view_def leaf_slots_def leaf_size_def top_def)
qed

section \<open>Properties\<close>

text \<open>C1: lookup is correct. On a table at rest \<open>get\<close> returns, for every key of any length,
  exactly what the shape of the table maps it to; it always returns, whatever stale node
  the root pointer and the pointers to layers name.\<close>

theorem get_correct:
  assumes "table_rep w t"
  shows "mt_get w s = Some (tree_map t s)"
  using table_get [OF assms] .

theorem get_correct_witness:
  "\<exists>(w :: nat mt) t. table_rep w t \<and> mt_get w [1, 2] = Some (tree_map t [1, 2])"
proof -
  obtain w :: "nat mt" where "table_rep w (TLeaf (mt_next (mt_empty :: nat mt)) [])"
    using initialize_rep [of "mt_empty :: nat mt"] by (auto simp: mt_empty_def)
  from get_correct [OF this, of "[1, 2]"] this show ?thesis by blast
qed

text \<open>\<open>initialize\<close> makes an empty table: it succeeds on a table without a root, the world it
  returns is a table at rest, and no key is found in it.\<close>

theorem initialize_correct:
  assumes "mt_root w = 0" "0 < mt_next w"
  shows "\<exists>w'. mt_initialize w = Some w' \<and> table_rep w' (TLeaf (mt_next w) []) \<and>
    (\<forall>s. mt_get w' s = Some None)"
proof -
  obtain w' where w': "mt_initialize w = Some w'" "table_rep w' (TLeaf (mt_next w) [])"
    using initialize_rep [OF assms] by blast
  then show ?thesis using table_get [OF w'(2)] by simp
qed

theorem initialize_correct_witness:
  "\<exists>w'. mt_initialize (mt_empty :: nat mt) = Some w' \<and> mt_get w' [1, 2, 3] = Some None"
  using initialize_correct [of "mt_empty :: nat mt"] by (auto simp: mt_empty_def)

end
