(* ===== verification/MT_Update.thy ===== *)
theory MT_Update
  imports MT_Lookup
begin

text \<open>
  How a change of a few nodes of the heap changes the shape: one leaf of a layer, and one
  layer of a tree of layers. The operations prove what they do to their nodes; the lemmas
  here say what that means for the table.
\<close>

section \<open>Frames\<close>

definition changes :: "'v mt \<Rightarrow> 'v mt \<Rightarrow> ptr set \<Rightarrow> bool" where
  "changes w w' A \<longleftrightarrow> mt_next w \<le> mt_next w' \<and> (\<forall>p. p \<notin> A \<longrightarrow> mt_heap w' p = mt_heap w p)"

lemma views_addrs: "map fst (views (t :: 'v tree) root par) = addrs t"
proof (induction t arbitrary: root par rule: tree.induct [where ?P2.0 = "\<lambda>e. map fst (slot_views e) = slot_addrs e"])
  case (TLeaf p es)
  then have "concat (map (\<lambda>e. map fst (slot_views e)) es) = concat (map slot_addrs es)"
    by (intro arg_cong [of _ _ concat] map_cong) simp_all
  then show ?case by (simp add: map_concat comp_def)
next
  case (TNode p ks ts)
  then have "concat (map (\<lambda>t. map fst (views t False p)) ts) = concat (map addrs ts)"
    by (intro arg_cong [of _ _ concat] map_cong) simp_all
  then show ?case by (simp add: map_concat comp_def)
qed simp_all

lemma view_addr: "e \<in> set (views t root par) \<Longrightarrow> fst e \<in> set (addrs t)"
  using views_addrs [of t root par] by (metis image_eqI list.set_map)

lemma addr_view: "p \<in> set (addrs t) \<Longrightarrow> \<exists>e \<in> set (views t root par). fst e = p"
  using views_addrs [of t root par] by (metis imageE list.set_map)

lemma layer_addrs_sub: "set (layer_addrs (t :: 'v tree)) \<subseteq> set (addrs t)"
proof (induction t rule: tree.induct [where ?P2.0 = "\<lambda>_. True"])
  case (TNode p ks ts)
  then show ?case by auto
qed simp_all

lemma root_addr_layer: "t \<noteq> TNil \<Longrightarrow> root_addr t \<in> set (layer_addrs t)"
  by (cases t) auto

lemma at_rest_frame:
  assumes "at_rest w root par t" "changes w w' A" "A \<inter> set (addrs t) = {}"
  shows "at_rest w' root par t"
proof -
  have h: "mt_heap w' p = mt_heap w p" if "p \<in> set (addrs t)" for p
    using assms(2,3) that by (auto simp: changes_def)
  have n: "mt_next w \<le> mt_next w'" using assms(2) by (simp add: changes_def)
  have "node_rep w' e" if "e \<in> set (views t root par)" for e
    using assms(1) that h [OF view_addr [OF that]] n by (fastforce simp: at_rest_def node_rep_def)
  then show ?thesis using assms(1) h by (auto simp: at_rest_def quiet_def)
qed

lemma at_rest_below: "at_rest w root par t \<Longrightarrow> p \<in> set (addrs t) \<Longrightarrow> p < mt_next w \<and> p \<noteq> 0"
  using addr_view [of p t root par] by (fastforce simp: at_rest_def node_rep_def)

section \<open>Updating one leaf of a layer\<close>

primrec upd_leaf :: "'v tree \<Rightarrow> u64 \<Rightarrow> 'v slot list \<Rightarrow> 'v tree" where
  "upd_leaf TNil = (\<lambda>i es'. TNil)"
| "upd_leaf (TLeaf p es) = (\<lambda>i es'. TLeaf p es')"
| "upd_leaf (TNode p ks ts) = (\<lambda>i es'.
     TNode p ks (ts[upper_pos ks i := (map upd_leaf ts ! upper_pos ks i) i es']))"

lemma wf_children_update:
  assumes "wf_children cs ks lo hi" "lo \<le> unat i" "unat i < hi"
    and "\<And>lo hi. lo \<le> unat i \<Longrightarrow> unat i < hi \<Longrightarrow> (cs ! upper_pos ks i) lo hi \<Longrightarrow> c' lo hi"
  shows "wf_children (cs[upper_pos ks i := c']) ks lo hi"
  using assms
proof (induction cs ks lo hi rule: wf_children.induct)
  case (2 c cs k ks lo hi)
  have w: "lo \<le> unat k" "unat k < hi" "c lo (unat k)" "wf_children cs ks (unat k) hi"
    using 2(2) by simp_all
  show ?case
  proof (cases "k \<le> i")
    case True
    then have "unat k \<le> unat i" by (simp add: word_le_nat_alt)
    with 2 True w show ?thesis by (simp add: upper_pos_def)
  next
    case False
    then have "unat i < unat k" by (simp add: word_le_nat_alt)
    with 2 False w show ?thesis by (simp add: upper_pos_def)
  qed
qed (auto simp: upper_pos_def)

lemma distinct_concat_update:
  assumes "distinct (concat xss)" "u < length xss" "distinct ys" "set ys \<subseteq> set (xss ! u) \<union> F"
    "F \<inter> set (concat xss) = {}"
  shows "distinct (concat (xss[u := ys]))" "set (concat (xss[u := ys])) \<subseteq> set (concat xss) \<union> F"
proof -
  define a b where "a = concat (take u xss)" and "b = concat (drop (Suc u) xss)"
  have x: "concat xss = a @ xss ! u @ b"
    using assms(2) unfolding a_def b_def by (metis concat.simps(2) concat_append id_take_nth_drop)
  have y: "concat (xss[u := ys]) = a @ ys @ b"
    using assms(2) by (simp add: upd_conv_take_nth_drop a_def b_def)
  show "distinct (concat (xss[u := ys]))" "set (concat (xss[u := ys])) \<subseteq> set (concat xss) \<union> F"
    using assms(1,3-5) unfolding x y by auto
qed

lemma concat_disjoint:
  assumes "distinct (concat xss)" "i < length xss" "j < length xss" "i \<noteq> j"
  shows "set (xss ! i) \<inter> set (xss ! j) = {}"
  using assms
proof (induction xss arbitrary: i j)
  case (Cons x xss)
  show ?case
  proof (cases i; cases j)
    fix i' j' assume "i = Suc i'" "j = Suc j'"
    with Cons show ?thesis by simp
  next
    fix j' assume "i = 0" "j = Suc j'"
    with Cons.prems show ?thesis by (auto dest!: nth_mem)
  next
    fix i' assume "i = Suc i'" "j = 0"
    with Cons.prems show ?thesis by (auto dest!: nth_mem)
  qed (use Cons.prems in simp)
qed simp

lemma first_of_cong: "(\<And>m. m \<in> set ts \<Longrightarrow> f m x = g m x) \<Longrightarrow> first_of (map f ts) x = first_of (map g ts) x"
  by (induction ts) (auto split: option.splits)

lemma first_of_update:
  "u < length ts \<Longrightarrow> f (ts ! u) x = f t' x \<Longrightarrow> first_of (map f (ts[u := t'])) x = first_of (map f ts) x"
proof (induction ts arbitrary: u)
  case (Cons a ts)
  then show ?case by (cases u) (auto split: option.splits)
qed simp

lemma upd_leaf_ok:
  fixes t :: "'v tree"
  assumes "at_rest w root par t" "wf_tree t lo hi" "lo \<le> unat i" "unat i < hi" "distinct (addrs t)"
    and "descend t i = TLeaf p es" "F \<inter> set (addrs t) = {}"
    and w': "changes w w' (set (addrs (TLeaf p es)) \<union> F)"
    and rest: "\<And>root par. at_rest w root par (TLeaf p es) \<Longrightarrow> at_rest w' root par (TLeaf p es')"
    and wf: "\<And>lo hi. lo \<le> unat i \<Longrightarrow> unat i < hi \<Longrightarrow> wf_tree (TLeaf p es) lo hi \<Longrightarrow> wf_tree (TLeaf p es') lo hi"
    and dist: "distinct (addrs (TLeaf p es'))" "set (addrs (TLeaf p es')) \<subseteq> set (addrs (TLeaf p es)) \<union> F"
  shows "at_rest w' root par (upd_leaf t i es') \<and> wf_tree (upd_leaf t i es') lo hi \<and>
    distinct (addrs (upd_leaf t i es')) \<and> set (addrs (upd_leaf t i es')) \<subseteq> set (addrs t) \<union> F \<and>
    set (addrs (TLeaf p es)) \<subseteq> set (addrs t) \<and>
    layer_addrs (upd_leaf t i es') = layer_addrs t \<and> root_addr (upd_leaf t i es') = root_addr t \<and>
    descend (upd_leaf t i es') i = TLeaf p es'"
  using assms(1-7)
proof (induction t arbitrary: root par lo hi rule: tree.induct [where ?P2.0 = "\<lambda>_. True"])
  case (TLeaf q es0)
  then have e: "q = p" "es0 = es" by simp_all
  have "at_rest w' root par (TLeaf p es')" using TLeaf.prems(1) unfolding e by (rule rest)
  moreover have "wf_tree (TLeaf p es') lo hi" using wf [OF TLeaf.prems(3,4)] TLeaf.prems(2) unfolding e .
  ultimately show ?case unfolding e using dist by simp
next
  case (TNode q ks ts)
  let ?u = "upper_pos ks i"
  have wc: "wf_children (map wf_tree ts) ks lo hi" "sorted_wrt (<) ks" "length ks \<le> width" using TNode.prems(2) by simp_all
  have l: "length ts = length ks + 1" using wf_children_length [OF wc(1)] by simp
  then have u: "?u < length ts" using upper_pos_le [of ks i] by simp
  let ?t = "ts ! ?u" let ?t' = "upd_leaf ?t i es'"
  have m: "?t \<in> set ts" using u by simp
  from wf_children_pick [OF wc(1) TNode.prems(3,4)] obtain lo' hi' where
    lh: "wf_tree ?t lo' hi'" "lo' \<le> unat i" "unat i < hi'" using u by auto
  have d: "distinct (concat (map addrs ts))" "q \<notin> set (concat (map addrs ts))" using TNode.prems(5) by simp_all
  have dt: "distinct (addrs ?t)" using d(1) u m by (auto simp: distinct_concat_iff)
  have at: "at_rest w False q ?t" using TNode.prems(1) m by (simp add: at_rest_node)
  have Ft: "F \<inter> set (addrs ?t) = {}" using TNode.prems(7) m by auto
  have dd: "descend ?t i = TLeaf p es" using TNode.prems(6) u by simp
  note ih = TNode.IH [OF m at _ _ _ dt dd Ft]
  note ih0 = ih [OF lh]
  have ih1: "at_rest w' False q ?t'" "distinct (addrs ?t')"
    "set (addrs ?t') \<subseteq> set (addrs ?t) \<union> F" "set (addrs (TLeaf p es)) \<subseteq> set (addrs ?t)"
    "layer_addrs ?t' = layer_addrs ?t" "root_addr ?t' = root_addr ?t" "descend ?t' i = TLeaf p es'"
    using ih0 by simp_all
  have e: "upd_leaf (TNode q ks ts) i es' = TNode q ks (ts[?u := ?t'])" using u by simp
  have r: "map root_addr (ts[?u := ?t']) = map root_addr ts" "map layer_addrs (ts[?u := ?t']) = map layer_addrs ts"
    using u ih1 by (simp_all add: map_update list_update_same_conv)
  have a: "set (addrs ?t) \<subseteq> set (concat (map addrs ts))" using m by auto
  have F: "F \<inter> set (concat (map addrs ts)) = {}" "q \<notin> F" using TNode.prems(7) by auto
  have n: "mt_heap w' q = mt_heap w q" "mt_next w \<le> mt_next w'"
  proof -
    have "q \<notin> set (addrs (TLeaf p es)) \<union> F" using ih1(4) a d(2) F(2) by blast
    with w' show "mt_heap w' q = mt_heap w q" "mt_next w \<le> mt_next w'" by (simp_all add: changes_def)
  qed
  have nq: "node_rep w' (q, root, par, VNode ks (map root_addr ts)) \<and> quiet w' q"
    using TNode.prems(1) n by (auto simp: at_rest_node node_rep_def quiet_def)
  have ch: "at_rest w' False q x" if x: "x \<in> set (ts[?u := ?t'])" for x
  proof -
    from x obtain j where j: "j < length ts" "x = ts[?u := ?t'] ! j" by (auto simp: in_set_conv_nth)
    show ?thesis
    proof (cases "j = ?u")
      case True
      with j u ih1(1) show ?thesis by simp
    next
      case False
      have xj: "x = ts ! j" using j(2) False by (simp add: nth_list_update)
      have "set (map addrs ts ! ?u) \<inter> set (map addrs ts ! j) = {}"
        using concat_disjoint [OF d(1), of ?u j] u j False by simp
      then have "set (addrs ?t) \<inter> set (addrs x) = {}" using u j(1) xj by simp
      moreover have "F \<inter> set (addrs x) = {}"
      proof -
        have "x \<in> set ts" using j(1) xj by simp
        with F(1) show ?thesis by auto
      qed
      ultimately have "(set (addrs (TLeaf p es)) \<union> F) \<inter> set (addrs x) = {}" using ih1(4) by blast
      moreover have "at_rest w False q x" using TNode.prems(1) j(1) xj by (simp add: at_rest_node)
      ultimately show ?thesis using at_rest_frame [OF _ w'] by blast
    qed
  qed
  have "at_rest w' root par (TNode q ks (ts[?u := ?t']))"
    unfolding at_rest_node r using nq ch by blast
  moreover have "wf_tree (TNode q ks (ts[?u := ?t'])) lo hi"
  proof -
    have "wf_tree ?t' lo hi" if "lo \<le> unat i" "unat i < hi" "(map wf_tree ts ! ?u) lo hi" for lo hi
    proof -
      have "wf_tree ?t lo hi" using that(3) u by simp
      from ih [OF this that(1,2)] show ?thesis by (elim conjE)
    qed
    from wf_children_update [OF wc(1) TNode.prems(3,4) this]
    show ?thesis using wc(2,3) by (simp add: map_update)
  qed
  moreover have dc: "distinct (concat (map addrs (ts[?u := ?t'])))"
    "set (concat (map addrs (ts[?u := ?t']))) \<subseteq> set (concat (map addrs ts)) \<union> F"
    using distinct_concat_update [OF d(1) _ ih1(2) _ F(1), of ?u] u ih1(3) by (simp_all add: map_update)
  moreover have "q \<notin> set (concat (map addrs (ts[?u := ?t'])))" using dc(2) d(2) F(2) by blast
  moreover have "layer_addrs (TNode q ks (ts[?u := ?t'])) = layer_addrs (TNode q ks ts)" by (simp only: layer_addrs.simps r)
  moreover have "descend (TNode q ks (ts[?u := ?t'])) i = TLeaf p es'" using ih1(7) u by simp
  moreover have "set (addrs (TLeaf p es)) \<subseteq> set (addrs (TNode q ks ts))" using ih1(4) a by auto
  ultimately show ?case unfolding e by simp blast
qed simp_all

text \<open>When the slots of the leaf change at one string, so does the layer.\<close>

lemma upd_leaf_map:
  fixes t :: "'v tree"
  assumes "wf_tree t lo hi" "wf_tree (upd_leaf t i es') lo hi" "lo \<le> unat i" "unat i < hi"
    and "descend t i = TLeaf p es" "ikey_of s = i"
    and m: "first_of (map slot_map es') = (first_of (map slot_map es))(s := y)"
  shows "tree_map (upd_leaf t i es') = (tree_map t)(s := y)"
proof
  fix x
  show "tree_map (upd_leaf t i es') x = ((tree_map t)(s := y)) x"
  proof (cases "x = s")
    case True
    have "descend (upd_leaf t i es') i = TLeaf p es'"
      using assms(1,3-5)
    proof (induction t arbitrary: lo hi rule: tree.induct [where ?P2.0 = "\<lambda>_. True"])
      case (TNode q ks ts)
      then have wc: "wf_children (map wf_tree ts) ks lo hi" by simp
      then have u: "upper_pos ks i < length ts"
        using wf_children_length [OF wc] upper_pos_le [of ks i] by simp
      from wf_children_pick [OF wc TNode.prems(2,3)] obtain lo' hi' where
        "wf_tree (ts ! upper_pos ks i) lo' hi'" "lo' \<le> unat i" "unat i < hi'" using u by auto
      with TNode.IH [of "ts ! upper_pos ks i"] TNode.prems(4) u show ?case by simp
    qed simp_all
    with descend_leaf [OF assms(2-4)] assms(6) have "tree_map (upd_leaf t i es') s = first_of (map slot_map es') s" by auto
    with True m show ?thesis by simp
  next
    case False
    have "tree_map (upd_leaf t i es') x = tree_map t x"
      using assms(1,3-5)
    proof (induction t arbitrary: lo hi rule: tree.induct [where ?P2.0 = "\<lambda>_. True"])
      case (TLeaf q es0)
      then show ?case using m False by simp
    next
      case (TNode q ks ts)
      then have wc: "wf_children (map wf_tree ts) ks lo hi" by simp
      then have u: "upper_pos ks i < length ts"
        using wf_children_length [OF wc] upper_pos_le [of ks i] by simp
      from wf_children_pick [OF wc TNode.prems(2,3)] obtain lo' hi' where
        "wf_tree (ts ! upper_pos ks i) lo' hi'" "lo' \<le> unat i" "unat i < hi'" using u by auto
      with TNode.IH [of "ts ! upper_pos ks i"] TNode.prems(4) u
      have "tree_map (upd_leaf (ts ! upper_pos ks i) i es') x = tree_map (ts ! upper_pos ks i) x" by simp
      then show ?case using u by (simp add: first_of_update)
    qed simp_all
    with False show ?thesis by simp
  qed
qed

section \<open>Layers\<close>

text \<open>\<open>sub_layer t s u s'\<close>: the search for \<open>s\<close> in \<open>t\<close> passes through layer \<open>u\<close>, where \<open>s'\<close> is
  left of the key.\<close>

inductive sub_layer :: "'v tree \<Rightarrow> bytes \<Rightarrow> 'v tree \<Rightarrow> bytes \<Rightarrow> bool" where
  Here: "sub_layer t s t s"
| Down: "descend t (ikey_of s) = TLeaf p es \<Longrightarrow> SLayer (ikey_of s) r t' \<in> set es \<Longrightarrow> 8 < length s \<Longrightarrow>
    sub_layer t' (drop 8 s) u s' \<Longrightarrow> sub_layer t s u s'"

lemma sub_layer_trans: "sub_layer t s u s' \<Longrightarrow> sub_layer u s' v s'' \<Longrightarrow> sub_layer t s v s''"
  by (induction rule: sub_layer.induct) (auto intro: sub_layer.intros)

lemma descend_sub:
  fixes t :: "'v tree"
  assumes "at_rest w root par t" "wf_tree t lo hi" "lo \<le> unat i" "unat i < hi" "descend t i = TLeaf p es"
  shows "\<exists>root par lo' hi'. at_rest w root par (TLeaf p es) \<and> wf_tree (TLeaf p es) lo' hi' \<and>
    lo' \<le> unat i \<and> unat i < hi' \<and> (\<forall>s. ikey_of s = i \<longrightarrow> tree_map t s = first_of (map slot_map es) s) \<and>
    set (addrs (TLeaf p es)) \<subseteq> set (addrs t) \<and> (distinct (addrs t) \<longrightarrow> distinct (addrs (TLeaf p es)))"
proof -
  obtain lo' hi' where d: "wf_tree (TLeaf p es) lo' hi'" "lo' \<le> unat i" "unat i < hi'"
    "\<forall>s. ikey_of s = i \<longrightarrow> tree_map t s = first_of (map slot_map es) s"
    using descend_leaf [OF assms(2-4)] assms(5) by auto
  have "(\<exists>root par. at_rest w root par (descend t i)) \<and> set (addrs (descend t i)) \<subseteq> set (addrs t) \<and>
      (distinct (addrs t) \<longrightarrow> distinct (addrs (descend t i)))"
    using assms(1-4)
  proof (induction t arbitrary: root par lo hi rule: tree.induct [where ?P2.0 = "\<lambda>_. True"])
    case (TNode q ks ts)
    then have wc: "wf_children (map wf_tree ts) ks lo hi" by simp
    then have u: "upper_pos ks i < length ts"
      using wf_children_length [OF wc] upper_pos_le [of ks i] by simp
    from wf_children_pick [OF wc TNode.prems(3,4)] obtain lo' hi' where
      lh: "wf_tree (ts ! upper_pos ks i) lo' hi'" "lo' \<le> unat i" "unat i < hi'" using u by auto
    have m: "ts ! upper_pos ks i \<in> set ts" using u by simp
    moreover have "at_rest w False q (ts ! upper_pos ks i)" using TNode.prems(1) m by (simp add: at_rest_node)
    ultimately have ih: "(\<exists>root par. at_rest w root par (descend (ts ! upper_pos ks i) i)) \<and>
        set (addrs (descend (ts ! upper_pos ks i) i)) \<subseteq> set (addrs (ts ! upper_pos ks i)) \<and>
        (distinct (addrs (ts ! upper_pos ks i)) \<longrightarrow> distinct (addrs (descend (ts ! upper_pos ks i) i)))"
      using TNode.IH lh by blast
    have "set (addrs (ts ! upper_pos ks i)) \<subseteq> set (addrs (TNode q ks ts))" using m by auto
    moreover have "distinct (addrs (TNode q ks ts)) \<longrightarrow> distinct (addrs (ts ! upper_pos ks i))"
      using m by (auto simp: distinct_concat_iff)
    ultimately show ?case using ih u by auto
  qed auto
  then show ?thesis unfolding assms(5) using d by (elim conjE exE) (intro exI conjI, assumption+)
qed

text \<open>A slot of the layer kind is the only one that can match longer keys with its slice.\<close>

lemma layer_slot_map:
  assumes "wf_tree (TLeaf p es) lo hi" "SLayer (ikey_of s) r t \<in> set es" "8 < length s"
  shows "first_of (map slot_map es) s = tree_map t (drop 8 s)"
proof -
  obtain j where j: "j < length es" "es ! j = SLayer (ikey_of s) r t" using assms(2) by (auto simp: in_set_conv_nth)
  have "rank_of (es ! j) = str_rank s"
    using assms(3) j(2) by (simp add: rank_of_def str_rank_def slot_rank_def layer_keylenx_def)
  with leaf_map_at [OF assms(1) j(1)] j(2) assms(3) show ?thesis by simp
qed

lemma sub_layer_map:
  assumes "sub_layer t s u s'" "wf_tree t 0 top"
  shows "wf_tree u 0 top \<and> tree_map t s = tree_map u s'"
  using assms
proof (induction rule: sub_layer.induct)
  case (Down t s p es r t' u s')
  from descend_leaf [OF Down.prems _ unat_top, of "ikey_of s"] Down.hyps(1) obtain lo hi where
    d: "wf_tree (TLeaf p es) lo hi" "tree_map t s = first_of (map slot_map es) s" by auto
  have "wf_tree t' 0 top" using d(1) Down.hyps(2) by (auto dest: bspec [of _ _ "SLayer (ikey_of s) r t'"])
  with Down d(2) layer_slot_map [OF d(1) Down.hyps(2,3)] show ?case by simp
qed simp

lemma sub_layer_at_rest:
  assumes "sub_layer t s u s'" "at_rest w True 0 t" "wf_tree t 0 top" "distinct (addrs t)"
  shows "at_rest w True 0 u \<and> wf_tree u 0 top \<and> distinct (addrs u) \<and> set (addrs u) \<subseteq> set (addrs t)"
  using assms
proof (induction rule: sub_layer.induct)
  case (Down t s p es r t' u s')
  from descend_sub [OF Down.prems(1,2) le0 unat_top Down.hyps(1)] Down.prems(3) obtain root par lo hi where
    d: "at_rest w root par (TLeaf p es)" "wf_tree (TLeaf p es) lo hi"
      "set (addrs (TLeaf p es)) \<subseteq> set (addrs t)" "distinct (addrs (TLeaf p es))" by blast
  have t': "at_rest w True 0 t'" "wf_tree t' 0 top" "distinct (addrs t')" "set (addrs t') \<subseteq> set (addrs (TLeaf p es))"
    using d(1,2,4) Down.hyps(2) by (auto simp: at_rest_leaf distinct_concat_iff dest: bspec [of _ _ "SLayer (ikey_of s) r t'"])
  with Down.IH d(3) show ?case by blast
qed simp

section \<open>Replacing a slot\<close>

lemma rank_eq_ikey: "rank_of e = rank_of e' \<Longrightarrow> slot_ikey e = slot_ikey e'"
  by (metis rank_of_ikey word_unat_eq_iff)

lemma replace_wf:
  assumes "wf_tree (TLeaf p (as @ e # bs)) lo hi" "rank_of e' = rank_of e" "wf_slot e'"
  shows "wf_tree (TLeaf p (as @ e' # bs)) lo hi"
  using assms rank_eq_ikey [OF assms(2)] by (auto simp: sorted_wrt_append)

lemma replace_map:
  assumes "wf_tree (TLeaf p (as @ e # bs)) lo hi" "rank_of e' = rank_of e" "wf_slot e'"
    "rank_of e = str_rank s" "slot_map e' = (slot_map e)(s := y)"
  shows "first_of (map slot_map (as @ e' # bs)) = (first_of (map slot_map (as @ e # bs)))(s := y)"
proof
  fix x
  show "first_of (map slot_map (as @ e' # bs)) x = ((first_of (map slot_map (as @ e # bs)))(s := y)) x"
  proof (cases "x = s")
    case True
    have "first_of (map slot_map (as @ e' # bs)) s = slot_map e' s"
      using leaf_map_at [OF replace_wf [OF assms(1-3)], of "length as" s] assms(2,4) by simp
    with True assms(5) show ?thesis by simp
  next
    case False
    with assms(5) show ?thesis by (simp add: first_of_append split: option.split)
  qed
qed

lemma long_string_eq:
  assumes "ikey_of x = ikey_of s" "8 < length x" "8 < length s" "drop 8 x = drop 8 s"
  shows "x = s"
proof -
  have "take 8 x = take 8 s" using assms(1-3) by (simp add: ikey_of_eq_iff pad_long)
  with assms(4) show ?thesis by (metis append_take_drop_id)
qed

lemma layer_slot_update:
  assumes "tree_map t' = (tree_map t)(drop 8 s := y)" "8 < length s"
  shows "slot_map (SLayer (ikey_of s) r' t') = (slot_map (SLayer (ikey_of s) r t))(s := y)"
proof
  fix x
  show "slot_map (SLayer (ikey_of s) r' t') x = ((slot_map (SLayer (ikey_of s) r t))(s := y)) x"
    using assms long_string_eq [of x s] by auto
qed

section \<open>Updating one layer of the tree\<close>

lemma changes_mono: "changes w w' A \<Longrightarrow> A \<subseteq> B \<Longrightarrow> changes w w' B"
  by (auto simp: changes_def)

lemma node_frame:
  assumes "changes w w' A" "p \<notin> A" "node_rep w (p, root, par, x)" "quiet w p"
  shows "node_rep w' (p, root, par, x) \<and> quiet w' p"
  using assms by (auto simp: changes_def node_rep_def quiet_def)

lemma leaf_addrs_split:
  "addrs (TLeaf p (as @ SLayer i r t # bs)) = p # concat (map slot_addrs as) @ addrs t @ concat (map slot_addrs bs)"
  by simp

lemma layer_slot_addrs: "SLayer j q v \<in> set es \<Longrightarrow> set (addrs v) \<subseteq> set (concat (map slot_addrs es))"
  by (auto intro: bexI [of _ "SLayer j q v"])

lemma at_rest_leaf_split:
  "at_rest w root par (TLeaf p (as @ SLayer i r t # bs)) \<longleftrightarrow>
     node_rep w (p, root, par, VLeaf (map slot_view (as @ SLayer i r t # bs))) \<and> quiet w p \<and> at_rest w True 0 t \<and>
     (\<forall>j q v. SLayer j q v \<in> set (as @ bs) \<longrightarrow> at_rest w True 0 v)"
proof -
  have "(\<forall>j q v. SLayer j q v \<in> set (as @ SLayer i r t # bs) \<longrightarrow> at_rest w True 0 v) \<longleftrightarrow>
      at_rest w True 0 t \<and> (\<forall>j q v. SLayer j q v \<in> set (as @ bs) \<longrightarrow> at_rest w True 0 v)"
    by (simp only: set_append list.set Un_iff insert_iff slot.inject) blast
  then show ?thesis unfolding at_rest_leaf by simp
qed

text \<open>A leaf in which one layer was replaced by an updated one.\<close>

lemma leaf_layer_update:
  assumes leaf: "at_rest w root par (TLeaf p (as @ SLayer i r t # bs))"
    and d: "distinct (addrs (TLeaf p (as @ SLayer i r t # bs)))" "F \<inter> set (addrs (TLeaf p (as @ SLayer i r t # bs))) = {}"
    and c: "changes w w' (set (addrs t) \<union> F)" "at_rest w' True 0 t'"
  shows "at_rest w' root par (TLeaf p (as @ SLayer i r t' # bs))"
proof -
  note l = leaf [unfolded at_rest_leaf_split]
  have p: "p \<notin> set (addrs t) \<union> F" using d by auto
  have "at_rest w' True 0 v" if v: "SLayer j q v \<in> set (as @ bs)" for j q v
  proof -
    have "set (addrs v) \<subseteq> set (concat (map slot_addrs as)) \<union> set (concat (map slot_addrs bs))"
      using layer_slot_addrs [OF v] by simp
    then have "(set (addrs t) \<union> F) \<inter> set (addrs v) = {}"
      using d unfolding leaf_addrs_split by (auto simp del: set_concat)
    moreover have "at_rest w True 0 v" using l v by blast
    ultimately show ?thesis using at_rest_frame [OF _ c(1)] by blast
  qed
  moreover have "node_rep w' (p, root, par, VLeaf (map slot_view (as @ SLayer i r t' # bs))) \<and> quiet w' p"
  proof -
    have eq: "map slot_view (as @ SLayer i r t' # bs) = map slot_view (as @ SLayer i r t # bs)" by simp
    show ?thesis unfolding eq by (rule node_frame [OF c(1) p]) (use l in blast)+
  qed
  ultimately show ?thesis using c(2) unfolding at_rest_leaf_split by blast
qed

lemma layer_update:
  assumes "sub_layer t s u s'" "at_rest w True 0 t" "wf_tree t 0 top" "distinct (addrs t)" "F \<inter> set (addrs t) = {}"
    and c: "changes w w' (set (addrs u) \<union> F)"
    and u': "at_rest w' True 0 u'" "wf_tree u' 0 top" "distinct (addrs u')" "set (addrs u') \<subseteq> set (addrs u) \<union> F"
      "set (layer_addrs u) \<subseteq> set (layer_addrs u')" "tree_map u' = (tree_map u)(s' := y)"
  shows "\<exists>t'. at_rest w' True 0 t' \<and> wf_tree t' 0 top \<and> distinct (addrs t') \<and>
    set (addrs t') \<subseteq> set (addrs t) \<union> F \<and> set (layer_addrs t) \<subseteq> set (layer_addrs t') \<and>
    tree_map t' = (tree_map t)(s := y) \<and> sub_layer t' s u' s'"
  using assms
proof (induction rule: sub_layer.induct)
  case (Here t s)
  then show ?case using sub_layer.Here by blast
next
  case (Down t s p es r t1 u s')
  let ?i = "ikey_of s"
  from descend_sub [OF Down.prems(1,2) le0 unat_top Down.hyps(1)] Down.prems(3) obtain root par lo hi where
    d: "at_rest w root par (TLeaf p es)" "wf_tree (TLeaf p es) lo hi"
      "set (addrs (TLeaf p es)) \<subseteq> set (addrs t)" "distinct (addrs (TLeaf p es))" by blast
  obtain as bs where es: "es = as @ SLayer ?i r t1 # bs" using Down.hyps(2) by (metis in_set_conv_decomp)
  have t1: "at_rest w True 0 t1" "wf_tree t1 0 top" "r \<in> set (layer_addrs t1)" "distinct (addrs t1)"
    using d(1,2,4) unfolding es by (auto simp: at_rest_leaf)
  have a1: "set (addrs t1) \<subseteq> set (addrs (TLeaf p es))" unfolding es by auto
  have F1: "F \<inter> set (addrs t1) = {}" "F \<inter> set (addrs (TLeaf p es)) = {}" using a1 d(3) Down.prems(4) by blast+
  from Down.IH [OF t1(1,2,4) F1(1) Down.prems(5-)] obtain t1' where
    ih: "at_rest w' True 0 t1'" "wf_tree t1' 0 top" "distinct (addrs t1')" "set (addrs t1') \<subseteq> set (addrs t1) \<union> F"
      "set (layer_addrs t1) \<subseteq> set (layer_addrs t1')" "tree_map t1' = (tree_map t1)(drop 8 s := y)"
      "sub_layer t1' (drop 8 s) u' s'" by blast
  have ua: "set (addrs u) \<subseteq> set (addrs t1)" using sub_layer_at_rest [OF Down.hyps(4) t1(1,2,4)] by blast
  have c1: "changes w w' (set (addrs t1) \<union> F)" using changes_mono [OF Down.prems(5)] ua by blast
  let ?es' = "as @ SLayer ?i r t1' # bs"
  have ws: "wf_slot (SLayer ?i r t1')" using ih(2,5) t1(3) by auto
  have rk: "rank_of (SLayer ?i r t1') = rank_of (SLayer ?i r t1)" by (simp add: rank_of_def)
  have rs: "rank_of (SLayer ?i r t1) = str_rank s"
    using Down.hyps(3) by (simp add: rank_of_def str_rank_def slot_rank_def layer_keylenx_def)
  have c2: "changes w w' (set (addrs (TLeaf p es)) \<union> F)" using changes_mono [OF c1] a1 by blast
  have rest: "at_rest w' root par (TLeaf p ?es')" if "at_rest w root par (TLeaf p es)" for root par
    using leaf_layer_update [OF that [unfolded es] d(4) [unfolded es] F1(2) [unfolded es] c1 ih(1)] .
  have wf: "wf_tree (TLeaf p ?es') lo hi" if "wf_tree (TLeaf p es) lo hi" for lo hi
    using replace_wf [OF that [unfolded es] rk ws] .
  have dist: "distinct (addrs (TLeaf p ?es'))" "set (addrs (TLeaf p ?es')) \<subseteq> set (addrs (TLeaf p es)) \<union> F"
    using d(4) F1(2) ih(3,4) unfolding es leaf_addrs_split by (auto simp del: set_concat)
  note up = upd_leaf_ok [OF Down.prems(1,2) le0 unat_top Down.prems(3) Down.hyps(1) Down.prems(4) c2 rest wf dist]
  have m: "first_of (map slot_map ?es') = (first_of (map slot_map es))(s := y)"
    unfolding es by (rule replace_map [OF d(2) [unfolded es] rk ws rs layer_slot_update [OF ih(6) Down.hyps(3)]])
  have wt: "wf_tree (upd_leaf t ?i ?es') 0 top" using up by blast
  note tm = upd_leaf_map [OF Down.prems(2) wt le0 unat_top Down.hyps(1) refl m]
  have "sub_layer (upd_leaf t ?i ?es') s u' s'"
    by (rule sub_layer.Down [of _ _ p ?es' r t1', OF _ _ Down.hyps(3) ih(7)]) (use up in auto)
  with up tm show ?case by (intro exI [of _ "upd_leaf t ?i ?es'"]) auto
qed

section \<open>Updating one leaf of the tree\<close>

text \<open>What holds of a table between operations, whatever its root pointer says.\<close>

definition table_ok :: "'v mt \<Rightarrow> 'v tree \<Rightarrow> bool" where
  "table_ok w t \<longleftrightarrow> at_rest w True 0 t \<and> wf_tree t 0 top \<and> distinct (addrs t)"

lemma table_rep_ok: "table_rep w t \<longleftrightarrow> table_ok w t \<and> mt_root w \<in> set (layer_addrs t)"
  by (auto simp: table_rep_def table_ok_def)

text \<open>\<open>same_keys t t'\<close>: an update that keeps every address where a search may start.\<close>

definition grows :: "'v tree \<Rightarrow> ptr set \<Rightarrow> 'v tree \<Rightarrow> bool" where
  "grows t F t' \<longleftrightarrow> set (addrs t') \<subseteq> set (addrs t) \<union> F \<and> set (layer_addrs t) \<subseteq> set (layer_addrs t')"

lemma leaf_update:
  assumes T: "table_ok w T" "sub_layer T S u s" "descend u (ikey_of s) = TLeaf p es" "F \<inter> set (addrs T) = {}"
    and c: "changes w w' (set (addrs (TLeaf p es)) \<union> F)"
    and rest: "\<And>root par. at_rest w root par (TLeaf p es) \<Longrightarrow> at_rest w' root par (TLeaf p es')"
    and wf: "\<And>lo hi. lo \<le> unat (ikey_of s) \<Longrightarrow> unat (ikey_of s) < hi \<Longrightarrow> wf_tree (TLeaf p es) lo hi \<Longrightarrow>
      wf_tree (TLeaf p es') lo hi"
    and dist: "distinct (addrs (TLeaf p es'))" "set (addrs (TLeaf p es')) \<subseteq> set (addrs (TLeaf p es)) \<union> F"
    and m: "first_of (map slot_map es') = (first_of (map slot_map es))(s := y)"
  shows "\<exists>T' u'. table_ok w' T' \<and> grows T F T' \<and> tree_map T' = (tree_map T)(S := y) \<and>
    sub_layer T' S u' s \<and> descend u' (ikey_of s) = TLeaf p es'"
proof -
  let ?i = "ikey_of s" let ?u' = "upd_leaf u ?i es'"
  have t: "at_rest w True 0 T" "wf_tree T 0 top" "distinct (addrs T)" using T(1) by (simp_all add: table_ok_def)
  from sub_layer_at_rest [OF T(2) t] have u: "at_rest w True 0 u" "wf_tree u 0 top" "distinct (addrs u)"
    "set (addrs u) \<subseteq> set (addrs T)" by blast+
  have Fu: "F \<inter> set (addrs u) = {}" using u(4) T(4) by blast
  note up = upd_leaf_ok [OF u(1,2) le0 unat_top u(3) T(3) Fu c rest wf dist]
  have wu: "wf_tree ?u' 0 top" using up by blast
  note m' = upd_leaf_map [OF u(2) wu le0 unat_top T(3) refl m]
  have cu: "changes w w' (set (addrs u) \<union> F)" using changes_mono [OF c] up by blast
  have "\<exists>t'. at_rest w' True 0 t' \<and> wf_tree t' 0 top \<and> distinct (addrs t') \<and>
    set (addrs t') \<subseteq> set (addrs T) \<union> F \<and> set (layer_addrs T) \<subseteq> set (layer_addrs t') \<and>
    tree_map t' = (tree_map T)(S := y) \<and> sub_layer t' S ?u' s"
    by (rule layer_update [OF T(2) t T(4) cu _ _ _ _ _ m']) (use up in auto)
  then show ?thesis using up unfolding table_ok_def grows_def by blast
qed

text \<open>The common case: only the leaf itself is written, and its layers stay.\<close>

lemma leaf_store:
  assumes leaf: "at_rest w root par (TLeaf p es)" "p \<notin> set (concat (map slot_addrs es))"
    and w': "mt_heap w' = (mt_heap w)(p \<mapsto> Leaf l')" "mt_next w' = mt_next w"
    and l: "mt_heap w p = Some (Leaf l)"
    and v: "ver_clean (l_version l')" "\<And>root. ver_shape True root (l_version l) \<Longrightarrow> ver_shape True root (l_version l')"
    and l': "l_parent l' = l_parent l" "leaf_ok l'" "leaf_view l' = map slot_view es'"
    and layers: "\<And>i r t. SLayer i r t \<in> set es' \<Longrightarrow> \<exists>i r. SLayer i r t \<in> set es"
  shows "at_rest w' root par (TLeaf p es')"
proof -
  have c: "changes w w' {p}" using w' by (simp add: changes_def)
  have n: "node_rep w (p, root, par, VLeaf (map slot_view es))" using leaf(1) by (simp add: at_rest_leaf)
  then have "p \<noteq> 0" "p < mt_next w" "node_ok root par (VLeaf (map slot_view es)) (Leaf l)"
    using l by (auto simp: node_rep_def)
  with w' v l' have "node_rep w' (p, root, par, VLeaf (map slot_view es'))" "quiet w' p"
    by (auto simp: node_rep_def quiet_def)
  moreover have "at_rest w' True 0 t" if "SLayer i r t \<in> set es'" for i r t
  proof -
    from layers [OF that] obtain j q where s: "SLayer j q t \<in> set es" by blast
    then have "at_rest w True 0 t" using leaf(1) unfolding at_rest_leaf by blast
    moreover have "{p} \<inter> set (addrs t) = {}" using layer_slot_addrs [OF s] leaf(2) by blast
    ultimately show ?thesis by (rule at_rest_frame [OF _ c])
  qed
  ultimately show ?thesis unfolding at_rest_leaf by blast
qed

section \<open>Locking and unlocking a node at rest\<close>

lemma NP_lock: "lock_bit NP = 1"
  by (simp add: nodeversion_parameters32_def)

lemma lock_clean:
  assumes "mt_heap w p = Some n" "ver_clean (node_version_of n)"
  shows "node_lock w p (node_version_of n) =
    Some (st_node w p (node_set_version (node_version_of n OR lock_bit NP) n), node_version_of n OR lock_bit NP)"
  using assms by (simp add: node_lock_def nv_lock_round_def ver_clean_def nv_locked_def upd_version_def)

lemma unlock_unchanged:
  assumes "ver_ok 0 v" "ver_clean v"
  shows "nv_unlock NP (v OR lock_bit NP) = v"
proof -
  let ?x = "v OR lock_bit NP"
  have d: "\<not> bit v 0" "\<not> bit v 1" "\<not> bit v 2"
    using assms(2) nv32.dirty_iff [of v] by (auto simp: ver_clean_def nv32.test_simps numeral_2_eq_2)
  have d28: "\<not> bit v 28" using assms(1) by (simp add: ver_ok_def)
  have b: "bit ?x i \<longleftrightarrow> bit v i \<or> i = 0" for i
    by (auto simp: NP_lock bit_or_iff bit_1_iff)
  have "bit (nv_unlock NP ?x) i \<longleftrightarrow> bit v i" for i
  proof -
    have x: "\<not> bit ?x 2" "\<not> bit ?x 1" using b d by simp_all
    have u: "bit (nv_unlock NP ?x) i \<longleftrightarrow> bit ?x i \<and> 3 \<le> i \<and> i < 32 \<and> i \<noteq> 28"
      using nv32.bit_unlock [of ?x i] x by (simp del: add_2_eq_Suc')
    consider "i = 0" | "i = 1" | "i = 2" | "3 \<le> i" by linarith
    then show ?thesis using u b d d28 bit_imp_le_length [of v i] by cases auto
  qed
  then show ?thesis by (simp add: bit_eq_iff)
qed

lemma has_changed_lock [simp]: "nv_has_changed NP (v OR lock_bit NP) v = False"
proof -
  have "unat (v XOR (v OR 1)) \<le> 1"
  proof -
    have "v XOR (v OR 1) = (NOT v) AND 1" by (rule bit_word_eqI) (auto simp: bit_simps)
    also have "unat \<dots> \<le> 1" by (simp add: and_one_eq unat_mod)
    finally show ?thesis .
  qed
  then show ?thesis by (simp add: nv_has_changed_def NP_lock word_less_nat_alt)
qed

section \<open>Writing into a slot of a leaf\<close>

lemma leaf_slots_distinct:
  assumes "leaf_ok l"
  shows "distinct (leaf_slots l)" "q \<in> set (leaf_slots l) \<Longrightarrow> q < width" "length (leaf_slots l) = leaf_size l"
proof -
  have w: "perm_wf width (l_permutation l)" using assms by (simp add: leaf_ok_def)
  then have s: "leaf_size l \<le> width" "distinct (plist width (l_permutation l))" by (auto simp: perm_wf_def leaf_size_def)
  have "leaf_slots l = take (leaf_size l) (plist width (l_permutation l))"
    unfolding leaf_slots_def plist_def take_map using s(1) by simp
  with s show "distinct (leaf_slots l)" by simp
  show "q \<in> set (leaf_slots l) \<Longrightarrow> q < width"
    using perm_get_less [OF w] s(1) by (auto simp: leaf_slots_def)
  show "length (leaf_slots l) = leaf_size l" by (simp add: leaf_slots_def)
qed

lemma leaf_slots_nth: "i < leaf_size l \<Longrightarrow> leaf_slots l ! i = perm_get (l_permutation l) i"
  by (simp add: leaf_slots_def)

lemma slot_view_eta: "(slot_ikey e, slot_keylenx e, snd (snd (slot_view e))) = slot_view e"
  by (cases e) simp_all

lemma leaf_set_lv:
  assumes l: "leaf_ok l" "leaf_view l = map slot_view (as @ e # bs)" and q: "q = perm_get (l_permutation l) (length as)"
    and e': "slot_view e' = (fst (slot_view e), fst (snd (slot_view e)), fst (snd (snd (slot_view e))), x)"
  shows "leaf_ok (l\<lparr>l_lv := (l_lv l)[q := x], l_version := v\<rparr>)"
    "leaf_view (l\<lparr>l_lv := (l_lv l)[q := x], l_version := v\<rparr>) = map slot_view (as @ e' # bs)"
proof -
  let ?l = "l\<lparr>l_lv := (l_lv l)[q := x], l_version := v\<rparr>"
  have sl: "leaf_slots ?l = leaf_slots l" by (simp add: leaf_slots_def leaf_size_def)
  have same: "leaf_has_ksuf ?l = leaf_has_ksuf l" "leaf_bag ?l = leaf_bag l" "leaf_ksuf ?l = leaf_ksuf l"
    by (auto simp: leaf_has_ksuf_def leaf_bag_def leaf_ksuf_def fun_eq_iff split: option.splits)
  show "leaf_ok ?l" using l(1) unfolding leaf_ok_def sl same by (simp split: option.splits)
  have n: "leaf_size l = length as + 1 + length bs" using leaf_view_nth(1) [OF l] by simp
  have len: "length (l_lv l) = width" using l(1) by (simp add: leaf_ok_def)
  show "leaf_view ?l = map slot_view (as @ e' # bs)"
  proof (rule nth_equalityI)
    show "length (leaf_view ?l) = length (map slot_view (as @ e' # bs))"
      by (simp add: leaf_view_def sl leaf_slots_distinct(3) [OF l(1)] n)
    fix j assume "j < length (leaf_view ?l)"
    then have j: "j < leaf_size l" by (simp add: leaf_view_def sl leaf_slots_distinct(3) [OF l(1)])
    let ?q = "perm_get (l_permutation l) j"
    have "leaf_view ?l ! j = slot_of ?l ?q" using j by (simp add: leaf_view_def sl) (simp add: leaf_slots_def)
    also have "\<dots> = (fst (slot_of l ?q), fst (snd (slot_of l ?q)), fst (snd (snd (slot_of l ?q))), (l_lv l)[q := x] ! ?q)"
      unfolding slot_of_def same by simp
    also have "slot_of l ?q = slot_view ((as @ e # bs) ! j)"
      using leaf_view_nth(2) [OF l, of j] j n by simp
    finally have v: "leaf_view ?l ! j = (let y = slot_view ((as @ e # bs) ! j) in
        (fst y, fst (snd y), fst (snd (snd y)), (l_lv l)[q := x] ! ?q))" by (simp only: Let_def)
    have qw: "?q < width" using leaf_view_nth(2) [OF l, of j] j n by simp
    show "leaf_view ?l ! j = map slot_view (as @ e' # bs) ! j"
    proof (cases "j = length as")
      case True
      then show ?thesis unfolding v using q len qw e' by (simp add: Let_def nth_append)
    next
      case False
      have "?q \<noteq> q"
      proof
        assume "?q = q"
        then have "leaf_slots l ! j = leaf_slots l ! length as" using j n q by (simp add: leaf_slots_nth)
        with leaf_slots_distinct(1,3) [OF l(1)] j n False show False by (simp add: nth_eq_iff_index_eq)
      qed
      moreover have "l_lv l ! ?q = snd (snd (snd (slot_view ((as @ e # bs) ! j))))"
        using arg_cong [OF conjunct2 [OF leaf_view_nth(2) [OF l, of j]], of "snd \<circ> snd \<circ> snd"] j n
        by (simp add: slot_of_def)
      ultimately show ?thesis unfolding v using False j n by (simp add: Let_def nth_append nth_Cons' slot_view_eta)
    qed
  qed
qed

end
