(* ===== verification/MT_Locate.thy ===== *)
theory MT_Locate
  imports MT_Update
begin

text \<open>
  The search with locks is right: \<open>find_locked\<close> on a table at rest returns with the
  responsible leaf locked and everything else at rest, having changed nothing but stale
  pointers to layers, and the cursor says what the leaf has for the key.
\<close>

section \<open>Stale roots\<close>

lemma layer_parent:
  fixes t :: "'v tree"
  assumes "at_rest w root par t" "r \<in> set (layer_addrs t)" "root \<longleftrightarrow> par = 0"
  shows "\<exists>b q. node_is_root w r = Some b \<and> maybe_parent w r = Some q \<and> r \<noteq> 0 \<and>
    q \<in> set (layer_addrs t) \<union> (if root then {} else {par})"
  using assms
proof (induction t arbitrary: root par rule: tree.induct [where ?P2.0 = "\<lambda>_. True"])
  case (TLeaf p es)
  then have "at_rest w root par (TLeaf p es)" "TLeaf p es \<noteq> TNil" by simp_all
  from at_rest_root [OF this] obtain n where "mt_heap w p = Some n" "p \<noteq> 0"
    "nv_is_root NP (node_version_of n) = root" "node_parent w p = Some par" by auto
  with TLeaf.prems show ?case
    by (auto simp: node_is_root_def maybe_parent_def parent_exists_def)
next
  case (TNode p ks ts)
  then have "at_rest w root par (TNode p ks ts)" "TNode p ks ts \<noteq> TNil" by simp_all
  from at_rest_root [OF this] obtain n where n: "mt_heap w p = Some n" "p \<noteq> 0"
    "nv_is_root NP (node_version_of n) = root" "node_parent w p = Some par" by auto
  show ?case
  proof (cases "r = p")
    case True
    with n TNode.prems(3) show ?thesis
      by (auto simp: node_is_root_def maybe_parent_def parent_exists_def)
  next
    case False
    with TNode.prems obtain t where t: "t \<in> set ts" "r \<in> set (layer_addrs t)" "at_rest w False p t"
      by (auto simp: at_rest_node)
    have "False \<longleftrightarrow> p = 0" using n(2) by simp
    from TNode.IH [OF t(1,3,2) this] obtain b q where q: "node_is_root w r = Some b" "maybe_parent w r = Some q"
      "r \<noteq> 0" "q \<in> set (layer_addrs t) \<union> {p}" by auto
    then have "q \<in> set (layer_addrs (TNode p ks ts))" using t(1) by auto
    with q show ?thesis by blast
  qed
qed simp_all

section \<open>Where \<open>find_locked\<close> stops\<close>

text \<open>The leaf of the cursor is locked and otherwise as in the table at rest \<open>w\<close>; it is the leaf
  responsible for what is left of the key, and the cursor says what it found there.\<close>

definition located :: "'v mt \<Rightarrow> 'v tree \<Rightarrow> bytes \<Rightarrow> 'v mt \<Rightarrow> tcursor \<Rightarrow> 'v tree \<Rightarrow> bytes \<Rightarrow> 'v slot list \<Rightarrow> 'v leaf \<Rightarrow> bool" where
  "located w T S w' c u s es l \<longleftrightarrow>
     table_ok w T \<and> sub_layer T S u s \<and> key_wf (tc_ka c) \<and> key_str (tc_ka c) = s \<and>
     descend u (ikey_of s) = TLeaf (tc_n c) es \<and> mt_heap w (tc_n c) = Some (Leaf l) \<and>
     w' = st_leaf w (tc_n c) (l\<lparr>l_version := l_version l OR lock_bit NP\<rparr>) \<and>
     tc_kx c = leaf_lower (tc_ka c) l \<and> 0 \<le> tc_state c \<and>
     (if kx_p (tc_kx c) \<ge> 0 then leaf_ksuf_matches l (nat (kx_p (tc_kx c))) (tc_ka c) = Some (tc_state c)
      else tc_state c = 0)"

text \<open>What the search may change: pointers to layers. The permutations and the links of the
  leaves stay.\<close>

definition leaf_frame :: "'v leaf \<Rightarrow> u64 \<times> ptr \<times> ptr" where
  "leaf_frame l = (l_permutation l, l_next l, l_prev l)"

definition same_table :: "'v mt \<Rightarrow> 'v tree \<Rightarrow> 'v mt \<Rightarrow> 'v tree \<Rightarrow> bool" where
  "same_table w T w' T' \<longleftrightarrow> table_ok w' T' \<and> grows T {} T' \<and> tree_map T' = tree_map T \<and>
     w' = w\<lparr>mt_heap := mt_heap w'\<rparr> \<and>
     (\<forall>p. map_option leaf_frame (ld_leaf w' p) = map_option leaf_frame (ld_leaf w p))"

lemma same_table_refl: "table_ok w T \<Longrightarrow> same_table w T w T"
  by (simp add: same_table_def grows_def)

lemma same_table_trans: "same_table w T w' T' \<Longrightarrow> same_table w' T' w'' T'' \<Longrightarrow> same_table w T w'' T''"
  unfolding same_table_def grows_def by (auto, metis mt.surjective mt.update_convs(1))

text \<open>Moving the pointer to a layer from a stale root to its parent.\<close>

lemma fix_layer_pointer:
  assumes T: "table_ok w T" "sub_layer T S u s" "descend u (ikey_of s) = TLeaf p (as @ SLayer (ikey_of s) r t # bs)"
    and l: "mt_heap w p = Some (Leaf l)" and r': "r' \<in> set (layer_addrs t)" and s: "8 < length s"
    and w': "w' = w\<lparr>mt_heap := (mt_heap w)(p \<mapsto> Leaf (l\<lparr>l_lv := (l_lv l)[perm_get (l_permutation l) (length as) := LV_layer r']\<rparr>))\<rparr>"
  shows "\<exists>T'. same_table w T w' T' \<and> sub_layer T' S t (drop 8 s)"
proof -
  let ?i = "ikey_of s" let ?e = "SLayer ?i r t" let ?e' = "SLayer ?i r' t"
  let ?es = "as @ ?e # bs" let ?es' = "as @ ?e' # bs" let ?y = "tree_map u s"
  let ?l = "l\<lparr>l_lv := (l_lv l)[perm_get (l_permutation l) (length as) := LV_layer r']\<rparr>"
  have t: "at_rest w True 0 T" "wf_tree T 0 top" "distinct (addrs T)" using T(1) by (simp_all add: table_ok_def)
  from sub_layer_at_rest [OF T(2) t] have u: "at_rest w True 0 u" "wf_tree u 0 top" "distinct (addrs u)" by blast+
  from descend_sub [OF u(1,2) le0 unat_top T(3)] u(3) obtain root par lo hi where
    d: "at_rest w root par (TLeaf p ?es)" "wf_tree (TLeaf p ?es) lo hi" "tree_map u s = first_of (map slot_map ?es) s"
      "distinct (addrs (TLeaf p ?es))" by blast
  have pn: "p \<notin> set (concat (map slot_addrs ?es))" using d(4) by simp
  have ws: "wf_slot ?e'" using d(2) r' by simp
  have rk: "rank_of ?e' = rank_of ?e" "rank_of ?e = str_rank s"
    using s by (simp_all add: rank_of_def str_rank_def slot_rank_def layer_keylenx_def)
  have rest: "at_rest w' root par (TLeaf p ?es')" if a: "at_rest w root par (TLeaf p ?es)" for root par
  proof -
    from leaf_at [OF a d(2)] l have v: "ver_clean (l_version l)" "leaf_ok l" "leaf_view l = map slot_view ?es" by auto
    have "?l = ?l\<lparr>l_version := l_version l\<rparr>" by simp
    then have lv: "leaf_ok ?l" "leaf_view ?l = map slot_view ?es'"
      using leaf_set_lv [OF v(2,3) refl, of ?e' "LV_layer r'" "l_version l"] by simp_all
    show ?thesis
      by (rule leaf_store [OF a pn _ _ l _ _ _ lv]) (use v(1) in \<open>auto simp: w'\<close>)
  qed
  have c: "changes w w' (set (addrs (TLeaf p ?es)) \<union> {})" by (simp add: w' changes_def)
  have "slot_map ?e' = (slot_map ?e)(s := ?y)"
    using leaf_map_at [OF d(2), of "length as" s] rk(2) d(3) by auto
  then have m: "first_of (map slot_map ?es') = (first_of (map slot_map ?es))(s := ?y)"
    by (rule replace_map [OF d(2) rk(1) ws rk(2)])
  have "\<exists>T' u'. table_ok w' T' \<and> grows T {} T' \<and> tree_map T' = (tree_map T)(S := ?y) \<and>
      sub_layer T' S u' s \<and> descend u' ?i = TLeaf p ?es'"
    by (rule leaf_update [OF T _ c rest _ _ _ m]) (use d(4) replace_wf [OF _ rk(1) ws] in auto)
  then obtain T' u' where T': "table_ok w' T'" "grows T {} T'" "tree_map T' = (tree_map T)(S := ?y)"
    "sub_layer T' S u' s" "descend u' ?i = TLeaf p ?es'" by blast
  have "tree_map T S = ?y" using sub_layer_map [OF T(2) t(2)] by simp
  then have "tree_map T' = tree_map T" using T'(3) by auto
  have "sub_layer u' s t (drop 8 s)"
    by (rule sub_layer.Down [where r = r', OF T'(5) _ s sub_layer.Here]) simp
  moreover have "map_option leaf_frame (ld_leaf w' q) = map_option leaf_frame (ld_leaf w q)" for q
    using l by (simp add: w' ld_leaf_def leaf_frame_def)
  ultimately show ?thesis using \<open>tree_map T' = tree_map T\<close> T'(1,2) sub_layer_trans [OF T'(4)]
    by (intro exI [of _ T']) (simp add: same_table_def w')
qed

lemma find_locked_at:
  assumes "table_ok w T" "sub_layer T S u s" "r \<in> set (layer_addrs u)"
    and "key_wf (tc_ka c)" "key_str (tc_ka c) = s"
  shows "\<exists>n v. reach_leaf w r (tc_ka c) = Some (n, v) \<and>
    (\<exists>w1 T1 w' c' u' s' es l. find_locked_forward w r (c\<lparr>tc_n := n\<rparr>) v = Some (w', c') \<and>
      same_table w T w1 T1 \<and> located w1 T1 S w' c' u' s' es l)"
  using assms
proof (induction "length s" arbitrary: w T u r c s rule: less_induct)
  case less
  let ?k = "tc_ka c"
  have t: "at_rest w True 0 T" "wf_tree T 0 top" "distinct (addrs T)"
    using less.prems(1) by (simp_all add: table_ok_def)
  from sub_layer_at_rest [OF less.prems(2) t] have u: "at_rest w True 0 u" "wf_tree u 0 top" "distinct (addrs u)" by blast+
  have ik: "k_ikey0 ?k = ikey_of s" using less.prems(4,5) by (simp add: key_wf_def)
  from reach_leaf_at [OF u(1,2) less.prems(3), of ?k] obtain n v es where
    rl: "reach_leaf w r ?k = Some (n, v)" "descend u (ikey_of s) = TLeaf n es"
      "node_version w n = Some v" unfolding ik by blast
  from descend_sub [OF u(1,2) le0 unat_top rl(2)] u(3) obtain root par lo hi where
    d: "at_rest w root par (TLeaf n es)" "wf_tree (TLeaf n es) lo hi" "distinct (addrs (TLeaf n es))" by blast
  from leaf_at [OF d(1,2)] obtain l where l: "mt_heap w n = Some (Leaf l)" "ver_shape True root (l_version l)"
    "ver_clean (l_version l)" "leaf_ok l" "leaf_view l = map slot_view es" by blast
  have v: "v = l_version l" using rl(3) l(1) by simp
  let ?c = "c\<lparr>tc_n := n\<rparr>"
  let ?lk = "l\<lparr>l_version := l_version l OR lock_bit NP\<rparr>"
  let ?wl = "st_leaf w n ?lk"
  note fwd = find_locked_forward.simps [of w r ?c v]
  have nd: "\<not> nv_deleted NP v" "ld_leaf w n = Some l" "ld_leaf ?wl n = Some ?lk" "\<not> leaf_deleted_layer ?lk"
    using l(1,2,4) v by (simp_all add: ver_shape_def ld_leaf_def st_leaf_def st_node_def leaf_deleted_layer_def leaf_ok_def)
  have lk: "node_lock w n v = Some (?wl, v OR lock_bit NP)"
    using lock_clean [OF l(1)] l(3) v by (simp add: st_leaf_def)
  note lf = leaf_find [OF l(4,5) d(2) less.prems(4)]
  have stop: ?case if m: "find_locked_forward w r ?c v = Some (?wl, ?c\<lparr>tc_kx := leaf_lower ?k l, tc_state := m\<rparr>)"
    "0 \<le> m" "if kx_p (leaf_lower ?k l) \<ge> 0 then leaf_ksuf_matches l (nat (kx_p (leaf_lower ?k l))) ?k = Some m else m = 0" for m
  proof -
    have "located w T S ?wl (?c\<lparr>tc_kx := leaf_lower ?k l, tc_state := m\<rparr>) u s es l"
      using less.prems rl(2) l(1) m(2,3) by (simp add: located_def)
    with m(1) rl(1) same_table_refl [OF less.prems(1)] show ?thesis by blast
  qed
  show ?case
  proof (cases "kx_p (leaf_lower ?k l) = -1")
    case True
    then have "find_locked_forward w r ?c v = Some (?wl, ?c\<lparr>tc_kx := leaf_lower ?k l, tc_state := 0\<rparr>)"
      unfolding fwd using nd lk v by simp
    then show ?thesis using stop [of 0] True by simp
  next
    case False
    with lf obtain i where i: "i < length es" "kx_p (leaf_lower ?k l) = int (perm_get (l_permutation l) i)"
      "rank_of (es ! i) = str_rank (key_str ?k)" by auto
    have ws: "wf_slot (es ! i)" using d(2) i(1) by simp
    note m = ksuf_matches_at [OF l(4,5) less.prems(4) i(1) ws i(3)]
    show ?thesis
    proof (cases "es ! i")
      case (SVal a b suf x)
      let ?m = "if slot_map (es ! i) s = Some x then 1 else 0 :: int"
      have "find_locked_forward w r ?c v = Some (?wl, ?c\<lparr>tc_kx := leaf_lower ?k l, tc_state := ?m\<rparr>)"
        unfolding fwd using nd lk v m(1) [OF SVal] i(2) less.prems(5) by simp
      then show ?thesis using stop [of ?m] m(1) [OF SVal] i(2) less.prems(5) by simp
    next
      case (SLayer a r1 t1)
      have s: "a = ikey_of s" "8 < length s"
        using i(3) SLayer less.prems(5)
        by (auto simp: rank_of_def str_rank_def slot_rank_eq layer_keylenx_def)
      let ?as = "take i es" let ?bs = "drop (Suc i) es"
      have es: "es = ?as @ SLayer (ikey_of s) r1 t1 # ?bs" "length ?as = i"
        using id_take_nth_drop [OF i(1)] SLayer s(1) i(1) by simp_all
      have mem: "SLayer (ikey_of s) r1 t1 \<in> set es" using SLayer i(1) s(1) by (metis nth_mem)
      have t1: "at_rest w True 0 t1" "r1 \<in> set (layer_addrs t1)" "n \<notin> set (addrs t1)"
        using d mem layer_slot_addrs [OF mem] ws SLayer by (auto simp: at_rest_leaf simp del: set_concat)
      obtain b q where q: "node_is_root w r1 = Some b" "maybe_parent w r1 = Some q" "r1 \<noteq> 0" "q \<in> set (layer_addrs t1)"
        using layer_parent [OF t1(1,2)] by auto
      have hs: "key_has_suffix ?k"
        using s less.prems(4,5) length_key_str [of ?k] by (simp add: key_has_suffix_def ikey_size_def)
      have k': "key_wf (key_shift ?k)" "key_str (key_shift ?k) = drop 8 s"
        using key_shift_wf [OF less.prems(4) hs] less.prems(5) by simp_all
      have sub: "sub_layer T S t1 (drop 8 s)"
        using sub_layer_trans [OF less.prems(2) sub_layer.Down [OF rl(2) mem s(2) sub_layer.Here]] .
      have lt: "length (drop 8 s) < length s" using s by simp
      let ?kx = "leaf_lower ?k l"
      show ?thesis
      proof (cases b)
        case True
        let ?c1 = "?c\<lparr>tc_kx := ?kx, tc_state := -8, tc_ka := key_shift ?k\<rparr>"
        from less.hyps [OF lt less.prems(1) sub t1(2), of ?c1] k' obtain n' v' w1 T1 w' c' u' s' es' l' where
          ih: "reach_leaf w r1 (key_shift ?k) = Some (n', v')"
            "find_locked_forward w r1 (?c1\<lparr>tc_n := n'\<rparr>) v' = Some (w', c')"
            "same_table w T w1 T1" "located w1 T1 S w' c' u' s' es' l'"
          by auto
        have "find_locked_forward w r ?c v = find_locked_forward w r1 (?c1\<lparr>tc_n := n'\<rparr>) v'"
          unfolding fwd using nd m(2) [OF SLayer] i(2) ih(1) q v True by (simp add: key_shift_by_8)
        from trans [OF this ih(2)] show ?thesis using rl(1) ih(3,4) by blast
      next
        case False
        let ?p = "perm_get (l_permutation l) i"
        let ?l2 = "l\<lparr>l_lv := (l_lv l)[?p := LV_layer q]\<rparr>"
        let ?w2 = "w\<lparr>mt_heap := (mt_heap w)(n \<mapsto> Leaf ?l2)\<rparr>"
        have "r1 \<noteq> n" using t1(2,3) layer_addrs_sub by blast
        then have mp: "maybe_parent ?wl r1 = Some q"
          using q(2) by (simp add: maybe_parent_def node_parent_def st_leaf_def st_node_def)
        have ul: "node_unlock (st_leaf ?wl n (?lk\<lparr>l_lv := (l_lv ?lk)[?p := LV_layer q]\<rparr>)) n = Some ?w2"
          using unlock_unchanged [of "l_version l"] l(2,3)
          by (simp add: node_unlock_def upd_version_def st_leaf_def st_node_def ver_shape_def)
        from fix_layer_pointer [OF less.prems(1,2) trans [OF rl(2) arg_cong [OF es(1), of "TLeaf n"]] l(1) q(4) s(2), of ?w2] es(2) obtain T2 where
          T2: "same_table w T ?w2 T2" "sub_layer T2 S t1 (drop 8 s)" by auto
        have ok2: "table_ok ?w2 T2" using T2(1) by (simp add: same_table_def)
        let ?c1 = "?c\<lparr>tc_kx := ?kx, tc_state := -8, tc_ka := key_shift ?k\<rparr>"
        from less.hyps [OF lt ok2 T2(2) q(4), of ?c1] k' obtain n' v' w1 T1 w' c' u' s' es' l' where
          ih: "reach_leaf ?w2 q (key_shift ?k) = Some (n', v')"
            "find_locked_forward ?w2 q (?c1\<lparr>tc_n := n'\<rparr>) v' = Some (w', c')"
            "same_table ?w2 T2 w1 T1" "located w1 T1 S w' c' u' s' es' l'"
          by auto
        have "find_locked_forward w r ?c v = find_locked_forward ?w2 q (?c1\<lparr>tc_n := n'\<rparr>) v'"
          unfolding fwd using nd lk m(2) [OF SLayer] i(2) ih(1) q v False mp ul by (simp add: key_shift_by_8)
        from trans [OF this ih(2)] show ?thesis using rl(1) same_table_trans [OF T2(1) ih(3)] ih(4) by blast
      qed
    qed
  qed
qed

end
