(* ===== verification/MT_Leaf_Ops.thy ===== *)
theory MT_Leaf_Ops
  imports MT_Locate
begin

text \<open>
  The operations on one leaf: suffixes are stored and kept, a free slot takes a new key, and
  the slots in key order change as a list does under insertion and removal.
\<close>

section \<open>Suffixes\<close>

definition bags_ok :: "'v leaf \<Rightarrow> bool" where
  "bags_ok l \<longleftrightarrow>
     (case l_ksuf l of Some b \<Rightarrow> sb_wf 2 width b \<and> l_extrasize64 l < 0 | None \<Rightarrow> l_extrasize64 l \<ge> 0) \<and>
     (case l_iksuf l of Some b \<Rightarrow> sb_wf 1 width b | None \<Rightarrow> l_extrasize64 l \<le> 0)"

definition only_bags :: "'v leaf \<Rightarrow> 'v leaf \<Rightarrow> bool" where
  "only_bags l l' \<longleftrightarrow>
     l' = l\<lparr>l_ksuf := l_ksuf l', l_iksuf := l_iksuf l', l_extrasize64 := l_extrasize64 l'\<rparr>"

text \<open>The slots whose suffixes \<open>assign_ksuf\<close> must keep.\<close>

definition kept_slots :: "'v leaf \<Rightarrow> nat \<Rightarrow> bool \<Rightarrow> nat list" where
  "kept_slots l p initializing =
     filter (\<lambda>mp. mp \<noteq> p \<and> leaf_has_ksuf l mp)
       (map (\<lambda>i. if initializing then i else perm_get (l_permutation l) i)
         [0..<if initializing then p else perm_size (l_permutation l)])"

lemma sb_assign_all_snoc:
  "sb_assign_all b (xs @ [(p, s)]) = Option.bind (sb_assign_all b xs) (\<lambda>b. sb_assign b p s)"
  by (induction xs arbitrary: b) (auto split: option.splits)

lemma those_map_Some: "(\<forall>x \<in> set xs. f x \<noteq> None) \<Longrightarrow> those (map f xs) = Some (map (the \<circ> f) xs)"
  by (induction xs) auto

lemma new_bag_size:
  assumes "n \<le> 61511" "0 < n" "sb_wf 2 width b \<or> c = 0" "c = sb_capacity_of b \<or> c = 0"
  shows "n \<le> max (unat (iceil_log2 (word_of_nat n))) c \<and> max (unat (iceil_log2 (word_of_nat n))) c \<le> sb_max_size 2"
proof -
  have u: "unat (word_of_nat n :: u64) = n" using assms(1) by (simp add: unat_of_nat)
  have "unat (word_of_nat n :: u64) \<noteq> 0" using u assms(2) by simp
  then have nz: "(word_of_nat n :: u64) \<noteq> 0" by auto
  obtain k where k: "unat (iceil_log2 (word_of_nat n)) = 2 ^ k" "n \<le> 2 ^ k" "k = 0 \<or> 2 ^ (k - 1) < n"
    using iceil_log2_exp [of "word_of_nat n"] u nz assms(1) by (auto simp: word_less_nat_alt word_le_nat_alt)
  have "k \<le> 16"
  proof (rule ccontr)
    assume "\<not> k \<le> 16"
    then have "(2 :: nat) ^ 16 \<le> 2 ^ (k - 1)" by (intro power_increasing) auto
    with k(3) assms(1) \<open>\<not> k \<le> 16\<close> show False by simp
  qed
  then have "(2 :: nat) ^ k \<le> 2 ^ 16" by (intro power_increasing) auto
  moreover have "c \<le> sb_max_size 2" using assms(3,4) by (auto simp: sb_wf_def)
  ultimately show ?thesis using k by (simp add: sb_max_size_def)
qed

lemma assign_ksuf_ok:
  assumes b: "bags_ok l" and p: "p < width" and s: "length s \<le> max_ksuf"
    and kept: "distinct (kept_slots l p ini)" "set (kept_slots l p ini) \<subseteq> {..<width}"
      "\<And>q. q \<in> set (kept_slots l p ini) \<Longrightarrow> \<exists>t. leaf_ksuf l q = Some t \<and> length t \<le> max_ksuf"
  shows "\<exists>l'. assign_ksuf l p s ini = Some l' \<and> only_bags l l' \<and> bags_ok l' \<and> leaf_ksuf l' p = Some s \<and>
    (\<forall>q \<in> set (kept_slots l p ini). leaf_ksuf l' q = leaf_ksuf l q)"
proof -
  let ?K = "kept_slots l p ini"
  have np: "p \<notin> set ?K" by (simp add: kept_slots_def)
  consider (ext) b b' where "l_ksuf l = Some b" "sb_assign b p s = Some b'"
    | (int) b b' where "l_ksuf l = None" "l_extrasize64 l > 0" "l_iksuf l = Some b" "sb_assign b p s = Some b'"
    | (new) "Option.bind (l_ksuf l) (\<lambda>b. sb_assign b p s) = None"
      "(if l_extrasize64 l > 0 then Option.bind (l_iksuf l) (\<lambda>b. sb_assign b p s) else None) = None"
    using b unfolding bags_ok_def
    by (cases "l_ksuf l"; cases "l_iksuf l"; cases "sb_assign (the (l_ksuf l)) p s";
        cases "sb_assign (the (l_iksuf l)) p s"; cases "l_extrasize64 l > 0") auto
  then show ?thesis
  proof cases
    case ext
    then have w: "sb_wf 2 width b" "l_extrasize64 l < 0" using b by (simp_all add: bags_ok_def)
    note a = sb_assign_wf [OF w(1) p ext(2)]
    have "assign_ksuf l p s ini = Some (l\<lparr>l_ksuf := Some b'\<rparr>)" by (simp add: assign_ksuf_def ext)
    then show ?thesis
      using a w b ext np kept(2)
      by (intro exI [of _ "l\<lparr>l_ksuf := Some b'\<rparr>"]) (auto simp: only_bags_def bags_ok_def leaf_ksuf_def leaf_bag_def subset_iff split: option.splits)
  next
    case int
    then have w: "sb_wf 1 width b" using b by (simp add: bags_ok_def)
    note a = sb_assign_wf [OF w p int(4)]
    have "assign_ksuf l p s ini = Some (l\<lparr>l_iksuf := Some b'\<rparr>)" by (simp add: assign_ksuf_def int)
    then show ?thesis
      using a w b int np kept(2)
      by (intro exI [of _ "l\<lparr>l_iksuf := Some b'\<rparr>"]) (auto simp: only_bags_def bags_ok_def leaf_ksuf_def leaf_bag_def subset_iff split: option.splits)
  next
    case new
    define sufs where "sufs = map (\<lambda>q. (q, the (leaf_ksuf l q))) ?K"
    have th: "those (map (\<lambda>mp. map_option (Pair mp) (leaf_ksuf l mp)) ?K) = Some sufs"
    proof -
      have "those (map (\<lambda>mp. map_option (Pair mp) (leaf_ksuf l mp)) ?K) =
          Some (map (the \<circ> (\<lambda>mp. map_option (Pair mp) (leaf_ksuf l mp))) ?K)"
        by (rule those_map_Some) (use kept(3) in fastforce)
      also have "map (the \<circ> (\<lambda>mp. map_option (Pair mp) (leaf_ksuf l mp))) ?K = sufs"
        unfolding sufs_def by (rule map_cong) (use kept(3) in fastforce)+
      finally show ?thesis .
    qed
    let ?c = "sum_list (map (length \<circ> snd) sufs)"
    let ?n = "sb_safe_size 2 width (?c + length s)"
    have c: "total_length (sufs @ [(p, s)]) = ?c + length s"
      by (simp add: total_length_def comp_def case_prod_unfold)
    have "length ?K \<le> 14"
    proof -
      have "set ?K \<subseteq> {..<width} - {p}" using kept(2) np by blast
      then have "card (set ?K) \<le> card ({..<width} - {p})" by (intro card_mono) auto
      then show ?thesis using p kept(1) by (simp add: distinct_card width_def)
    qed
    moreover have "?c \<le> length ?K * 4096"
    proof -
      have "sum_list (map (length \<circ> snd) sufs) \<le> sum_list (map (\<lambda>_. 4096) ?K)"
        unfolding sufs_def map_map by (rule sum_list_mono) (use kept(3) in \<open>fastforce simp: max_ksuf_def\<close>)
      then show ?thesis by (simp add: sum_list_triv)
    qed
    ultimately have n: "?n \<le> 61511" "0 < ?n"
      using s by (simp_all add: sb_safe_size_def sb_overhead_def sb_empty_size_def width_def slice_size_def max_ksuf_def)
    define sz where "sz = (case l_ksuf l of Some b \<Rightarrow> max (unat (iceil_log2 (word_of_nat ?n))) (sb_capacity_of b)
      | None \<Rightarrow> unat (iceil_log2 (word_of_nat ?n)))"
    have sz: "?n \<le> sz" "sz \<le> sb_max_size 2"
      using new_bag_size [OF n, where c = 0] new_bag_size [OF n, where c = "sb_capacity_of b" and b = b for b] b
      unfolding sz_def bags_ok_def by (auto split: option.splits)
    have room: "sb_overhead 2 width + (?c + length s) + 7 \<le> sz"
      using sz(1) by (simp add: sb_safe_size_def slice_size_def)
    then obtain nb where nb: "sb_make 2 width sz = Some nb"
      using sz(2) by (auto simp: sb_make_def Let_def)
    have "0 < sz" using room by simp
    note nw = sb_make_wf [OF nb this]
    have "sb_size nb + total_length (sufs @ [(p, s)]) + 7 \<le> sb_capacity_of nb" using room nw c by simp
    moreover have "\<forall>(q, t) \<in> set (sufs @ [(p, s)]). q < width" using kept(2) p by (auto simp: sufs_def)
    moreover have d: "distinct (map fst (sufs @ [(p, s)]))"
    proof -
      have "map fst (sufs @ [(p, s)]) = ?K @ [p]" by (simp add: sufs_def comp_def)
      then show ?thesis using kept(1) np by simp
    qed
    ultimately obtain b' where b': "sb_assign_all nb (sufs @ [(p, s)]) = Some b'" "sb_wf 2 width b'"
      "\<forall>q<width. sb_get b' q = (case map_of (sufs @ [(p, s)]) q of Some t \<Rightarrow> t | None \<Rightarrow> sb_get nb q)"
      using sb_assign_all_fits [OF nw(1), of "sufs @ [(p, s)]"] by blast
    have get: "sb_get b' q = t" if "(q, t) \<in> set (sufs @ [(p, s)])" "q < width" for q t
      using b'(3) that(2) map_of_is_SomeI [OF d that(1)] by (metis option.simps(5))
    have gp: "sb_get b' p = s" by (rule get) (simp_all add: p)
    have gq: "sb_get b' q = the (leaf_ksuf l q)" if "q \<in> set ?K" for q
      by (rule get) (use that kept(2) in \<open>auto simp: sufs_def\<close>)
    let ?l = "l\<lparr>l_ksuf := Some b', l_extrasize64 := (if l_extrasize64 l \<ge> 0 then - l_extrasize64 l - 1 else l_extrasize64 l)\<rparr>"
    have as: "assign_ksuf l p s ini = Some ?l"
      unfolding assign_ksuf_def new th [unfolded kept_slots_def] Let_def option.case
      using nb b'(1) th unfolding sb_assign_all_snoc sz_def kept_slots_def
      by (auto split: option.splits bind_splits simp: Let_def)
    have "only_bags l ?l" by (simp add: only_bags_def)
    moreover have "bags_ok ?l" using b b'(2) by (auto simp: bags_ok_def split: option.splits)
    moreover have "leaf_ksuf ?l q = Some (sb_get b' q)" for q by (simp add: leaf_ksuf_def leaf_bag_def)
    moreover have "Some (sb_get b' q) = leaf_ksuf l q" if "q \<in> set ?K" for q using gq [OF that] kept(3) [OF that] by auto
    ultimately show ?thesis using as gp by (intro exI [of _ ?l]) simp
  qed
qed

section \<open>Assigning a free slot\<close>

lemma leaf_ok_bags:
  "leaf_ok l \<longleftrightarrow> length (l_ikey0 l) = width \<and> length (l_keylenx l) = width \<and> length (l_lv l) = width \<and>
     perm_wf width (l_permutation l) \<and> l_modstate l \<noteq> modstate_deleted_layer \<and> bags_ok l \<and>
     (\<forall>q \<in> set (leaf_slots l). leaf_has_ksuf l q \<longrightarrow> leaf_bag l \<noteq> None)"
  unfolding leaf_ok_def bags_ok_def by auto

lemma leaf_slots_live: "perm_wf width (l_permutation l) \<Longrightarrow> leaf_slots l = live width (l_permutation l)"
  by (simp add: leaf_slots_def live_def plist_def take_map leaf_size_def perm_wf_def)

lemma only_bags_fields:
  assumes "only_bags l l'"
  shows "l_version l' = l_version l" "l_modstate l' = l_modstate l" "l_keylenx l' = l_keylenx l"
    "l_permutation l' = l_permutation l" "l_ikey0 l' = l_ikey0 l" "l_lv l' = l_lv l" "l_next l' = l_next l"
    "l_prev l' = l_prev l" "l_parent l' = l_parent l" "l_phantom_epoch l' = l_phantom_epoch l"
    "leaf_has_ksuf l' q = leaf_has_ksuf l q"
  by (subst assms [unfolded only_bags_def]; simp add: leaf_has_ksuf_def)+

text \<open>The short suffixes of the slots in use.\<close>

definition ksufs_bounded :: "'v leaf \<Rightarrow> bool" where
  "ksufs_bounded l \<longleftrightarrow> (\<forall>q \<in> set (leaf_slots l). leaf_has_ksuf l q \<longrightarrow> length (the (leaf_ksuf l q)) \<le> max_ksuf)"

fun new_slot :: "bytes \<Rightarrow> 'v \<Rightarrow> 'v slot" where
  "new_slot s v = SVal (ikey_of s) (if 8 < length s then ksuf_keylenx else int (length s)) (drop 8 s) v"

lemma leaf_assign_ok:
  assumes l: "leaf_ok l" "ksufs_bounded l" and p: "p < width" "p \<notin> set (leaf_slots l)"
    and k: "key_wf k" "length (drop 8 (key_str k)) \<le> max_ksuf"
  shows "\<exists>l'. leaf_assign l p k = Some l' \<and> leaf_ok l' \<and> l_version l' = l_version l \<and>
    l_permutation l' = l_permutation l \<and> l_modstate l' = l_modstate l \<and> l_next l' = l_next l \<and>
    l_prev l' = l_prev l \<and> l_parent l' = l_parent l \<and> l_phantom_epoch l' = l_phantom_epoch l \<and>
    (\<forall>q \<in> set (leaf_slots l). slot_of l' q = slot_of l q) \<and>
    (\<forall>v. leaf_ok (l'\<lparr>l_lv := (l_lv l')[p := LV_value v]\<rparr>) \<and>
      slot_of (l'\<lparr>l_lv := (l_lv l')[p := LV_value v]\<rparr>) p = slot_view (new_slot (key_str k) v)) \<and>
    (leaf_has_ksuf l' p \<longrightarrow> leaf_bag l' \<noteq> None)"
proof -
  let ?s = "key_str k"
  let ?kx = "if 8 < length ?s then ksuf_keylenx else int (length ?s)"
  let ?l = "leaf_set_slot (l\<lparr>l_lv := (l_lv l)[p := LV_empty]\<rparr>) p (k_ikey0 k) ?kx"
  have kl: "int (length ?s) = k_len k" "k_ikey0 k = ikey_of ?s" using k(1) by (simp_all add: length_key_str key_wf_def)
  have len: "length (l_ikey0 l) = width" "length (l_keylenx l) = width" "length (l_lv l) = width"
    using l(1) by (simp_all add: leaf_ok_def)
  have sl: "leaf_slots ?l = leaf_slots l" by (simp add: leaf_set_slot_def leaf_slots_def leaf_size_def)
  have hk: "leaf_has_ksuf ?l q = (if q = p then 8 < length ?s else leaf_has_ksuf l q)" if "q < width" for q
    using that len p(1) by (auto simp: leaf_set_slot_def leaf_has_ksuf_def keylenx_has_ksuf_def ksuf_keylenx_def)
  have bg: "leaf_bag ?l = leaf_bag l" "leaf_ksuf ?l = leaf_ksuf l"
    by (auto simp: leaf_set_slot_def leaf_bag_def leaf_ksuf_def fun_eq_iff split: option.splits)
  have b: "bags_ok ?l" using l(1) by (auto simp: leaf_ok_bags bags_ok_def leaf_set_slot_def split: option.splits)
  have lw: "q < width" if "q \<in> set (leaf_slots l)" for q using leaf_slots_distinct(2) [OF l(1) that] .
  have kept: "kept_slots ?l p False = filter (leaf_has_ksuf l) (leaf_slots l)"
  proof -
    have "kept_slots ?l p False = filter (\<lambda>q. q \<noteq> p \<and> leaf_has_ksuf ?l q) (leaf_slots l)"
      unfolding kept_slots_def sl [symmetric] by (simp only: leaf_slots_def leaf_size_def if_False)
    also have "\<dots> = filter (leaf_has_ksuf l) (leaf_slots l)"
      by (rule filter_cong [OF refl]) (use hk lw p(2) in auto)
    finally show ?thesis .
  qed
  have asg: "leaf_assign l p k = (if 8 < length ?s then assign_ksuf ?l p (drop 8 ?s) False else Some ?l)"
    using kl by (auto simp: leaf_assign_def leaf_assign_key_def key_has_suffix_def ikey_size_def key_suffix_str Let_def)
  obtain l' where l': "leaf_assign l p k = Some l'" "only_bags ?l l'" "bags_ok l'"
    "8 < length ?s \<longrightarrow> leaf_ksuf l' p = Some (drop 8 ?s)"
    "\<And>q. q \<in> set (leaf_slots l) \<Longrightarrow> leaf_has_ksuf l q \<Longrightarrow> leaf_ksuf l' q = leaf_ksuf l q"
  proof (cases "8 < length ?s")
    case True
    have "\<exists>l'. assign_ksuf ?l p (drop 8 ?s) False = Some l' \<and> only_bags ?l l' \<and> bags_ok l' \<and>
        leaf_ksuf l' p = Some (drop 8 ?s) \<and> (\<forall>q \<in> set (kept_slots ?l p False). leaf_ksuf l' q = leaf_ksuf ?l q)"
    proof (rule assign_ksuf_ok [OF b p(1) k(2)])
      show "distinct (kept_slots ?l p False)" unfolding kept using leaf_slots_distinct(1) [OF l(1)] by simp
      show "set (kept_slots ?l p False) \<subseteq> {..<width}" unfolding kept using lw by auto
      fix q assume "q \<in> set (kept_slots ?l p False)"
      then have q: "q \<in> set (leaf_slots l)" "leaf_has_ksuf l q" unfolding kept by simp_all
      with l show "\<exists>t. leaf_ksuf ?l q = Some t \<and> length t \<le> max_ksuf"
        unfolding bg by (fastforce simp: leaf_ok_def ksufs_bounded_def leaf_ksuf_def)
    qed
    with that True asg show thesis unfolding kept bg by auto
  next
    case False
    show thesis
    proof (rule that [of ?l])
      show "leaf_assign l p k = Some ?l" using asg False by simp
      show "only_bags ?l ?l" by (simp add: only_bags_def)
      show "bags_ok ?l" by (rule b)
      show "8 < length ?s \<longrightarrow> leaf_ksuf ?l p = Some (drop 8 ?s)" using False by simp
      show "leaf_ksuf ?l q = leaf_ksuf l q" for q by (simp only: bg)
    qed
  qed
  note f = only_bags_fields [OF l'(2)]
  have fl: "l_version l' = l_version l" "l_permutation l' = l_permutation l" "l_modstate l' = l_modstate l"
    "l_next l' = l_next l" "l_prev l' = l_prev l" "l_parent l' = l_parent l" "l_phantom_epoch l' = l_phantom_epoch l"
    "l_ikey0 l' = (l_ikey0 l)[p := ikey_of ?s]" "l_keylenx l' = (l_keylenx l)[p := ?kx]"
    "l_lv l' = (l_lv l)[p := LV_empty]"
    unfolding f using kl by (simp_all add: leaf_set_slot_def)
  have sl': "leaf_slots l' = leaf_slots l" unfolding leaf_slots_def leaf_size_def fl ..
  have hk': "leaf_has_ksuf l' q = (if q = p then 8 < length ?s else leaf_has_ksuf l q)" if "q < width" for q
    using hk [OF that] f(11) by simp
  have bag: "leaf_bag l' \<noteq> None" if "q \<in> set (leaf_slots l) \<and> leaf_has_ksuf l q \<or> 8 < length ?s" for q
  proof -
    from that have "\<exists>q t. leaf_ksuf l' q = Some t"
    proof
      assume q: "q \<in> set (leaf_slots l) \<and> leaf_has_ksuf l q"
      then have "leaf_bag l \<noteq> None" using l(1) by (auto simp: leaf_ok_def)
      then have "leaf_ksuf l q \<noteq> None" by (simp add: leaf_ksuf_def)
      then show ?thesis using l'(5) q by fastforce
    qed (use l'(4) in blast)
    then show ?thesis by (auto simp: leaf_ksuf_def)
  qed
  have ok: "leaf_ok l'"
    unfolding leaf_ok_bags sl' fl using l(1) l'(3) len bag hk' lw p(2) by (auto simp: leaf_ok_def)
  have same: "slot_of l' q = slot_of l q" if q: "q \<in> set (leaf_slots l)" for q
  proof -
    have "q < width" "q \<noteq> p" using lw [OF q] q p(2) by auto
    then show ?thesis using hk' l'(5) [OF q] by (simp add: slot_of_def fl)
  qed
  have new: "leaf_ok (l'\<lparr>l_lv := (l_lv l')[p := LV_value v]\<rparr>) \<and>
      slot_of (l'\<lparr>l_lv := (l_lv l')[p := LV_value v]\<rparr>) p = slot_view (new_slot ?s v)" for v
  proof -
    let ?x = "l'\<lparr>l_lv := (l_lv l')[p := LV_value v]\<rparr>"
    have x: "leaf_has_ksuf ?x = leaf_has_ksuf l'" "leaf_bag ?x = leaf_bag l'" "leaf_ksuf ?x = leaf_ksuf l'" "leaf_slots ?x = leaf_slots l'"
      by (auto simp: leaf_has_ksuf_def leaf_bag_def leaf_ksuf_def leaf_slots_def leaf_size_def fun_eq_iff split: option.splits)
    have "leaf_ok ?x" using ok unfolding leaf_ok_def x by (simp split: option.splits)
    moreover have "slot_of ?x p = slot_view (new_slot ?s v)"
      unfolding slot_of_def x using hk' [OF p(1)] l'(4) len p(1) by (simp add: fl)
    ultimately show ?thesis ..
  qed
  show ?thesis using l'(1) ok fl(1-7) same new hk' [OF p(1)] bag by (intro exI [of _ l']) auto
qed

section \<open>Inserting a key into a leaf\<close>

lemma short_string_eq:
  assumes "ikey_of x = ikey_of s" "length x = length s" "length s \<le> 8"
  shows "x = s"
proof -
  have "pad 8 x = pad 8 s" using assms(1) by (simp add: ikey_of_eq_iff)
  with assms(2,3) show ?thesis by (simp add: pad_short)
qed

lemma slot_map_new: "slot_map (new_slot s v) x = (if x = s then Some v else None)"
  using long_string_eq [of x s] short_string_eq [of x s]
  by (auto simp: slot_matches_def ksuf_keylenx_def)

lemma rank_of_new [simp]: "rank_of (new_slot s v) = str_rank s"
  by (simp add: rank_of_def str_rank_def slot_rank_def ksuf_keylenx_def)

lemma wf_new: "length (drop 8 s) \<le> max_ksuf \<Longrightarrow> wf_slot (new_slot s v)"
  by simp

lemma slot_ikey_new [simp]: "slot_ikey (new_slot s v) = ikey_of s"
  by simp

declare new_slot.simps [simp del]

lemma list_ins_split: "list_ins i x xs = take i xs @ x # drop i xs"
  by (simp add: list_ins_def)

text \<open>Position \<open>i\<close> is where the rank of \<open>s\<close> belongs and no slot has it.\<close>

definition gap_at :: "'v slot list \<Rightarrow> nat \<Rightarrow> bytes \<Rightarrow> bool" where
  "gap_at es i s \<longleftrightarrow> i \<le> length es \<and> (\<forall>j < i. rank_of (es ! j) < str_rank s) \<and>
     (\<forall>j < length es. i \<le> j \<longrightarrow> str_rank s < rank_of (es ! j))"

lemma insert_wf:
  assumes "wf_tree (TLeaf p es) lo hi" "length es < width" "gap_at es i s"
    "lo \<le> unat (ikey_of s)" "unat (ikey_of s) < hi" "length (drop 8 s) \<le> max_ksuf"
  shows "wf_tree (TLeaf p (list_ins i (new_slot s v) es)) lo hi"
proof -
  have "sorted_wrt (<) (map rank_of (list_ins i (new_slot s v) es))"
  proof -
    have "sorted_wrt (<) (map rank_of (take i es @ drop i es))" using assms(1) by simp
    moreover have "rank_of e < str_rank s" if "e \<in> set (take i es)" for e
      using that assms(3) by (auto simp: gap_at_def in_set_conv_nth)
    moreover have "str_rank s < rank_of e" if "e \<in> set (drop i es)" for e
      using that assms(3) by (auto simp: gap_at_def in_set_conv_nth)
    ultimately show ?thesis unfolding list_ins_split map_append sorted_wrt_append by auto
  qed
  then show ?thesis using assms wf_new [OF assms(6), of v] by auto
qed

lemma insert_map:
  assumes "wf_tree (TLeaf p es) lo hi" "gap_at es i s"
  shows "first_of (map slot_map (list_ins i (new_slot s v) es)) = (first_of (map slot_map es))(s \<mapsto> v)"
proof
  fix x
  have n: "first_of (map slot_map es) s = None"
    by (rule leaf_map_none [OF assms(1)]) (use assms(2) in \<open>metis gap_at_def less_irrefl not_le\<close>)
  have "first_of (map slot_map es) x = first_of (map slot_map (take i es) @ map slot_map (drop i es)) x"
    by (metis append_take_drop_id map_append)
  moreover have "first_of (map slot_map (take i es)) s = None" "first_of (map slot_map (drop i es)) s = None"
    using n by (auto simp: first_of_none dest: in_set_takeD in_set_dropD)
  ultimately show "first_of (map slot_map (list_ins i (new_slot s v) es)) x = ((first_of (map slot_map es))(s \<mapsto> v)) x"
    by (auto simp: list_ins_split first_of_append slot_map_new split: option.splits)
qed

lemma leaf_find_gap:
  assumes "leaf_ok l" "leaf_view l = map slot_view es" "wf_tree (TLeaf p es) lo hi" "key_wf k"
    "kx_p (leaf_lower k l) = -1"
  shows "gap_at es (nat (kx_i (leaf_lower k l))) (key_str k) \<and> 0 \<le> kx_i (leaf_lower k l)"
  using leaf_find [OF assms(1-4)] assms(5) by (auto simp: gap_at_def le_less)

lemma insert_addrs: "concat (map slot_addrs (list_ins i (new_slot s v) es)) = concat (map slot_addrs es)"
proof -
  have "concat (map slot_addrs (take i es)) @ concat (map slot_addrs (drop i es)) = concat (map slot_addrs es)"
    by (metis append_take_drop_id concat_append map_append)
  then show ?thesis by (simp add: list_ins_split new_slot.simps)
qed

text \<open>Making the assigned slot visible.\<close>

lemma leaf_publish:
  assumes l: "leaf_ok l'" "leaf_size l' < width" "i \<le> leaf_size l'" "p = perm_back width (l_permutation l')"
    and hk: "leaf_has_ksuf l' p \<longrightarrow> leaf_bag l' \<noteq> None" and m: "m \<noteq> modstate_deleted_layer"
    and l3: "l3 = l'\<lparr>l_permutation := fst (insert_from_back width (l_permutation l') i), l_version := v, l_modstate := m\<rparr>"
  shows "leaf_ok l3" "leaf_view l3 = list_ins i (slot_of l' p) (leaf_view l')"
proof -
  have w: "perm_wf width (l_permutation l')" using l(1) by (simp add: leaf_ok_def)
  have sz: "perm_size (l_permutation l') < width" "i \<le> perm_size (l_permutation l')" "i < width"
    using l(2,3) by (simp_all add: leaf_size_def)
  have w3: "perm_wf width (l_permutation l3)" using perm_wf_insert_from_back [OF w sz(3,1)] sz l3 by simp
  have s3: "leaf_slots l3 = list_ins i p (leaf_slots l')"
    unfolding leaf_slots_live [OF w3] leaf_slots_live [OF w] using live_insert_from_back(1) [OF w sz(1,2)] l3 l(4) by simp
  have x: "leaf_has_ksuf l3 = leaf_has_ksuf l'" "leaf_bag l3 = leaf_bag l'" "leaf_ksuf l3 = leaf_ksuf l'"
    by (auto simp: l3 leaf_has_ksuf_def leaf_bag_def leaf_ksuf_def fun_eq_iff split: option.splits)
  have so: "slot_of l3 = slot_of l'" by (rule ext) (simp add: slot_of_def x, simp add: l3)
  show "leaf_view l3 = list_ins i (slot_of l' p) (leaf_view l')" unfolding leaf_view_def so s3 by (rule map_list_ins)
  have b: "bags_ok l3" using l(1) by (auto simp: leaf_ok_bags bags_ok_def l3 split: option.splits)
  show "leaf_ok l3" unfolding leaf_ok_bags x s3 using l(1) w3 b hk m by (auto simp: leaf_ok_bags l3)
qed

end
