(* ===== verification/MT_Put.thy ===== *)
theory MT_Put
  imports MT_Insert MT_Leaf_Ops
begin

text \<open>
  Insertion is right when the leaf has room: \<open>put\<close> on a table at rest ends with a table at rest
  whose map is updated at the key, when the key was there or takes a free slot; a key that
  needs a new layer is the subject of the next theory.
\<close>

section \<open>Starting an operation\<close>

lemma table_ok_root [simp]: "table_ok (w\<lparr>mt_root := r\<rparr>) t = table_ok w t"
  by (simp add: table_ok_def at_rest_def node_rep_def quiet_def)

lemma tcursor_make_ok:
  assumes "table_rep w T"
  shows "\<exists>r. tcursor_make w s = Some (w\<lparr>mt_root := r\<rparr>, tcursor_at r s) \<and> r \<in> set (layer_addrs T)"
proof -
  have T: "at_rest w True 0 T" "mt_root w \<in> set (layer_addrs T)" using assms by (simp_all add: table_rep_def)
  from layer_parent [OF T] obtain b q where q: "node_is_root w (mt_root w) = Some b"
    "maybe_parent w (mt_root w) = Some q" "q \<in> set (layer_addrs T)" by auto
  let ?r = "if b then mt_root w else q"
  have "fix_root w = Some (w\<lparr>mt_root := ?r\<rparr>, ?r)"
    using q by (cases b) (simp_all add: fix_root_def Let_def)
  then have "tcursor_make w s = Some (w\<lparr>mt_root := ?r\<rparr>, tcursor_at ?r s)" by (simp add: tcursor_make_def)
  moreover have "?r \<in> set (layer_addrs T)" using q T by simp
  ultimately show ?thesis by blast
qed

lemma tcursor_at_key: "key_wf (tc_ka (tcursor_at r s))" "key_str (tc_ka (tcursor_at r s)) = s" "tc_root (tcursor_at r s) = r"
  using key_make_wf [of "int (length s)" 0 s] by (simp_all add: tcursor_at_def)

text \<open>Every operation with a locked cursor starts like this.\<close>

lemma operation_start:
  assumes "table_rep w T"
  shows "\<exists>w0 c0 w1 T1 w' c u s' es l. tcursor_make w s = Some (w0, c0) \<and> find_locked w0 c0 = Some (w', c) \<and>
    located w1 T1 s w' c u s' es l \<and> tree_map T1 = tree_map T \<and> mt_root w1 \<in> set (layer_addrs T1) \<and>
    tc_n c \<in> set (addrs T) \<and> map_option leaf_frame (ld_leaf w' (tc_n c)) = map_option leaf_frame (ld_leaf w (tc_n c))"
proof -
  obtain r where r: "tcursor_make w s = Some (w\<lparr>mt_root := r\<rparr>, tcursor_at r s)" "r \<in> set (layer_addrs T)"
    using tcursor_make_ok [OF assms] by blast
  have ok: "table_ok (w\<lparr>mt_root := r\<rparr>) T" using assms by (simp add: table_rep_ok)
  from find_locked_at [OF ok sub_layer.Here [of T s] r(2) tcursor_at_key(1,2) [of r s]] obtain n v w1 T1 w' c u s' es l where
    f: "reach_leaf (w\<lparr>mt_root := r\<rparr>) r (tc_ka (tcursor_at r s)) = Some (n, v)"
      "find_locked_forward (w\<lparr>mt_root := r\<rparr>) r ((tcursor_at r s)\<lparr>tc_n := n\<rparr>) v = Some (w', c)"
      "same_table (w\<lparr>mt_root := r\<rparr>) T w1 T1" "located w1 T1 s w' c u s' es l" by blast
  have "find_locked (w\<lparr>mt_root := r\<rparr>) (tcursor_at r s) = Some (w', c)"
    using f(1,2) by (simp add: find_locked_def tcursor_at_key)
  moreover have "mt_root w1 = r" using f(3) unfolding same_table_def by (metis mt.select_convs(3) mt.surjective mt.update_convs(1,3))
  moreover have "tree_map T1 = tree_map T" "r \<in> set (layer_addrs T1)" using f(3) r(2) by (auto simp: same_table_def grows_def)
  moreover have "tc_n c \<in> set (addrs T)"
  proof -
    have T1: "table_ok w1 T1" "sub_layer T1 s u s'" "descend u (ikey_of s') = TLeaf (tc_n c) es"
      using f(4) by (simp_all add: located_def)
    then have t: "at_rest w1 True 0 T1" "wf_tree T1 0 top" "distinct (addrs T1)" by (simp_all add: table_ok_def)
    from sub_layer_at_rest [OF T1(2) t] have u: "at_rest w1 True 0 u" "wf_tree u 0 top" "set (addrs u) \<subseteq> set (addrs T1)" by blast+
    from descend_sub [OF u(1,2) le0 unat_top T1(3)] have "tc_n c \<in> set (addrs u)" by auto
    with u(3) f(3) show ?thesis by (auto simp: same_table_def grows_def)
  qed
  moreover have "map_option leaf_frame (ld_leaf w' (tc_n c)) = map_option leaf_frame (ld_leaf w (tc_n c))"
  proof -
    have w': "mt_heap w1 (tc_n c) = Some (Leaf l)" "w' = st_leaf w1 (tc_n c) (l\<lparr>l_version := l_version l OR lock_bit NP\<rparr>)"
      using f(4) by (simp_all add: located_def)
    then have "map_option leaf_frame (ld_leaf w' (tc_n c)) = map_option leaf_frame (ld_leaf w1 (tc_n c))"
      by (simp add: ld_leaf_def st_leaf_def st_node_def leaf_frame_def)
    also have "\<dots> = map_option leaf_frame (ld_leaf (w\<lparr>mt_root := r\<rparr>) (tc_n c))"
      using f(3) unfolding same_table_def by metis
    also have "\<dots> = map_option leaf_frame (ld_leaf w (tc_n c))" by (simp add: ld_leaf_def)
    finally show ?thesis .
  qed
  ultimately show ?thesis using r(1) f(4) by blast
qed

section \<open>Versions after an insertion\<close>

lemma unlock_shape:
  assumes "ver_shape a b v" "x = v OR lock_bit NP \<or> x = nv_mark_insert NP (v OR lock_bit NP)" "ver_clean v"
  shows "ver_shape a b (nv_unlock NP x)" "ver_clean (nv_unlock NP x)"
proof -
  have v: "ver_ok 0 v" using assms(1) by (simp add: ver_shape_def)
  have i: "nv_mark_insert NP (v OR lock_bit NP) \<in> nv_marks NP (v OR lock_bit NP)" by (simp add: nv_marks_def)
  have x: "ver_ok 0 x" using assms(2) nv32.lock_effect(1) [OF v] nv32.mark_effect(1) [OF i] by auto
  have bits: "bit x k = bit v k" if "2 \<le> k" for k
    using assms(2) that
    by (auto simp: nv_mark_insert_def nv32.inserting_bit bit_bitw NP_lock bit_or_iff bit_1_iff)
  have "\<not> bit v 2" using assms(3) nv32.dirty_iff [of v] by (auto simp: ver_clean_def numeral_2_eq_2)
  then have s: "\<not> nv_splitting NP x" using bits [of 2] by (simp add: nv32.test_simps numeral_2_eq_2)
  have t: "nv_isleaf NP x = nv_isleaf NP v" "nv_is_root NP x = nv_is_root NP v" "nv_deleted NP x = nv_deleted NP v"
    by (simp_all add: nv32.test_simps bits)
  note u = nv32.unlock_effect [OF x]
  show "ver_shape a b (nv_unlock NP x)" using assms(1) u s t by (auto simp: ver_shape_def)
  show "ver_clean (nv_unlock NP x)" using u by (simp add: ver_clean_def)
qed

section \<open>Overwriting a value\<close>

lemma ld_st_leaf [simp]: "ld_leaf (st_leaf w p l) p = Some l"
  by (simp add: ld_leaf_def st_leaf_def st_node_def)

lemma st_st_leaf [simp]: "st_leaf (st_leaf w p l) p l' = st_leaf w p l'"
  by (simp add: st_leaf_def st_node_def)

lemma unlock_st_leaf:
  "node_unlock (st_leaf w p l) p = Some (st_leaf w p (l\<lparr>l_version := nv_unlock NP (l_version l)\<rparr>))"
  by (simp add: node_unlock_def upd_version_def st_leaf_def st_node_def)

lemma st_leaf_fields [simp]: "mt_next (st_leaf w p l) = mt_next w" "mt_root (st_leaf w p l) = mt_root w"
  "mt_heap (st_leaf w p l) = (mt_heap w)(p \<mapsto> Leaf l)"
  by (simp_all add: st_leaf_def st_node_def)

text \<open>What the located leaf holds.\<close>

lemma located_leaf:
  assumes "located w T S w' c u s es l"
  obtains root par lo hi where "at_rest w root par (TLeaf (tc_n c) es)" "wf_tree (TLeaf (tc_n c) es) lo hi"
    "lo \<le> unat (ikey_of s)" "unat (ikey_of s) < hi" "ver_shape True root (l_version l)" "ver_clean (l_version l)"
    "leaf_ok l" "leaf_view l = map slot_view es" "distinct (addrs (TLeaf (tc_n c) es))"
    "tree_map T S = first_of (map slot_map es) s"
proof -
  have T: "table_ok w T" "sub_layer T S u s" "descend u (ikey_of s) = TLeaf (tc_n c) es" "mt_heap w (tc_n c) = Some (Leaf l)"
    using assms by (simp_all add: located_def)
  then have t: "at_rest w True 0 T" "wf_tree T 0 top" "distinct (addrs T)" by (simp_all add: table_ok_def)
  from sub_layer_at_rest [OF T(2) t] have u: "at_rest w True 0 u" "wf_tree u 0 top" "distinct (addrs u)" by blast+
  from descend_sub [OF u(1,2) le0 unat_top T(3)] u(3) obtain root par lo hi where
    d: "at_rest w root par (TLeaf (tc_n c) es)" "wf_tree (TLeaf (tc_n c) es) lo hi"
      "lo \<le> unat (ikey_of s)" "unat (ikey_of s) < hi" "tree_map u s = first_of (map slot_map es) s"
      "distinct (addrs (TLeaf (tc_n c) es))" by blast
  from leaf_at [OF d(1,2)] T(4) have l: "ver_shape True root (l_version l)" "ver_clean (l_version l)"
    "leaf_ok l" "leaf_view l = map slot_view es" by auto
  show thesis by (rule that [OF d(1-4) l d(6)]) (use d(5) sub_layer_map [OF T(2) t(2)] in simp)
qed

text \<open>The end of an operation that changed only the slots of the located leaf.\<close>

lemma located_store:
  assumes loc: "located w T S w' c u s es l"
    and v: "ver_clean (l_version l')" "\<And>root. ver_shape True root (l_version l) \<Longrightarrow> ver_shape True root (l_version l')"
    and l': "l_parent l' = l_parent l" "leaf_ok l'" "leaf_view l' = map slot_view es'"
    and layers: "\<And>i r t. SLayer i r t \<in> set es' \<Longrightarrow> \<exists>i r. SLayer i r t \<in> set es"
    and addrs: "concat (map slot_addrs es') = concat (map slot_addrs es)"
    and wf: "\<And>lo hi. lo \<le> unat (ikey_of s) \<Longrightarrow> unat (ikey_of s) < hi \<Longrightarrow> wf_tree (TLeaf (tc_n c) es) lo hi \<Longrightarrow>
      wf_tree (TLeaf (tc_n c) es') lo hi"
    and m: "first_of (map slot_map es') = (first_of (map slot_map es))(s := y)"
  shows "\<exists>T'. table_ok (st_leaf w (tc_n c) l') T' \<and> grows T {} T' \<and> tree_map T' = (tree_map T)(S := y)"
proof -
  have T: "table_ok w T" "sub_layer T S u s" "descend u (ikey_of s) = TLeaf (tc_n c) es" "mt_heap w (tc_n c) = Some (Leaf l)"
    using loc by (simp_all add: located_def)
  obtain root par where d: "distinct (addrs (TLeaf (tc_n c) es))" using located_leaf [OF loc] by metis
  then have n: "tc_n c \<notin> set (concat (map slot_addrs es))" by simp
  have rest: "at_rest (st_leaf w (tc_n c) l') root par (TLeaf (tc_n c) es')" if "at_rest w root par (TLeaf (tc_n c) es)" for root par
    by (rule leaf_store [OF that n _ _ T(4) v l' layers]) simp_all
  have c: "changes w (st_leaf w (tc_n c) l') (set (addrs (TLeaf (tc_n c) es)) \<union> {})" by (simp add: changes_def)
  have d': "distinct (addrs (TLeaf (tc_n c) es'))" "set (addrs (TLeaf (tc_n c) es')) \<subseteq> set (addrs (TLeaf (tc_n c) es)) \<union> {}"
    using d addrs by simp_all
  have "\<exists>T' u'. table_ok (st_leaf w (tc_n c) l') T' \<and> grows T {} T' \<and> tree_map T' = (tree_map T)(S := y) \<and>
      sub_layer T' S u' s \<and> descend u' (ikey_of s) = TLeaf (tc_n c) es'"
    by (rule leaf_update [OF T(1,2,3) _ c rest wf d' m]) auto
  then show ?thesis by blast
qed

lemma slot_matches_unique: "slot_matches a b suf s \<Longrightarrow> slot_matches a b suf x \<longleftrightarrow> x = s"
  using long_string_eq [of x s] short_string_eq [of x s] by (auto simp: slot_matches_def split: if_splits)

text \<open>The slot the cursor found.\<close>

lemma located_slot:
  assumes loc: "located w T S w' c u s es l" and p: "0 \<le> kx_p (tc_kx c)"
  obtains i a b suf x where "i < length es" "es ! i = SVal a b suf x" "kx_p (tc_kx c) = int (perm_get (l_permutation l) i)"
    "rank_of (es ! i) = str_rank s" "kx_i (tc_kx c) = int i"
    "tc_state c = (if slot_matches a b suf s then 1 else 0)"
proof -
  obtain root par lo hi where l: "wf_tree (TLeaf (tc_n c) es) lo hi" "leaf_ok l" "leaf_view l = map slot_view es"
    using located_leaf [OF loc] by metis
  have "if kx_p (tc_kx c) \<ge> 0 then leaf_ksuf_matches l (nat (kx_p (tc_kx c))) (tc_ka c) = Some (tc_state c)
      else tc_state c = 0" using loc unfolding located_def by blast
  then have "leaf_ksuf_matches l (nat (kx_p (tc_kx c))) (tc_ka c) = Some (tc_state c)" by (simp only: p if_True)
  then have k: "key_wf (tc_ka c)" "key_str (tc_ka c) = s" "tc_kx c = leaf_lower (tc_ka c) l" "0 \<le> tc_state c"
    "leaf_ksuf_matches l (nat (kx_p (tc_kx c))) (tc_ka c) = Some (tc_state c)"
    using loc unfolding located_def by blast+
  obtain i where i: "i < length es" "kx_p (tc_kx c) = int (perm_get (l_permutation l) i)" "kx_i (tc_kx c) = int i"
    "rank_of (es ! i) = str_rank s" using leaf_find [OF l(2,3,1) k(1)] k(2,3) p by auto
  have ws: "wf_slot (es ! i)" using l(1) i(1) by simp
  note m = ksuf_matches_at [OF l(2,3) k(1) i(1) ws i(4) [folded k(2)]]
  show thesis
  proof (cases "es ! i")
    case (SVal a b suf x)
    then show ?thesis using that [OF i(1) SVal i(2,4,3)] m(1) [OF SVal] k(2,5) i(2) by (auto split: if_splits)
  next
    case (SLayer a r t)
    with m(2) [OF SLayer] k(4,5) i(2) show ?thesis by simp
  qed
qed

definition put_ok :: "'v mt \<Rightarrow> bytes \<Rightarrow> 'v \<Rightarrow> 'v mt \<Rightarrow> 'v tree \<Rightarrow> bool" where
  "put_ok w s v w1 T \<longleftrightarrow> (\<exists>w' T'. mt_put w s v = Some (w', tree_map T s \<noteq> None) \<and> table_ok w' T' \<and>
     set (layer_addrs T) \<subseteq> set (layer_addrs T') \<and> mt_root w' = mt_root w1 \<and> tree_map T' = (tree_map T)(s \<mapsto> v))"

lemma put_found:
  assumes start: "tcursor_make w S = Some (w0, c0)" "find_locked w0 c0 = Some (w', c)"
    and loc: "located w1 T S w' c u s es l" and st: "tc_state c \<noteq> 0"
  shows "put_ok w S v w1 T"
proof -
  have p: "0 \<le> kx_p (tc_kx c)" using loc st by (auto simp: located_def split: if_splits)
  from located_slot [OF loc p] obtain i a b suf x where i: "i < length es" "es ! i = SVal a b suf x"
    "kx_p (tc_kx c) = int (perm_get (l_permutation l) i)" "rank_of (es ! i) = str_rank s"
    "tc_state c = 1" "slot_matches a b suf s" using st by (metis (full_types))
  from located_leaf [OF loc] obtain root par lo hi where l: "wf_tree (TLeaf (tc_n c) es) lo hi"
    "ver_shape True root (l_version l)" "ver_clean (l_version l)" "leaf_ok l" "leaf_view l = map slot_view es"
    "tree_map T S = first_of (map slot_map es) s" by metis
  let ?q = "perm_get (l_permutation l) i"
  let ?l = "l\<lparr>l_lv := (l_lv l)[?q := LV_value v]\<rparr>"
  let ?w = "st_leaf w1 (tc_n c) ?l"
  have w': "w' = st_leaf w1 (tc_n c) (l\<lparr>l_version := l_version l OR lock_bit NP\<rparr>)" using loc by (simp add: located_def)
  have ul: "nv_unlock NP (l_version l OR lock_bit NP) = l_version l"
    using l(2,3) by (intro unlock_unchanged) (simp_all add: ver_shape_def)
  have put: "mt_put w S v = Some (?w, True)"
    using start st i(3,5) by (simp add: mt_put_def find_insert_def w' tc_set_value_def tc_finish_def unlock_st_leaf ul Let_def)
  let ?as = "take i es" let ?bs = "drop (Suc i) es"
  let ?e = "SVal a b suf x" let ?e' = "SVal a b suf v"
  have es: "es = ?as @ ?e # ?bs" "length ?as = i" using id_take_nth_drop [OF i(1)] i(1,2) by simp_all
  have l': "leaf_ok ?l" "leaf_view ?l = map slot_view (?as @ ?e' # ?bs)"
    using leaf_set_lv [OF l(4) trans [OF l(5) arg_cong [OF es(1), of "map slot_view"]], of ?q ?e' "LV_value v" "l_version l"] es(2) by simp_all
  have wfe: "wf_tree (TLeaf (tc_n c) (?as @ ?e # ?bs)) lo hi" if "wf_tree (TLeaf (tc_n c) es) lo hi" for lo hi
    using that es(1) by metis
  have ws: "wf_slot ?e'" using l(1) i(1,2) by (metis (no_types, lifting) nth_mem wf_slot.simps(1) wf_tree.simps(2) list.set_map image_eqI)
  have rk: "rank_of ?e' = rank_of ?e" "rank_of ?e = str_rank s" using i(2,4) by (simp_all add: rank_of_def)
  have "slot_map ?e' = (slot_map ?e)(s \<mapsto> v)" using slot_matches_unique [OF i(6)] by (auto simp: fun_eq_iff)
  then have m: "first_of (map slot_map (?as @ ?e' # ?bs)) = (first_of (map slot_map es))(s \<mapsto> v)"
    using replace_map [OF wfe [OF l(1)] rk(1) ws rk(2)] es(1) by metis
  have "\<exists>T'. table_ok ?w T' \<and> grows T {} T' \<and> tree_map T' = (tree_map T)(S \<mapsto> v)"
  proof (rule located_store [OF loc _ _ _ l' _ _ _ m])
    show "ver_clean (l_version ?l)" using l(3) by simp
    show "\<exists>i r. SLayer i r t \<in> set es" if "SLayer j r t \<in> set (?as @ ?e' # ?bs)" for j r t
      using that by (auto dest: in_set_takeD in_set_dropD)
    show "concat (map slot_addrs (?as @ ?e' # ?bs)) = concat (map slot_addrs es)"
      by (subst (3) es(1)) simp
    show "wf_tree (TLeaf (tc_n c) (?as @ ?e' # ?bs)) lo hi" if "wf_tree (TLeaf (tc_n c) es) lo hi" for lo hi
      by (rule replace_wf [OF wfe [OF that] rk(1) ws])
  qed simp_all
  moreover have "tree_map T S = Some x"
  proof -
    have "first_of (map slot_map es) s = slot_map (es ! i) s" using leaf_map_at [OF l(1) i(1,4)] .
    with l(6) i(2,6) show ?thesis by simp
  qed
  ultimately show ?thesis using put by (auto simp: put_ok_def grows_def)
qed

section \<open>Inserting into a leaf with room\<close>

lemma view_ksufs_bounded:
  assumes "leaf_ok l" "leaf_view l = map slot_view es" "wf_tree (TLeaf p es) lo hi"
  shows "ksufs_bounded l"
  unfolding ksufs_bounded_def
proof (intro ballI impI)
  fix q assume q: "q \<in> set (leaf_slots l)" "leaf_has_ksuf l q"
  then obtain i where i: "i < leaf_size l" "q = perm_get (l_permutation l) i" by (auto simp: leaf_slots_def)
  then have i': "i < length es" using leaf_view_nth(1) [OF assms(1,2)] by simp
  have s: "slot_of l q = slot_view (es ! i)" using leaf_view_nth(2) [OF assms(1,2) i'] i(2) by simp
  have "wf_slot (es ! i)" using assms(3) i' by simp
  then show "length (the (leaf_ksuf l q)) \<le> max_ksuf"
    using s q(2) by (cases "es ! i") (auto simp: slot_of_def)
qed

text \<open>The located leaf after the first changes of an insertion: its version, its state and the
  order of its free slots.\<close>

lemma put_insert_leaf:
  assumes start: "tcursor_make w S = Some (w0, c0)"
    and find: "find_insert w0 c0 = Some (st_leaf w1 (tc_n c) l2, c2, False)"
    and loc: "located w1 T S w' c u s es l" and none: "kx_p (tc_kx c) < 0"
    and c2: "tc_n c2 = tc_n c" "tc_kx c2 = \<lparr>kx_i = kx_i (tc_kx c), kx_p = int p\<rparr>" "tc_state c2 = 2"
    and l1: "l1 = l\<lparr>l_version := x, l_modstate := modstate_insert, l_permutation := P\<rparr>"
      "x = l_version l OR lock_bit NP \<or> x = nv_mark_insert NP (l_version l OR lock_bit NP)"
    and P: "perm_wf width P" "live width P = live width (l_permutation l)" "perm_size P = leaf_size l"
      "leaf_size l < width" "p = perm_back width P"
    and l2: "leaf_assign l1 p (tc_ka c) = Some l2" and len: "length (drop 8 s) \<le> max_ksuf"
  shows "put_ok w S v w1 T"
proof -
  obtain root par lo hi where l: "wf_tree (TLeaf (tc_n c) es) lo hi" "lo \<le> unat (ikey_of s)" "unat (ikey_of s) < hi"
    "ver_shape True root (l_version l)" "ver_clean (l_version l)" "leaf_ok l" "leaf_view l = map slot_view es"
    "tree_map T S = first_of (map slot_map es) s" using located_leaf [OF loc] by metis
  have k: "key_wf (tc_ka c)" "key_str (tc_ka c) = s" "tc_kx c = leaf_lower (tc_ka c) l"
    using loc unfolding located_def by blast+
  have "kx_p (leaf_lower (tc_ka c) l) = -1" using leaf_find [OF l(6,7,1) k(1)] none k(3) by (auto split: if_splits)
  from leaf_find_gap [OF l(6,7,1) k(1) this] have gap: "gap_at es (nat (kx_i (tc_kx c))) s" unfolding k(2,3) by simp
  let ?i = "nat (kx_i (tc_kx c))"
  have n: "leaf_size l = length es" using leaf_view_nth(1) [OF l(6,7)] .
  have w0: "perm_wf width (l_permutation l)" using l(6) by (simp add: leaf_ok_def)
  have sl1: "leaf_slots l1 = leaf_slots l"
    using leaf_slots_live [of l1] leaf_slots_live [OF w0] P(1,2) by (simp add: l1)
  have same1: "leaf_has_ksuf l1 = leaf_has_ksuf l" "leaf_bag l1 = leaf_bag l" "leaf_ksuf l1 = leaf_ksuf l"
    by (auto simp: l1 leaf_has_ksuf_def leaf_bag_def leaf_ksuf_def fun_eq_iff split: option.splits)
  have so1: "slot_of l1 = slot_of l" by (rule ext) (simp add: slot_of_def same1, simp add: l1)
  have b1: "bags_ok l1" using l(6) by (auto simp: leaf_ok_bags bags_ok_def l1 split: option.splits)
  have ok1: "leaf_ok l1" unfolding leaf_ok_bags sl1 same1 using l(6) P(1) b1 by (simp add: leaf_ok_bags l1)
  have kb: "ksufs_bounded l1"
    using view_ksufs_bounded [OF l(6,7,1)] unfolding ksufs_bounded_def sl1 same1 .
  have pf: "p < width" "p \<notin> set (leaf_slots l1)"
  proof -
    have f: "free width P \<noteq> []" using P(1,3,4) free_Nil [of width P] by simp
    have "p = snd (insert_from_back width P 0)" using P(5) by (simp add: insert_from_back_def Let_def)
    then show "p < width" "p \<notin> set (leaf_slots l1)"
      using kp.alloc_fresh(1,2) [OF P(1) f, of 0] leaf_slots_live [of l1] P(1) by (simp_all add: l1)
  qed
  from leaf_assign_ok [OF ok1 kb pf k(1)] len k(2) l2 have a: "leaf_ok l2" "l_version l2 = x" "l_permutation l2 = P"
    "l_modstate l2 = modstate_insert" "l_parent l2 = l_parent l"
    "\<forall>q \<in> set (leaf_slots l). slot_of l2 q = slot_of l q" "leaf_has_ksuf l2 p \<longrightarrow> leaf_bag l2 \<noteq> None"
    "leaf_ok (l2\<lparr>l_lv := (l_lv l2)[p := LV_value v]\<rparr>)"
    "slot_of (l2\<lparr>l_lv := (l_lv l2)[p := LV_value v]\<rparr>) p = slot_view (new_slot s v)"
    by (simp_all add: sl1 so1) (simp_all add: l1)
  let ?l' = "l2\<lparr>l_lv := (l_lv l2)[p := LV_value v]\<rparr>"
  let ?l3 = "?l'\<lparr>l_permutation := fst (insert_from_back width (l_permutation ?l') ?i), l_version := nv_unlock NP x, l_modstate := modstate_insert\<rparr>"
  have sl': "leaf_slots ?l' = leaf_slots l"
    using sl1 a(3) by (simp add: leaf_slots_def leaf_size_def l1)
  have hk': "leaf_has_ksuf ?l' p \<longrightarrow> leaf_bag ?l' \<noteq> None"
    using a(7) by (auto simp: leaf_has_ksuf_def leaf_bag_def split: option.splits)
  have view': "leaf_view ?l' = map slot_view es"
  proof -
    have "slot_of ?l' q = slot_of l q" if q: "q \<in> set (leaf_slots l)" for q
    proof -
      have "q \<noteq> p" using q pf(2) sl1 by auto
      have "slot_of ?l' q = slot_of l2 q"
        using \<open>q \<noteq> p\<close> by (auto simp: slot_of_def leaf_has_ksuf_def leaf_ksuf_def leaf_bag_def split: option.splits)
      with a(6) q show ?thesis by simp
    qed
    then show ?thesis unfolding leaf_view_def sl' l(7) [symmetric, unfolded leaf_view_def] by simp
  qed
  have i: "?i \<le> leaf_size ?l'" "leaf_size ?l' < width" "p = perm_back width (l_permutation ?l')"
    using gap n P(3-5) a(3) by (simp_all add: gap_at_def leaf_size_def)
  have md: "modstate_insert \<noteq> modstate_deleted_layer" by simp
  note pub = leaf_publish [OF a(8) i(2,1,3) hk' md refl [of ?l3]]
  have view3: "leaf_view ?l3 = map slot_view (list_ins ?i (new_slot s v) es)"
    unfolding pub(2) a(9) view' by (simp add: map_list_ins)
  have put: "mt_put w S v = Some (st_leaf w1 (tc_n c) ?l3, False)"
  proof -
    have e: "?l3 = ?l'\<lparr>l_permutation := fst (insert_from_back width P ?i), l_version := nv_unlock NP x\<rparr>"
      using a(3,4) by simp
    show ?thesis unfolding e
      using start find c2 P(5) a(2,3)
      by (simp add: mt_put_def tc_set_value_def tc_finish_def finish_insert_def unlock_st_leaf Let_def)
  qed
  have "\<exists>T'. table_ok (st_leaf w1 (tc_n c) ?l3) T' \<and> grows T {} T' \<and> tree_map T' = (tree_map T)(S := Some v)"
  proof (rule located_store [OF loc _ _ _ pub(1) view3 _ insert_addrs _ insert_map [OF l(1) gap]])
    show "ver_clean (l_version ?l3)" using unlock_shape(2) [OF l(4) l1(2) l(5)] by simp
    show "ver_shape True root (l_version ?l3)" if "ver_shape True root (l_version l)" for root
      using unlock_shape(1) [OF that l1(2) l(5)] by simp
    show "l_parent ?l3 = l_parent l" using a(5) by simp
    show "\<exists>i r. SLayer i r t \<in> set es" if "SLayer j r t \<in> set (list_ins ?i (new_slot s v) es)" for j r t
      using that by (auto simp: new_slot.simps)
    show "wf_tree (TLeaf (tc_n c) (list_ins ?i (new_slot s v) es)) lo hi"
      if "lo \<le> unat (ikey_of s)" "unat (ikey_of s) < hi" "wf_tree (TLeaf (tc_n c) es) lo hi" for lo hi
      by (rule insert_wf [OF that(3) _ gap that(1,2) len]) (use n P(4) in simp)
  qed
  moreover have "tree_map T S = None"
    unfolding l(8) by (rule leaf_map_none [OF l(1)]) (use gap in \<open>metis gap_at_def less_irrefl not_le\<close>)
  ultimately show ?thesis using put by (auto simp: put_ok_def grows_def)
qed

lemma set_insert_state:
  "leaf_set_insert_state (l\<lparr>l_version := l_version l OR lock_bit NP\<rparr>) =
     l\<lparr>l_version := (if l_modstate l \<noteq> modstate_insert then nv_mark_insert NP (l_version l OR lock_bit NP)
                   else l_version l OR lock_bit NP),
       l_modstate := modstate_insert, l_permutation := l_permutation l\<rparr>"
  by (cases "l_modstate l = modstate_insert") (simp_all add: leaf_set_insert_state_def)

text \<open>The free slot at the back may be slot 0, which must keep its slice; then \<open>make_split\<close>
  first brings another free slot to the back.\<close>

lemma exchange_free:
  assumes w: "perm_wf width P" and n: "perm_size P < width - 1" and b: "perm_back width P = 0"
  shows "perm_wf width (exchange P (perm_size P) (width - 1))"
    "live width (exchange P (perm_size P) (width - 1)) = live width P"
    "perm_size (exchange P (perm_size P) (width - 1)) = perm_size P"
    "perm_back width (exchange P (perm_size P) (width - 1)) \<noteq> 0"
proof -
  let ?n = "perm_size P" let ?Q = "exchange P ?n (width - 1)"
  have W: "?n < width" "width - 1 < width" "width \<le> 15" using n by (simp_all add: width_def)
  show sz: "perm_size ?Q = ?n" by (rule perm_size_exchange)
  note pl = plist_exchange [OF W]
  show "perm_wf width ?Q" using w W by (intro perm_wf_exchange) auto
  show "live width ?Q = live width P" unfolding live_def sz pl using n by simp
  have "perm_back width ?Q = plist width ?Q ! (width - 1)" by (simp add: perm_back_def width_def)
  also have "\<dots> = perm_get P ?n" unfolding pl using n by (simp add: width_def)
  finally have "perm_back width ?Q = perm_get P ?n" .
  moreover have "perm_get P ?n \<noteq> perm_get P (width - 1)"
  proof
    assume "perm_get P ?n = perm_get P (width - 1)"
    then have "plist width P ! ?n = plist width P ! (width - 1)" using W by simp
    moreover have "distinct (plist width P)" using w by (simp add: perm_wf_def)
    ultimately have "?n = width - 1" using W by (metis length_plist nth_eq_iff_index_eq)
    with n show False by simp
  qed
  ultimately show "perm_back width ?Q \<noteq> 0" using b by (simp add: perm_back_def)
qed

lemma put_room:
  assumes start: "tcursor_make w S = Some (w0, c0)" "find_locked w0 c0 = Some (w', c)"
    and loc: "located w1 T S w' c u s es l" and none: "kx_p (tc_kx c) < 0"
    and len: "length (drop 8 s) \<le> max_ksuf"
    and room: "length es < width - 1"
  shows "put_ok w S v w1 T"
proof -
  obtain root par lo hi where l: "wf_tree (TLeaf (tc_n c) es) lo hi" "leaf_ok l" "leaf_view l = map slot_view es"
    using located_leaf [OF loc] by metis
  have w': "w' = st_leaf w1 (tc_n c) (l\<lparr>l_version := l_version l OR lock_bit NP\<rparr>)" using loc by (simp add: located_def)
  have k: "key_wf (tc_ka c)" "key_str (tc_ka c) = s" "tc_state c = 0"
    using loc none unfolding located_def by auto
  have n: "leaf_size l = length es" using leaf_view_nth(1) [OF l(2,3)] .
  have lw: "length es < width" using room by simp
  have wp: "perm_wf width (l_permutation l)" using l(2) by (simp add: leaf_ok_def)
  let ?x = "if l_modstate l \<noteq> modstate_insert then nv_mark_insert NP (l_version l OR lock_bit NP) else l_version l OR lock_bit NP"
  have x: "?x = l_version l OR lock_bit NP \<or> ?x = nv_mark_insert NP (l_version l OR lock_bit NP)" by auto
  let ?kp = "perm_back width (l_permutation l)"
  let ?c1 = "c\<lparr>tc_original_n := tc_n c,
      tc_original_v := leaf_full_unlocked_version_value (l\<lparr>l_version := l_version l OR lock_bit NP\<rparr>), tc_state := 2\<rparr>"
  let ?l0 = "l\<lparr>l_version := ?x, l_modstate := modstate_insert, l_permutation := l_permutation l\<rparr>"
  have assign: "\<exists>l2. leaf_assign (l\<lparr>l_version := ?x, l_modstate := modstate_insert, l_permutation := P\<rparr>) p (tc_ka c) = Some l2"
    if P: "perm_wf width P" "live width P = live width (l_permutation l)" "perm_size P = leaf_size l" "p = perm_back width P" for P p
  proof -
    let ?l1 = "l\<lparr>l_version := ?x, l_modstate := modstate_insert, l_permutation := P\<rparr>"
    have sl: "leaf_slots ?l1 = leaf_slots l" using leaf_slots_live [of ?l1] leaf_slots_live [OF wp] P by simp
    have same: "leaf_has_ksuf ?l1 = leaf_has_ksuf l" "leaf_bag ?l1 = leaf_bag l" "leaf_ksuf ?l1 = leaf_ksuf l"
      by (auto simp: leaf_has_ksuf_def leaf_bag_def leaf_ksuf_def fun_eq_iff split: option.splits)
    have b: "bags_ok ?l1" using l(2) by (auto simp: leaf_ok_bags bags_ok_def split: option.splits)
    have ok: "leaf_ok ?l1" unfolding leaf_ok_bags sl same using l(2) P(1) b by (simp add: leaf_ok_bags)
    have kb: "ksufs_bounded ?l1" using view_ksufs_bounded [OF l(2,3,1)] unfolding ksufs_bounded_def sl same .
    have f: "free width P \<noteq> []" using P(1,3) n room free_Nil [of width P] by simp
    have ps: "p = snd (insert_from_back width P 0)" using P(4) by (simp add: insert_from_back_def Let_def)
    then have pf: "p < width" "p \<notin> set (leaf_slots ?l1)"
      using kp.alloc_fresh(1,2) [OF P(1) f, of 0] leaf_slots_live [of ?l1] P(1) by simp_all
    have "length (drop 8 (key_str (tc_ka c))) \<le> max_ksuf" using len k(2) by simp
    from leaf_assign_ok [OF ok kb pf k(1) this] show ?thesis by (elim exE conjE) (rule exI)
  qed
  let ?t = "?kp \<noteq> 0 \<or> l_prev l = 0 \<or> leaf_ikey_bound l = k_ikey0 (tc_ka c)"
  show ?thesis
  proof (cases ?t)
    case True
    obtain l2 where l2: "leaf_assign ?l0 ?kp (tc_ka c) = Some l2" using assign [OF wp refl _ refl] by (auto simp: leaf_size_def)
    have "leaf_ikey_bound ?l0 = leaf_ikey_bound l" "leaf_size ?l0 = leaf_size l" "l_prev ?l0 = l_prev l" "l_permutation ?l0 = l_permutation l"
      by (simp_all add: leaf_ikey_bound_def leaf_size_def)
    then have "find_insert w0 c0 = Some (st_leaf w1 (tc_n c) l2, ?c1\<lparr>tc_kx := (tc_kx c)\<lparr>kx_p := int ?kp\<rparr>\<rparr>, False)"
      using start(2) k(3) none n lw True l2
      by (simp add: find_insert_def w' set_insert_state Let_def del: leaf.update_convs)
    from put_insert_leaf [OF start(1) this loc none _ _ _ refl x wp refl _ _ refl l2 len] show ?thesis
      using n lw by (simp add: leaf_size_def)
  next
    case False
    let ?P = "exchange (l_permutation l) (leaf_size l) (width - 1)"
    let ?kp' = "perm_back width ?P"
    have P: "perm_wf width ?P" "live width ?P = live width (l_permutation l)" "perm_size ?P = leaf_size l" "?kp' \<noteq> 0"
      using exchange_free [OF wp] False n room unfolding leaf_size_def by simp_all
    let ?l1 = "l\<lparr>l_version := ?x, l_modstate := modstate_insert, l_permutation := ?P\<rparr>"
    obtain l2 where l2: "leaf_assign ?l1 ?kp' (tc_ka c) = Some l2" using assign [OF P(1-3) refl] by auto
    have ms: "make_split (st_leaf w1 (tc_n c) ?l0) (?c1\<lparr>tc_kx := (tc_kx c)\<lparr>kx_p := int ?kp\<rparr>\<rparr>) =
        Some (st_leaf w1 (tc_n c) l2, ?c1\<lparr>tc_kx := (tc_kx c)\<lparr>kx_p := int ?kp'\<rparr>\<rparr>)"
    proof -
      have e: "?l0\<lparr>l_permutation := ?P\<rparr> = ?l1" "leaf_size ?l0 = leaf_size l" "l_permutation ?l0 = l_permutation l"
        by (simp_all add: leaf_size_def)
      show ?thesis unfolding make_split_def using n lw P(4) l2 e by (simp add: Let_def)
    qed
    have "leaf_ikey_bound ?l0 = leaf_ikey_bound l" "leaf_size ?l0 = leaf_size l" "l_prev ?l0 = l_prev l" "l_permutation ?l0 = l_permutation l"
      by (simp_all add: leaf_ikey_bound_def leaf_size_def)
    then have "find_insert w0 c0 = Some (st_leaf w1 (tc_n c) l2, ?c1\<lparr>tc_kx := (tc_kx c)\<lparr>kx_p := int ?kp'\<rparr>\<rparr>, False)"
      using start(2) k(3) none n lw False ms
      by (simp add: find_insert_def w' set_insert_state Let_def del: leaf.update_convs)
    from put_insert_leaf [OF start(1) this loc none _ _ _ refl x P(1-3) _ refl l2 len] show ?thesis
      using n lw by simp
  qed
qed

section \<open>What \<open>put\<close> does to the table\<close>

lemma located_state:
  assumes loc: "located w T S w' c u s es l"
  shows "tc_state c \<noteq> 0 \<longleftrightarrow> tree_map T S \<noteq> None"
proof -
  obtain root par lo hi where l: "wf_tree (TLeaf (tc_n c) es) lo hi" "leaf_ok l" "leaf_view l = map slot_view es"
    "tree_map T S = first_of (map slot_map es) s" using located_leaf [OF loc] by metis
  show ?thesis
  proof (cases "0 \<le> kx_p (tc_kx c)")
    case True
    from located_slot [OF loc True] obtain i a b suf x where i: "i < length es" "es ! i = SVal a b suf x"
      "rank_of (es ! i) = str_rank s" "tc_state c = (if slot_matches a b suf s then 1 else 0)" by metis
    then show ?thesis unfolding l(4) leaf_map_at [OF l(1) i(1,3)] by simp
  next
    case False
    have k: "key_wf (tc_ka c)" "key_str (tc_ka c) = s" "tc_kx c = leaf_lower (tc_ka c) l" "tc_state c = 0"
      using loc False unfolding located_def by auto
    then have "kx_p (leaf_lower (tc_ka c) l) = -1" using leaf_find [OF l(2,3,1) k(1)] False by (auto split: if_splits)
    from leaf_find_gap [OF l(2,3,1) k(1) this] have "gap_at es (nat (kx_i (tc_kx c))) s" unfolding k(2,3) by simp
    then have "first_of (map slot_map es) s = None"
      by (intro leaf_map_none [OF l(1)]) (metis gap_at_def less_irrefl not_le)
    with k(4) l(4) show ?thesis by simp
  qed
qed

lemma put_ok_rep:
  assumes "put_ok w s v w1 T1" "tree_map T1 = tree_map T" "mt_root w1 \<in> set (layer_addrs T1)"
  shows "\<exists>w' T'. mt_put w s v = Some (w', tree_map T s \<noteq> None) \<and> table_rep w' T' \<and> tree_map T' = (tree_map T)(s \<mapsto> v)"
  using assms unfolding put_ok_def table_rep_ok by (metis subsetD)

lemma put_present:
  assumes "table_rep w T" "tree_map T s \<noteq> None"
  shows "\<exists>w' T'. mt_put w s v = Some (w', True) \<and> table_rep w' T' \<and> tree_map T' = (tree_map T)(s \<mapsto> v)"
proof -
  from operation_start [OF assms(1), of s] obtain w0 c0 w1 T1 w' c u s' es l where
    o: "tcursor_make w s = Some (w0, c0)" "find_locked w0 c0 = Some (w', c)" "located w1 T1 s w' c u s' es l"
      "tree_map T1 = tree_map T" "mt_root w1 \<in> set (layer_addrs T1)" by blast
  have "tc_state c \<noteq> 0" using located_state [OF o(3)] o(4) assms(2) by simp
  from put_ok_rep [OF put_found [OF o(1-3) this] o(4,5)] assms(2) show ?thesis by simp
qed

end
