(* ===== verification/MT_New_Layer.thy ===== *)
theory MT_New_Layer
  imports MT_Put
begin

text \<open>
  Insertion when two keys share a slice: \<open>make_new_layer\<close> builds a twig of leaves with one
  layer each for the slices the keys share, and at its end a leaf for both keys. The theory
  shows what new leaves hold, what the twig stands for, and that \<open>put\<close> is correct.
\<close>

section \<open>Fresh leaves\<close>

text \<open>A new leaf has empty arrays, and a suffix bag when one was asked for.\<close>

definition fresh_leaf :: "'v leaf \<Rightarrow> bool" where
  "fresh_leaf l \<longleftrightarrow> leaf_ok l \<and> l_permutation l = make_empty width \<and> l_version l = nv_make NP True \<and>
     l_modstate l = modstate_insert \<and> l_next l = 0 \<and> l_prev l = 0 \<and> l_parent l = 0"

lemma leaf_slots_empty: "l_permutation l = make_empty width \<Longrightarrow> leaf_slots l = []"
  by (simp add: leaf_slots_def leaf_size_def perm_size_make_empty)

lemma leaf_new_ok:
  assumes "sz = 320 \<or> sz = 384 \<or> sz = 448"
  shows "\<exists>l. leaf_new sz epoch = Some l \<and> fresh_leaf l"
proof -
  have w: "perm_wf width (make_empty width)" by (simp add: width_def perm_wf_make_empty)
  have "sz = 320 \<or> (\<exists>b. sb_make 1 width (sz - 312) = Some b \<and> sb_wf 1 width b) \<and> (sz = 384 \<or> sz = 448)"
  proof (cases "sz = 320")
    case False
    then have c: "sb_overhead 1 width \<le> sz - 312" "sz - 312 \<le> sb_max_size 1" "0 < sz - 312"
      using assms by (auto simp: sb_overhead_def sb_empty_size_def sb_max_size_def width_def)
    then obtain b where "sb_make 1 width (sz - 312) = Some b" by (auto simp: sb_make_def Let_def)
    with sb_make_wf(1) [OF this c(3)] False assms show ?thesis by blast
  qed simp
  then show ?thesis
    using w by (auto simp: leaf_new_def leaf_sizeof_def fresh_leaf_def leaf_ok_def leaf_slots_empty)
qed

lemma leaf_make_ok:
  fixes w :: "'v mt"
  shows "\<exists>l. leaf_make w ks epoch = Some (mt_next w, (st_leaf w (mt_next w) l)\<lparr>mt_next := mt_next w + 1\<rparr>) \<and> fresh_leaf l"
proof -
  let ?n = "312 + min ks 128"
  have u: "unat (word_of_nat ?n :: u64) = ?n" by (subst unat_of_nat) (simp add: min_def)
  have "unat (iceil (word_of_nat ?n) 64) = (?n + 64 - 1) div 64 * 64"
    using iceil_multiple [of "word_of_nat ?n" 64] u by simp
  moreover have "(?n + 64 - 1) div 64 \<in> {5, 6, 7}"
  proof -
    have "375 \<le> ?n + 64 - 1" "?n + 64 - 1 \<le> 503" by auto
    then have "5 \<le> (?n + 64 - 1) div 64" "(?n + 64 - 1) div 64 \<le> 7"
      using div_le_mono [of 375 "?n + 64 - 1" 64] div_le_mono [of "?n + 64 - 1" 503 64] by simp_all
    then show ?thesis by auto
  qed
  ultimately have "unat (iceil (word_of_nat ?n) 64) \<in> {320, 384, 448}" by auto
  then obtain l :: "'v leaf" where l: "leaf_new (unat (iceil (word_of_nat ?n) 64)) epoch = Some l" "fresh_leaf l"
    using leaf_new_ok by blast
  have "leaf_make w ks epoch = Some (mt_next w, (st_leaf w (mt_next w) l)\<lparr>mt_next := mt_next w + 1\<rparr>)"
    unfolding leaf_make_def leaf_sizeof_def Let_def l(1) by (simp add: alloc_node_def st_leaf_def)
  with l(2) show ?thesis by blast
qed

definition root_leaf :: "'v leaf \<Rightarrow> bool" where
  "root_leaf l \<longleftrightarrow> leaf_ok l \<and> l_permutation l = make_empty width \<and> l_version l = 0xC0000000 \<and>
     l_modstate l = modstate_insert \<and> l_next l = 0 \<and> l_prev l = 0 \<and> l_parent l = 0"

lemma leaf_make_root_ok:
  assumes "ld_leaf w tt = Some lt" "tt \<noteq> 0"
  shows "\<exists>l. leaf_make_root w ks tt = Some (mt_next w, (st_leaf w (mt_next w) l)\<lparr>mt_next := mt_next w + 1\<rparr>) \<and> root_leaf l"
proof -
  obtain l where l: "leaf_make w ks (l_phantom_epoch lt) =
      Some (mt_next w, (st_leaf w (mt_next w) l)\<lparr>mt_next := mt_next w + 1\<rparr>)" "fresh_leaf l"
    using leaf_make_ok by blast
  let ?l = "l\<lparr>l_next := 0, l_prev := 0, l_ikey0 := (l_ikey0 l)[0 := 0], l_parent := 0, l_version := 0xC0000000\<rparr>"
  have v: "nv_mark_root NP (nv_make NP True) = 0xC0000000"
    by (simp add: nv_mark_root_def nv_make_def nodeversion_parameters32_def)
  have sl: "leaf_slots ?l = []" using l(2) leaf_slots_empty [of ?l] by (simp add: fresh_leaf_def)
  have "root_leaf ?l"
    using l(2) unfolding root_leaf_def leaf_ok_def sl by (auto simp: fresh_leaf_def leaf_ok_def split: option.splits)
  moreover have "leaf_make_root w ks tt = Some (mt_next w, (st_leaf w (mt_next w) ?l)\<lparr>mt_next := mt_next w + 1\<rparr>)"
    using assms l by (simp add: leaf_make_root_def Let_def ld_leaf_def make_layer_root_def set_parent_def
      upd_version_def st_leaf_def st_node_def fresh_leaf_def v)
  ultimately show ?thesis by blast
qed

section \<open>Initialising the slots of a new leaf\<close>

text \<open>The first slots of a leaf that nobody sees yet, in the order they were written.\<close>

definition init_ok :: "'v leaf \<Rightarrow> (u64 \<times> int \<times> bytes \<times> 'v leafvalue) list \<Rightarrow> bool" where
  "init_ok l vs \<longleftrightarrow> length (l_ikey0 l) = width \<and> length (l_keylenx l) = width \<and> length (l_lv l) = width \<and>
     bags_ok l \<and> length vs \<le> width \<and>
     (\<forall>q < length vs. slot_of l q = vs ! q \<and>
       (leaf_has_ksuf l q \<longrightarrow> (\<exists>t. leaf_ksuf l q = Some t \<and> length t \<le> max_ksuf)))"

text \<open>The fields that initialising leaves alone.\<close>

definition same_head :: "'v leaf \<Rightarrow> 'v leaf \<Rightarrow> bool" where
  "same_head l l' \<longleftrightarrow> l_version l' = l_version l \<and> l_modstate l' = l_modstate l \<and>
     l_permutation l' = l_permutation l \<and> l_next l' = l_next l \<and> l_prev l' = l_prev l \<and>
     l_parent l' = l_parent l \<and> l_phantom_epoch l' = l_phantom_epoch l"

lemma init_slot:
  assumes l: "init_ok l vs" and p: "p = length vs" "p < width" and s: "length s \<le> max_ksuf"
    and l1: "l1 = leaf_set_slot (l\<lparr>l_lv := (l_lv l)[p := lv]\<rparr>) p i k"
  shows "\<exists>l'. (if keylenx_has_ksuf k then assign_ksuf l1 p s True else Some l1) = Some l' \<and>
    init_ok l' (vs @ [(i, k, if keylenx_has_ksuf k then s else [], lv)]) \<and> same_head l l'"
proof -
  have len: "length (l_ikey0 l) = width" "length (l_keylenx l) = width" "length (l_lv l) = width"
    using l by (simp_all add: init_ok_def)
  have hk: "leaf_has_ksuf l1 q = (if q = p then keylenx_has_ksuf k else leaf_has_ksuf l q)" if "q < width" for q
    using that len p by (auto simp: l1 leaf_set_slot_def leaf_has_ksuf_def)
  have bg: "leaf_bag l1 = leaf_bag l" "leaf_ksuf l1 = leaf_ksuf l"
    by (auto simp: l1 leaf_set_slot_def leaf_bag_def leaf_ksuf_def fun_eq_iff split: option.splits)
  have b: "bags_ok l1" using l by (auto simp: init_ok_def l1 bags_ok_def leaf_set_slot_def split: option.splits)
  have K: "kept_slots l1 p True = filter (leaf_has_ksuf l) [0..<p]"
    unfolding kept_slots_def by (auto intro!: filter_cong simp: hk p(2)) (use hk p in auto)
  have old: "\<exists>t. leaf_ksuf l q = Some t \<and> length t \<le> max_ksuf" if "q < p" "leaf_has_ksuf l q" for q
    using l that p by (simp add: init_ok_def)
  have "\<exists>l'. (if keylenx_has_ksuf k then assign_ksuf l1 p s True else Some l1) = Some l' \<and> only_bags l1 l' \<and>
      bags_ok l' \<and> (keylenx_has_ksuf k \<longrightarrow> leaf_ksuf l' p = Some s) \<and>
      (\<forall>q < p. leaf_has_ksuf l q \<longrightarrow> leaf_ksuf l' q = leaf_ksuf l q)"
  proof (cases "keylenx_has_ksuf k")
    case True
    have "\<exists>l'. assign_ksuf l1 p s True = Some l' \<and> only_bags l1 l' \<and> bags_ok l' \<and> leaf_ksuf l' p = Some s \<and>
        (\<forall>q \<in> set (kept_slots l1 p True). leaf_ksuf l' q = leaf_ksuf l1 q)"
      by (rule assign_ksuf_ok [OF b p(2) s]) (use p(2) old in \<open>auto simp: K bg\<close>)
    with True show ?thesis by (auto simp: K bg)
  next
    case False
    then show ?thesis using b bg(2) by (auto simp: only_bags_def)
  qed
  then obtain l' where l': "(if keylenx_has_ksuf k then assign_ksuf l1 p s True else Some l1) = Some l'"
    "only_bags l1 l'" "bags_ok l'" "keylenx_has_ksuf k \<longrightarrow> leaf_ksuf l' p = Some s"
    "\<forall>q < p. leaf_has_ksuf l q \<longrightarrow> leaf_ksuf l' q = leaf_ksuf l q" by blast
  note f = only_bags_fields [OF l'(2)]
  have fl: "l_ikey0 l' = (l_ikey0 l)[p := i]" "l_keylenx l' = (l_keylenx l)[p := k]" "l_lv l' = (l_lv l)[p := lv]"
    "same_head l l'"
    by (simp_all add: f same_head_def) (simp_all add: l1 leaf_set_slot_def)
  have hk': "leaf_has_ksuf l' q = (if q = p then keylenx_has_ksuf k else leaf_has_ksuf l q)" if "q < width" for q
    using hk [OF that] f(11) by simp
  have "slot_of l' q = (vs @ [(i, k, if keylenx_has_ksuf k then s else [], lv)]) ! q \<and>
      (leaf_has_ksuf l' q \<longrightarrow> (\<exists>t. leaf_ksuf l' q = Some t \<and> length t \<le> max_ksuf))"
    if q: "q < length (vs @ [(i, k, if keylenx_has_ksuf k then s else [], lv)])" for q
  proof (cases "q = p")
    case True
    then show ?thesis using p len s l'(4) hk' [OF p(2)] by (auto simp: slot_of_def fl)
  next
    case False
    then have q: "q < p" "q < width" using q p by simp_all
    then have "slot_of l q = vs ! q" using l p by (simp add: init_ok_def)
    moreover have "slot_of l' q = slot_of l q" using q hk' l'(5) False by (simp add: slot_of_def fl)
    ultimately have "slot_of l' q = vs ! q" by simp
    with q p show ?thesis using l'(5) old hk' False by (simp add: nth_append)
  qed
  then have "init_ok l' (vs @ [(i, k, if keylenx_has_ksuf k then s else [], lv)])"
    unfolding init_ok_def using len l'(3) p by (simp add: fl)
  with l'(1) fl(4) show ?thesis by blast
qed

text \<open>What \<open>assign_initialize\<close> writes for a key.\<close>

definition key_view :: "bytes \<Rightarrow> 'v leafvalue \<Rightarrow> u64 \<times> int \<times> bytes \<times> 'v leafvalue" where
  "key_view s lv = (ikey_of s, if 8 < length s then ksuf_keylenx else int (length s), drop 8 s, lv)"

lemma key_view_new: "key_view s (LV_value v) = slot_view (new_slot s v)"
  by (simp add: key_view_def new_slot.simps)

lemma assign_initialize_ok:
  assumes l: "init_ok l vs" and p: "p = length vs" "p < width"
    and k: "key_wf k" "length (drop 8 (key_str k)) \<le> max_ksuf"
  shows "\<exists>l'. leaf_assign_initialize l p k = Some l' \<and> init_ok l' (vs @ [key_view (key_str k) LV_empty]) \<and> same_head l l'"
proof -
  let ?s = "key_str k" let ?kx = "if 8 < length ?s then ksuf_keylenx else int (length ?s)"
  have kl: "int (length ?s) = k_len k" "k_ikey0 k = ikey_of ?s" using k(1) by (simp_all add: length_key_str key_wf_def)
  have h: "keylenx_has_ksuf ?kx \<longleftrightarrow> 8 < length ?s" "key_has_suffix k \<longleftrightarrow> 8 < length ?s"
    using kl by (auto simp: keylenx_has_ksuf_def ksuf_keylenx_def key_has_suffix_def ikey_size_def)
  have e: "leaf_assign_initialize l p k = (if keylenx_has_ksuf ?kx
      then assign_ksuf (leaf_set_slot (l\<lparr>l_lv := (l_lv l)[p := LV_empty]\<rparr>) p (k_ikey0 k) ?kx) p (drop 8 ?s) True
      else Some (leaf_set_slot (l\<lparr>l_lv := (l_lv l)[p := LV_empty]\<rparr>) p (k_ikey0 k) ?kx))"
    using kl by (auto simp: leaf_assign_initialize_def leaf_assign_key_def h key_suffix_str Let_def)
  have v: "key_view ?s LV_empty = (k_ikey0 k, ?kx, if keylenx_has_ksuf ?kx then drop 8 ?s else [], LV_empty)"
    unfolding h by (simp add: key_view_def kl)
  show ?thesis unfolding e v by (rule init_slot [OF l p k(2) refl])
qed

lemma assign_initialize_from_ok:
  assumes l: "init_ok l vs" and p: "p = length vs" "p < width"
    and x: "leaf_has_ksuf x xp \<longrightarrow> (\<exists>t. leaf_ksuf x xp = Some t \<and> length t \<le> max_ksuf)"
  shows "\<exists>l'. leaf_assign_initialize_from l p x xp = Some l' \<and> init_ok l' (vs @ [slot_of x xp]) \<and> same_head l l'"
proof -
  let ?s = "if leaf_has_ksuf x xp then the (leaf_ksuf x xp) else []"
  have s: "length ?s \<le> max_ksuf" using x by auto
  have h: "keylenx_has_ksuf (l_keylenx x ! xp) = leaf_has_ksuf x xp" by (simp add: leaf_has_ksuf_def)
  have "leaf_assign_initialize_from l p x xp = (if keylenx_has_ksuf (l_keylenx x ! xp)
      then assign_ksuf (leaf_set_slot (l\<lparr>l_lv := (l_lv l)[p := l_lv x ! xp]\<rparr>) p (l_ikey0 x ! xp) (l_keylenx x ! xp)) p ?s True
      else Some (leaf_set_slot (l\<lparr>l_lv := (l_lv l)[p := l_lv x ! xp]\<rparr>) p (l_ikey0 x ! xp) (l_keylenx x ! xp)))"
    using x unfolding h by (auto simp: leaf_assign_initialize_from_def Let_def)
  moreover have "slot_of x xp = (l_ikey0 x ! xp, l_keylenx x ! xp, if keylenx_has_ksuf (l_keylenx x ! xp) then ?s else [], l_lv x ! xp)"
    unfolding h by (simp add: slot_of_def)
  ultimately show ?thesis using init_slot [OF l p s refl, where lv = "l_lv x ! xp" and i = "l_ikey0 x ! xp" and k = "l_keylenx x ! xp"] by (simp only:)
qed

lemma init_set_lv:
  assumes "init_ok l vs" "q < length vs"
  shows "init_ok (l\<lparr>l_lv := (l_lv l)[q := x]\<rparr>) (vs[q := (fst (vs ! q), fst (snd (vs ! q)), fst (snd (snd (vs ! q))), x)])"
proof -
  let ?l = "l\<lparr>l_lv := (l_lv l)[q := x]\<rparr>"
  have same: "leaf_has_ksuf ?l = leaf_has_ksuf l" "leaf_bag ?l = leaf_bag l" "leaf_ksuf ?l = leaf_ksuf l"
    by (auto simp: leaf_has_ksuf_def leaf_bag_def leaf_ksuf_def fun_eq_iff split: option.splits)
  have b: "bags_ok ?l = bags_ok l" by (simp add: bags_ok_def split: option.splits)
  have "slot_of ?l j = vs[q := (fst (vs ! q), fst (snd (vs ! q)), fst (snd (snd (vs ! q))), x)] ! j"
    if j: "j < length vs" for j
  proof -
    have s: "slot_of l j = vs ! j" "j < length (l_lv l)" using assms(1) j by (simp_all add: init_ok_def)
    have "slot_of ?l j = (fst (slot_of l j), fst (snd (slot_of l j)), fst (snd (snd (slot_of l j))), (l_lv l)[q := x] ! j)"
      unfolding slot_of_def same by simp
    then show ?thesis using s j by (cases "j = q") (simp_all add: nth_list_update slot_of_def prod_eq_iff)
  qed
  then show ?thesis using assms(1) unfolding init_ok_def same b by simp
qed

text \<open>A permutation over the written slots makes a leaf of it.\<close>

lemma init_publish:
  assumes l: "init_ok l vs" and P: "perm_wf width P" "set (live width P) \<subseteq> {..<length vs}"
    and m: "l_modstate l \<noteq> modstate_deleted_layer"
    and l': "l' = l\<lparr>l_permutation := P, l_version := v, l_next := a, l_prev := b, l_parent := c\<rparr>"
  shows "leaf_ok l'" "leaf_view l' = map ((!) vs) (live width P)"
proof -
  have sl: "leaf_slots l' = live width P" using leaf_slots_live [of l'] P(1) by (simp add: l')
  have same: "leaf_has_ksuf l' = leaf_has_ksuf l" "leaf_bag l' = leaf_bag l" "leaf_ksuf l' = leaf_ksuf l"
    by (auto simp: l' leaf_has_ksuf_def leaf_bag_def leaf_ksuf_def fun_eq_iff split: option.splits)
  have so: "slot_of l' = slot_of l" by (rule ext) (simp add: slot_of_def same, simp add: l')
  have b: "bags_ok l'" using l by (simp add: init_ok_def bags_ok_def l' split: option.splits)
  have "leaf_bag l \<noteq> None" if "q \<in> set (live width P)" "leaf_has_ksuf l q" for q
    using l P(2) that by (fastforce simp: init_ok_def leaf_ksuf_def)
  then show "leaf_ok l'" unfolding leaf_ok_bags sl same using l P(1) m b by (simp add: init_ok_def l')
  show "leaf_view l' = map ((!) vs) (live width P)"
    unfolding leaf_view_def sl so by (rule map_cong) (use l P(2) in \<open>auto simp: init_ok_def\<close>)
qed

section \<open>The twig\<close>

text \<open>How many slices two keys share, and where they part.\<close>

fun agree :: "nat \<Rightarrow> bytes \<Rightarrow> bytes \<Rightarrow> bool" where
  "agree 0 x y \<longleftrightarrow> True"
| "agree (Suc m) x y \<longleftrightarrow> 8 < length x \<and> 8 < length y \<and> ikey_of x = ikey_of y \<and> agree m (drop 8 x) (drop 8 y)"

lemma str_rank_eq: "str_rank x = str_rank y \<longleftrightarrow> ikey_of x = ikey_of y \<and> min (length x) 9 = min (length y) 9"
proof -
  have "min (int a) 9 = min (int b) 9 \<longleftrightarrow> min a 9 = min b 9" for a b by linarith
  then show ?thesis by (simp add: str_rank_def slot_rank_eq)
qed

lemma keys_part:
  "x \<noteq> y \<Longrightarrow> \<exists>m. agree m x y \<and> str_rank (drop (8 * m) x) \<noteq> str_rank (drop (8 * m) y)"
proof (induction "length x" arbitrary: x y rule: less_induct)
  case less
  show ?case
  proof (cases "str_rank x = str_rank y")
    case False
    then show ?thesis by (intro exI [of _ 0]) simp
  next
    case True
    then have r: "ikey_of x = ikey_of y" "min (length x) 9 = min (length y) 9" by (simp_all add: str_rank_eq)
    have "8 < length x \<and> 8 < length y"
    proof (rule ccontr)
      assume "\<not> (8 < length x \<and> 8 < length y)"
      with r(2) have "length x = length y" "length y \<le> 8" by (auto simp: min_def split: if_splits)
      with short_string_eq [OF r(1)] less.prems show False by blast
    qed
    then have l: "8 < length x" "8 < length y" by simp_all
    have "drop 8 x \<noteq> drop 8 y" using long_string_eq [OF r(1) l] less.prems by blast
    moreover have "length (drop 8 x) < length x" using l by simp
    ultimately obtain m where
      "agree m (drop 8 x) (drop 8 y)" "str_rank (drop (8 * m) (drop 8 x)) \<noteq> str_rank (drop (8 * m) (drop 8 y))"
      using less.hyps by blast
    with r l show ?thesis by (intro exI [of _ "Suc m"]) (simp add: add.commute)
  qed
qed

lemma agree_parts: "agree m x y \<Longrightarrow> j < m \<Longrightarrow> 8 < length (drop (8 * j) x) \<and> str_rank (drop (8 * j) x) = str_rank (drop (8 * j) y)"
proof (induction j arbitrary: m x y)
  case 0
  then show ?case by (cases m) (auto simp: str_rank_eq)
next
  case (Suc j)
  then obtain n where n: "m = Suc n" "agree n (drop 8 x) (drop 8 y)" "j < n" by (cases m) auto
  from Suc.IH [OF n(2,3)] show ?case by (simp add: add.commute)
qed

text \<open>A leaf of the twig: one layer, under the slice of both keys.\<close>

definition twig_leaf :: "'v leaf \<Rightarrow> u64 \<Rightarrow> bool" where
  "twig_leaf l i \<longleftrightarrow> leaf_ok l \<and> l_permutation l = make_sorted width 1 \<and> l_version l = 0xC0000000 \<and>
     l_parent l = 0 \<and> l_ikey0 l ! 0 = i \<and> l_keylenx l ! 0 = layer_keylenx"

lemma sorted_one: "perm_wf width (make_sorted width 1)" "live width (make_sorted width 1) = [0]"
proof -
  show "perm_wf width (make_sorted width 1)" by (rule perm_wf_make_sorted) (simp_all add: width_def)
  show "live width (make_sorted width 1) = [0]" by code_simp
qed

lemma root_leaf_init: "root_leaf l \<Longrightarrow> init_ok l []"
  by (auto simp: root_leaf_def init_ok_def leaf_ok_bags)

lemma twig_leaf_make:
  assumes "root_leaf l"
  shows "twig_leaf (leaf_set_slot l 0 i layer_keylenx\<lparr>l_permutation := make_sorted width 1\<rparr>) i"
proof -
  let ?l = "leaf_set_slot l 0 i layer_keylenx"
  have "\<not> keylenx_has_ksuf layer_keylenx" by code_simp
  with init_slot [OF root_leaf_init [OF assms] _ _ _ refl, where s = "[]" and p = 0 and lv = "l_lv l ! 0" and i = i and k = layer_keylenx]
  have o: "init_ok ?l [(i, layer_keylenx, [], l_lv l ! 0)]"
    by (simp add: width_def)
  have m: "l_modstate ?l \<noteq> modstate_deleted_layer" using assms by (simp add: root_leaf_def leaf_set_slot_def)
  from init_publish [OF o _ _ m refl, where P = "make_sorted width 1" and v = "l_version ?l" and a = "l_next ?l" and b = "l_prev ?l" and c = "l_parent ?l"]
  have "leaf_ok (?l\<lparr>l_permutation := make_sorted width 1\<rparr>)" by (simp add: sorted_one del: One_nat_def)
  then show ?thesis using assms by (simp add: twig_leaf_def root_leaf_def leaf_set_slot_def leaf_ok_def width_def)
qed

lemma twig_leaf_lv: "twig_leaf l i \<Longrightarrow> twig_leaf (l\<lparr>l_lv := (l_lv l)[0 := x]\<rparr>) i"
proof -
  assume a: "twig_leaf l i"
  let ?l = "l\<lparr>l_lv := (l_lv l)[0 := x]\<rparr>"
  have same: "leaf_has_ksuf ?l = leaf_has_ksuf l" "leaf_bag ?l = leaf_bag l" "leaf_slots ?l = leaf_slots l"
    by (auto simp: leaf_has_ksuf_def leaf_bag_def leaf_slots_def leaf_size_def fun_eq_iff split: option.splits)
  have "leaf_ok ?l" using a sorted_one(1) unfolding twig_leaf_def leaf_ok_def same by (simp split: option.splits del: One_nat_def)
  with a show ?thesis by (simp add: twig_leaf_def)
qed

lemma mt_update_order: "w\<lparr>mt_next := n, mt_heap := h\<rparr> = w\<lparr>mt_heap := h, mt_next := n\<rparr>"
  by simp

lemma drop_slice: "drop (8 * j) (drop 8 s) = drop (8 * Suc j) s"
  by (simp add: add.commute)

lemma make_twig_ok:
  fixes w :: "'v mt"
  assumes "agree m so sn" "str_rank (drop (8 * m) so) \<noteq> str_rank (drop (8 * m) sn)"
    and "key_wf oka" "key_str oka = so" "key_wf ka" "key_str ka = sn" "kcmp = key_compare_key oka ka"
    and "ld_leaf w tt = Some lt" "tt \<noteq> 0" "tt < mt_next w" "n < mt_next w" "h = n \<longleftrightarrow> tt = n"
  shows "\<exists>w' oka' ka' nn'. make_twig w n h tt oka ka kcmp nn = Some (w', if h \<noteq> n \<or> m = 0 then h else mt_next w,
        if m = 0 then tt else mt_next w + (m - 1), oka', ka', key_compare_key oka' ka', nn') \<and>
    key_wf oka' \<and> key_str oka' = drop (8 * m) so \<and> key_wf ka' \<and> key_str ka' = drop (8 * m) sn \<and>
    w' = w\<lparr>mt_heap := mt_heap w', mt_next := mt_next w + m\<rparr> \<and>
    (\<forall>q < mt_next w. mt_heap w' q = (if q = tt \<and> tt \<noteq> n \<and> 0 < m
       then Some (Leaf (lt\<lparr>l_lv := (l_lv lt)[0 := LV_layer (mt_next w)]\<rparr>)) else mt_heap w q)) \<and>
    (\<forall>j < m. \<exists>l. mt_heap w' (mt_next w + j) = Some (Leaf l) \<and> twig_leaf l (ikey_of (drop (8 * j) so)) \<and>
       (j + 1 < m \<longrightarrow> l_lv l ! 0 = LV_layer (mt_next w + j + 1)))"
  using assms
proof (induction m arbitrary: so sn oka ka kcmp w tt lt h nn)
  case 0
  have "key_rank oka \<noteq> key_rank ka" using 0 by (simp add: key_rank_str)
  then have "kcmp \<noteq> 0"
    using key_compare_rank(2) [of oka "k_len ka" "k_ikey0 ka"] "0.prems"(3,5,7)
    by (simp add: key_compare_key_def key_rank_def key_wf_def)
  then show ?case using 0 by (subst make_twig.simps) simp
next
  case (Suc m)
  let ?a = "mt_next w"
  have ag: "8 < length so" "8 < length sn" "ikey_of so = ikey_of sn" "agree m (drop 8 so) (drop 8 sn)"
    using Suc.prems(1) by simp_all
  have "key_rank oka = key_rank ka" using Suc.prems(3-6) ag by (simp add: key_rank_str str_rank_eq)
  then have k0: "kcmp = 0"
    using key_compare_rank(2) [of oka "k_len ka" "k_ikey0 ka"] Suc.prems(3,5,7)
    by (simp add: key_compare_key_def key_rank_def key_wf_def)
  have hs: "key_has_suffix oka" "key_has_suffix ka"
    using ag Suc.prems(3-6) length_key_str [of oka] length_key_str [of ka] by (simp_all add: key_has_suffix_def ikey_size_def)
  note sh = key_shift_wf(1,2) [OF Suc.prems(3) hs(1)] key_shift_wf(1,2) [OF Suc.prems(5) hs(2)]
  from leaf_make_root_ok [OF Suc.prems(8,9)] obtain l where l:
    "leaf_make_root w 0 tt = Some (?a, (st_leaf w ?a l)\<lparr>mt_next := ?a + 1\<rparr>)" "root_leaf l" by blast
  have ik: "k_ikey0 oka = ikey_of so" using Suc.prems(3,4) by (simp add: key_wf_def)
  let ?l1 = "leaf_set_slot l 0 (ikey_of so) layer_keylenx"
  let ?l2 = "?l1\<lparr>l_permutation := make_sorted width 1\<rparr>"
  let ?w1 = "w\<lparr>mt_heap := (mt_heap w)(?a \<mapsto> Leaf ?l2), mt_next := ?a + 1\<rparr>"
  let ?w2 = "if h \<noteq> n then ?w1\<lparr>mt_heap := (mt_heap ?w1)(tt \<mapsto> Leaf (lt\<lparr>l_lv := (l_lv lt)[0 := LV_layer ?a]\<rparr>))\<rparr> else ?w1"
  have ne: "tt \<noteq> ?a" "n \<noteq> ?a" "?a \<noteq> 0" using Suc.prems(10,11) by simp_all
  have tw: "twig_leaf ?l2 (ikey_of so)" by (rule twig_leaf_make [OF l(2)])
  have lt: "mt_heap w tt = Some (Leaf lt)"
    using Suc.prems(8) by (auto simp: ld_leaf_def split: option.splits node.splits)
  have step: "make_twig w n h tt oka ka kcmp nn = make_twig ?w2 n (if h \<noteq> n then h else ?a) ?a (key_shift oka) (key_shift ka)
      (key_compare_key (key_shift oka) (key_shift ka)) (nn @ [(?a, leaf_full_unlocked_version_value ?l2)])"
    using k0 l(1) hs ne lt
    by (subst make_twig.simps)
      (simp add: leaf_assign_initialize_for_layer_def ik ld_leaf_def st_leaf_def st_node_def Let_def mt_update_order fun_upd_twist)
  have n2: "mt_next ?w2 = ?a + 1" by simp
  have ih: "\<exists>w' oka' ka' nn'. make_twig ?w2 n (if h \<noteq> n then h else ?a) ?a (key_shift oka) (key_shift ka)
      (key_compare_key (key_shift oka) (key_shift ka)) (nn @ [(?a, leaf_full_unlocked_version_value ?l2)]) =
      Some (w', if (if h \<noteq> n then h else ?a) \<noteq> n \<or> m = 0 then (if h \<noteq> n then h else ?a) else mt_next ?w2,
        if m = 0 then ?a else mt_next ?w2 + (m - 1), oka', ka', key_compare_key oka' ka', nn') \<and>
    key_wf oka' \<and> key_str oka' = drop (8 * m) (drop 8 so) \<and> key_wf ka' \<and> key_str ka' = drop (8 * m) (drop 8 sn) \<and>
    w' = ?w2\<lparr>mt_heap := mt_heap w', mt_next := mt_next ?w2 + m\<rparr> \<and>
    (\<forall>q < mt_next ?w2. mt_heap w' q = (if q = ?a \<and> ?a \<noteq> n \<and> 0 < m
       then Some (Leaf (?l2\<lparr>l_lv := (l_lv ?l2)[0 := LV_layer (mt_next ?w2)]\<rparr>)) else mt_heap ?w2 q)) \<and>
    (\<forall>j < m. \<exists>l. mt_heap w' (mt_next ?w2 + j) = Some (Leaf l) \<and> twig_leaf l (ikey_of (drop (8 * j) (drop 8 so))) \<and>
       (j + 1 < m \<longrightarrow> l_lv l ! 0 = LV_layer (mt_next ?w2 + j + 1)))"
  proof (rule Suc.IH [OF ag(4) _ sh(1) _ sh(3) _ refl _ ne(3)])
    show "str_rank (drop (8 * m) (drop 8 so)) \<noteq> str_rank (drop (8 * m) (drop 8 sn))" using Suc.prems(2) by (simp add: add.commute)
    show "key_str (key_shift oka) = drop 8 so" "key_str (key_shift ka) = drop 8 sn" using sh Suc.prems(4,6) by simp_all
    show "ld_leaf ?w2 ?a = Some ?l2" using ne by (simp add: ld_leaf_def)
    show "?a < mt_next ?w2" "n < mt_next ?w2" using Suc.prems(11) by simp_all
    show "(if h \<noteq> n then h else ?a) = n \<longleftrightarrow> ?a = n" using ne by simp
  qed
  then obtain w' oka' ka' nn' where r: "make_twig w n h tt oka ka kcmp nn =
      Some (w', if (if h \<noteq> n then h else ?a) \<noteq> n \<or> m = 0 then (if h \<noteq> n then h else ?a) else ?a + 1,
        if m = 0 then ?a else ?a + 1 + (m - 1), oka', ka', key_compare_key oka' ka', nn')"
    and w': "key_wf oka'" "key_str oka' = drop (8 * Suc m) so" "key_wf ka'" "key_str ka' = drop (8 * Suc m) sn"
    "w' = ?w2\<lparr>mt_heap := mt_heap w', mt_next := ?a + 1 + m\<rparr>"
    "\<forall>q < ?a + 1. mt_heap w' q = (if q = ?a \<and> ?a \<noteq> n \<and> 0 < m
       then Some (Leaf (?l2\<lparr>l_lv := (l_lv ?l2)[0 := LV_layer (?a + 1)]\<rparr>)) else mt_heap ?w2 q)"
    "\<forall>j < m. \<exists>l. mt_heap w' (?a + 1 + j) = Some (Leaf l) \<and> twig_leaf l (ikey_of (drop (8 * Suc j) so)) \<and>
       (j + 1 < m \<longrightarrow> l_lv l ! 0 = LV_layer (?a + 1 + j + 1))"
    unfolding step [symmetric] n2 drop_slice by (elim exE conjE) (rule that)
  have r': "make_twig w n h tt oka ka kcmp nn =
      Some (w', if h \<noteq> n then h else ?a, ?a + m, oka', ka', key_compare_key oka' ka', nn')"
    using r ne by (cases m) auto
  have nodes: "\<exists>l. mt_heap w' (?a + j) = Some (Leaf l) \<and> twig_leaf l (ikey_of (drop (8 * j) so)) \<and>
       (j + 1 < Suc m \<longrightarrow> l_lv l ! 0 = LV_layer (?a + j + 1))" if j: "j < Suc m" for j
  proof (cases j)
    case 0
    have "mt_heap ?w2 ?a = Some (Leaf ?l2)" using ne by simp
    moreover have "length (l_lv ?l2) = width" using tw by (simp add: twig_leaf_def leaf_ok_def)
    ultimately show ?thesis using w'(6) [rule_format, of ?a] ne tw twig_leaf_lv [OF tw] 0 by (simp add: width_def)
  next
    case (Suc j')
    with w'(7) [rule_format, of j'] j show ?thesis by auto
  qed
  have low: "mt_heap w' q = (if q = tt \<and> tt \<noteq> n then Some (Leaf (lt\<lparr>l_lv := (l_lv lt)[0 := LV_layer ?a]\<rparr>)) else mt_heap w q)"
    if "q < ?a" for q using that w'(6) [rule_format, of q] Suc.prems(12) by auto
  have "w' = w\<lparr>mt_heap := mt_heap w', mt_next := ?a + Suc m\<rparr>" using w'(5) by (cases "h = n") auto
  with r' w'(1-4) low nodes show ?case by (intro exI [of _ w'] exI [of _ oka'] exI [of _ ka'] exI [of _ nn']) simp
qed

section \<open>The shape of a new layer\<close>

fun twig_tree :: "ptr \<Rightarrow> bytes \<Rightarrow> nat \<Rightarrow> 'v tree \<Rightarrow> 'v tree" where
  "twig_tree a s 0 t = t"
| "twig_tree a s (Suc m) t = TLeaf a [SLayer (ikey_of s) (a + 1) (twig_tree (a + 1) (drop 8 s) m t)]"

lemma twig_tree_layer:
  assumes "t \<noteq> TNil" "root_addr t = a + m"
  shows "a \<in> set (layer_addrs (twig_tree a s m t))"
  using assms root_addr_layer [of t] by (cases m) auto

lemma twig_tree_addrs: "addrs (twig_tree a s m t) = [a..<a + m] @ addrs t"
proof (induction m arbitrary: a s)
  case (Suc m)
  then show ?case by (simp add: upt_conv_Cons)
qed simp

lemma twig_tree_wf: "wf_tree t 0 top \<Longrightarrow> root_addr t = a + m \<Longrightarrow> wf_tree (twig_tree a s m t) 0 top"
proof (induction m arbitrary: a s)
  case (Suc m)
  have "t \<noteq> TNil" using Suc.prems(1) by (rule at_rest_nil) (simp add: top_def)
  then have "a + 1 \<in> set (layer_addrs (twig_tree (a + 1) (drop 8 s) m t))"
    using Suc.prems by (intro twig_tree_layer) simp_all
  with Suc unat_top [of "ikey_of s"] show ?case by (simp add: width_def)
qed simp

lemma root_version: "ver_shape True True 0xC0000000" "ver_clean 0xC0000000" "ver_ok 0 (0xC0000000 :: u32)"
  by (simp_all add: ver_shape_def ver_ok_def ver_clean_def nv_isleaf_def nv_is_root_def nv_deleted_def
      nv_locked_def nodeversion_parameters32_def)

lemma twig_leaf_view: "twig_leaf l i \<Longrightarrow> leaf_view l = [(i, layer_keylenx, [], l_lv l ! 0)]"
proof -
  assume t: "twig_leaf l i"
  have "\<not> keylenx_has_ksuf layer_keylenx" by code_simp
  moreover have "leaf_slots l = [0]" using t leaf_slots_live [of l] sorted_one by (simp add: twig_leaf_def)
  ultimately show ?thesis using t by (simp add: leaf_view_def slot_of_def twig_leaf_def leaf_has_ksuf_def)
qed

lemma twig_tree_rest:
  assumes "at_rest w True 0 t" "a \<noteq> 0" "a + m \<le> mt_next w" "root_addr t = a + m"
    and "\<forall>j < m. \<exists>l. mt_heap w (a + j) = Some (Leaf l) \<and> twig_leaf l (ikey_of (drop (8 * j) s)) \<and>
       l_lv l ! 0 = LV_layer (a + j + 1)"
  shows "at_rest w True 0 (twig_tree a s m t)"
  using assms
proof (induction m arbitrary: a s)
  case (Suc m)
  have "at_rest w True 0 (twig_tree (a + 1) (drop 8 s) m t)"
  proof (rule Suc.IH)
    show "\<forall>j < m. \<exists>l. mt_heap w (a + 1 + j) = Some (Leaf l) \<and> twig_leaf l (ikey_of (drop (8 * j) (drop 8 s))) \<and>
       l_lv l ! 0 = LV_layer (a + 1 + j + 1)"
      using Suc.prems(5) unfolding drop_slice by force
  qed (use Suc.prems in simp_all)
  moreover obtain l where l: "mt_heap w a = Some (Leaf l)" "twig_leaf l (ikey_of s)" "l_lv l ! 0 = LV_layer (a + 1)"
    using Suc.prems(5) [rule_format, of 0] by auto
  ultimately show ?case using Suc.prems(2,3) root_version twig_leaf_view [OF l(2)]
    by (auto simp: at_rest_leaf node_rep_def quiet_def twig_leaf_def)
qed simp

lemma twig_tree_map:
  assumes "agree m so sn" "tree_map t = (\<lambda>y. if y = drop (8 * m) sn then Some v else if y = drop (8 * m) so then Some x else None)"
  shows "tree_map (twig_tree a so m t) = (\<lambda>y. if y = sn then Some v else if y = so then Some x else None)"
  using assms
proof (induction m arbitrary: a so sn)
  case (Suc m)
  have g: "8 < length so" "8 < length sn" "ikey_of so = ikey_of sn" "agree m (drop 8 so) (drop 8 sn)" using Suc.prems(1) by simp_all
  have "tree_map t = (\<lambda>y. if y = drop (8 * m) (drop 8 sn) then Some v else if y = drop (8 * m) (drop 8 so) then Some x else None)"
    unfolding drop_slice by (rule Suc.prems(2))
  from Suc.IH [OF g(4) this, of "a + 1"] have ih: "tree_map (twig_tree (a + 1) (drop 8 so) m t) =
      (\<lambda>y. if y = drop 8 sn then Some v else if y = drop 8 so then Some x else None)" .
  show ?case
  proof
    fix y
    have e: "8 < length y \<Longrightarrow> ikey_of y = ikey_of so \<Longrightarrow> (y = sn \<longleftrightarrow> drop 8 y = drop 8 sn) \<and> (y = so \<longleftrightarrow> drop 8 y = drop 8 so)"
      using long_string_eq [of y so] long_string_eq [of y sn] g by auto
    show "tree_map (twig_tree a so (Suc m) t) y = (if y = sn then Some v else if y = so then Some x else None)"
      using e g ih by (auto split: option.splits)
  qed
qed (simp cong: if_cong)

section \<open>The leaf at the end of the twig\<close>

lemma new_layer_permutations:
  "perm_back width (make_sorted width 1) = 1"
  "fst (insert_from_back width (make_sorted width 1) 1) = make_sorted width 2"
  "perm_back width (remove_to_back width (make_sorted width 2) 0) = 0"
  "fst (insert_from_back width (remove_to_back width (make_sorted width 2) 0) 0) = make_sorted width 2"
  "live width (make_sorted width 2) = [0, 1]"
  "perm_wf width (make_sorted width 2)"
  by code_simp+

lemma new_layer_leaf_ok:
  assumes nl: "root_leaf nl" and k: "key_wf oka" "key_wf ka"
    and len: "length (drop 8 (key_str oka)) \<le> max_ksuf" "length (drop 8 (key_str ka)) \<le> max_ksuf"
    and lt: "b \<longleftrightarrow> kcmp < 0" "kcmp \<noteq> 0"
  shows "\<exists>l. new_layer_leaf nl oka ka kcmp (LV_value x) = Some l \<and> l_version l = 0xC0000000 \<and>
    perm_back width (l_permutation l) = of_bool b \<and>
    (\<forall>l' v. l' = l\<lparr>l_lv := (l_lv l)[of_bool b := LV_value v],
        l_permutation := fst (insert_from_back width (l_permutation l) (of_bool b)), l_version := 0xC0000000\<rparr> \<longrightarrow>
      leaf_ok l' \<and> l_parent l' = 0 \<and> leaf_view l' = map slot_view
        (if b then [new_slot (key_str oka) x, new_slot (key_str ka) v] else [new_slot (key_str ka) v, new_slot (key_str oka) x]))"
proof -
  let ?k0 = "if b then oka else ka" and ?k1 = "if b then ka else oka"
  have i0: "init_ok nl []" by (rule root_leaf_init [OF nl])
  have kw: "key_wf ?k0" "key_wf ?k1" "length (drop 8 (key_str ?k0)) \<le> max_ksuf" "length (drop 8 (key_str ?k1)) \<le> max_ksuf"
    using k len by simp_all
  from assign_initialize_ok [OF i0 _ _ kw(1,3), of 0] obtain l1 where l1: "leaf_assign_initialize nl 0 ?k0 = Some l1"
    "init_ok l1 [key_view (key_str ?k0) LV_empty]" "same_head nl l1" by (auto simp: width_def)
  from assign_initialize_ok [OF l1(2) _ _ kw(2,4), of 1] obtain l2 where l2: "leaf_assign_initialize l1 1 ?k1 = Some l2"
    "init_ok l2 [key_view (key_str ?k0) LV_empty, key_view (key_str ?k1) LV_empty]" "same_head l1 l2" by (auto simp: width_def)
  let ?P = "if b then make_sorted width 1 else remove_to_back width (make_sorted width 2) 0"
  let ?l3 = "l2\<lparr>l_lv := (l_lv l2)[of_bool (\<not> b) := LV_value x]\<rparr>"
  let ?l = "?l3\<lparr>l_permutation := ?P\<rparr>"
  have "kcmp > 0 \<longleftrightarrow> \<not> b" using lt by auto
  then have e: "new_layer_leaf nl oka ka kcmp (LV_value x) = Some ?l"
    using l1(1) l2(1) lt by (simp add: new_layer_leaf_def Let_def)
  have h: "l_version ?l = 0xC0000000" "l_modstate ?l3 \<noteq> modstate_deleted_layer" "l_parent ?l = 0"
    using nl l1(3) l2(3) by (simp_all add: root_leaf_def same_head_def)
  have p: "perm_back width (l_permutation ?l) = of_bool b" "fst (insert_from_back width (l_permutation ?l) (of_bool b)) = make_sorted width 2"
    using new_layer_permutations by auto
  let ?vs = "[key_view (key_str ?k0) (if b then LV_value x else LV_empty), key_view (key_str ?k1) (if b then LV_empty else LV_value x)]"
  have i3: "init_ok ?l3 ?vs" using init_set_lv [OF l2(2), of "of_bool (\<not> b)" "LV_value x"] by (cases b) (simp_all add: key_view_def)
  have fin: "leaf_ok l' \<and> l_parent l' = 0 \<and> leaf_view l' = map slot_view
        (if b then [new_slot (key_str oka) x, new_slot (key_str ka) v] else [new_slot (key_str ka) v, new_slot (key_str oka) x])"
    if l': "l' = ?l\<lparr>l_lv := (l_lv ?l)[of_bool b := LV_value v],
        l_permutation := fst (insert_from_back width (l_permutation ?l) (of_bool b)), l_version := 0xC0000000\<rparr>" for l' v
  proof -
    let ?l4 = "?l3\<lparr>l_lv := (l_lv ?l3)[of_bool b := LV_value v]\<rparr>"
    let ?ws = "[key_view (key_str ?k0) (if b then LV_value x else LV_value v), key_view (key_str ?k1) (if b then LV_value v else LV_value x)]"
    have i4: "init_ok ?l4 ?ws" using init_set_lv [OF i3, of "of_bool b" "LV_value v"] by (cases b) (simp_all add: key_view_def)
    have "l' = ?l4\<lparr>l_permutation := make_sorted width 2, l_version := 0xC0000000, l_next := l_next ?l4, l_prev := l_prev ?l4, l_parent := l_parent ?l4\<rparr>"
      unfolding l' p(2) by simp
    from init_publish [OF i4 new_layer_permutations(6) _ _ this] h
    have "leaf_ok l'" "leaf_view l' = map ((!) ?ws) [0, 1]" by (simp_all add: new_layer_permutations(5))
    moreover have "l_parent l' = 0" using h(3) by (simp add: l')
    ultimately show ?thesis by (cases b) (simp_all add: key_view_new)
  qed
  show ?thesis using e h p fin by blast
qed

section \<open>Making the new layer\<close>

lemma lock_root_version: "nv_lock_round NP 0xC0000000 0xC0000000 = (0xC0000001, Inl 0xC0000001)" "nv_unlock NP 0xC0000001 = 0xC0000000"
  by code_simp+

lemma heap_leaf: "ld_leaf w p = Some l \<longleftrightarrow> mt_heap w p = Some (Leaf l)"
  by (auto simp: ld_leaf_def split: option.splits node.splits)

lemma make_new_layer_ok:
  fixes w :: "'v mt"
  assumes l: "mt_heap w n = Some (Leaf l)" "n \<noteq> 0" "n < mt_next w" "tc_n c = n"
    and p: "kx_p (tc_kx c) = int p" "leaf_ksuf l p = Some so" "l_lv l ! p = LV_value x"
    and k: "key_wf (tc_ka c)" "key_str (tc_ka c) = s" "8 < length s" "drop 8 s = sn" "so \<noteq> sn"
    and len: "length so \<le> max_ksuf" "length sn \<le> max_ksuf"
  shows "\<exists>m w' c' nl b so' sn'. make_new_layer w c = Some (w', c') \<and> agree m so sn \<and>
    so' = drop (8 * m) so \<and> sn' = drop (8 * m) sn \<and> str_rank so' \<noteq> str_rank sn' \<and> (b \<longleftrightarrow> str_rank so' < str_rank sn') \<and>
    tc_n c' = mt_next w + m \<and> tc_kx c' = \<lparr>kx_i = of_bool b, kx_p = of_bool b\<rparr> \<and> tc_state c' = tc_state c \<and>
    mt_next w' = mt_next w + m + 1 \<and> mt_root w' = mt_root w \<and>
    mt_heap w' n = Some (Leaf (l\<lparr>l_lv := (l_lv l)[p := LV_layer (mt_next w)],
      l_keylenx := (l_keylenx l)[p := layer_keylenx], l_version := nv_unlock NP (nv_mark_insert NP (l_version l))\<rparr>)) \<and>
    (\<forall>q < mt_next w. q \<noteq> n \<longrightarrow> mt_heap w' q = mt_heap w q) \<and>
    (\<forall>j < m. \<exists>l. mt_heap w' (mt_next w + j) = Some (Leaf l) \<and> twig_leaf l (ikey_of (drop (8 * j) so)) \<and>
       l_lv l ! 0 = LV_layer (mt_next w + j + 1)) \<and>
    mt_heap w' (mt_next w + m) = Some (Leaf (nl\<lparr>l_version := 0xC0000001\<rparr>)) \<and>
    perm_back width (l_permutation nl) = of_bool b \<and>
    (\<forall>l' v. l' = nl\<lparr>l_lv := (l_lv nl)[of_bool b := LV_value v],
        l_permutation := fst (insert_from_back width (l_permutation nl) (of_bool b)), l_version := 0xC0000000\<rparr> \<longrightarrow>
      leaf_ok l' \<and> l_parent l' = 0 \<and> leaf_view l' = map slot_view
        (if b then [new_slot so' x, new_slot sn' v] else [new_slot sn' v, new_slot so' x]))"
proof -
  let ?A = "mt_next w"
  let ?oka = "key_make so 0 (int (length so))" and ?ka = "key_shift (tc_ka c)"
  have hs: "key_has_suffix (tc_ka c)" using k(1-3) length_key_str [of "tc_ka c"] by (simp add: key_has_suffix_def ikey_size_def)
  have ko: "key_wf ?oka" "key_str ?oka = so" using key_make_wf [of "int (length so)" 0 so] by simp_all
  have kn: "key_wf ?ka" "key_str ?ka = sn" using key_shift_wf [OF k(1) hs] k(2,4) by simp_all
  from keys_part [OF k(5)] obtain m where m: "agree m so sn" "str_rank (drop (8 * m) so) \<noteq> str_rank (drop (8 * m) sn)" by blast
  have ld: "ld_leaf w n = Some l" using l(1) by (simp add: heap_leaf)
  from make_twig_ok [OF m ko kn refl ld l(2,3,3) refl, where nn = "tc_new_nodes c"] obtain w2 oka ka nn where
    tw: "make_twig w n n n ?oka ?ka (key_compare_key ?oka ?ka) (tc_new_nodes c) =
        Some (w2, if m = 0 then n else ?A, if m = 0 then n else ?A + (m - 1), oka, ka, key_compare_key oka ka, nn)"
    and ks: "key_wf oka" "key_str oka = drop (8 * m) so" "key_wf ka" "key_str ka = drop (8 * m) sn"
    and w2: "w2 = w\<lparr>mt_heap := mt_heap w2, mt_next := ?A + m\<rparr>" "\<forall>q < ?A. mt_heap w2 q = mt_heap w q"
      "\<forall>j < m. \<exists>l. mt_heap w2 (?A + j) = Some (Leaf l) \<and> twig_leaf l (ikey_of (drop (8 * j) so)) \<and>
         (j + 1 < m \<longrightarrow> l_lv l ! 0 = LV_layer (?A + j + 1))" by auto
  have n2: "mt_next w2 = ?A + m" "mt_root w2 = mt_root w" by (subst w2(1); simp)+
  let ?k = "key_compare_key oka ka" let ?b = "?k < 0"
  let ?tail = "if m = 0 then n else ?A + (m - 1)"
  have cmp: "?b \<longleftrightarrow> str_rank (drop (8 * m) so) < str_rank (drop (8 * m) sn)" "?k \<noteq> 0"
    using key_compare_rank [of oka "k_len ka" "k_ikey0 ka"] ks m(2) key_rank_str [OF ks(1)] key_rank_str [OF ks(3)]
    by (auto simp: key_compare_key_def key_rank_def key_wf_def)
  obtain lt where lt: "mt_heap w2 ?tail = Some (Leaf lt)" "0 < m \<longrightarrow> twig_leaf lt (ikey_of (drop (8 * (m - 1)) so))"
    "m = 0 \<longrightarrow> lt = l"
  proof (cases "m = 0")
    case True
    then show ?thesis using that [of l] w2(2) l(1,3) by simp
  next
    case False
    with w2(3) [rule_format, of "m - 1"] that show ?thesis by auto
  qed
  have tz: "?tail \<noteq> 0" "?tail < ?A + m" using l(2,3) by auto
  define ksz where "ksz = (if key_has_suffix ka \<or> key_has_suffix oka
        then nat (max 0 (key_suffix_length ka) + max 0 (key_suffix_length oka)) * (width div 2)
          + sb_overhead 1 width else 0)"
  from leaf_make_root_ok [of w2 ?tail lt ksz] lt(1) tz obtain nl0 where nl0:
    "leaf_make_root w2 ksz ?tail = Some (?A + m, (st_leaf w2 (?A + m) nl0)\<lparr>mt_next := ?A + m + 1\<rparr>)" "root_leaf nl0"
    by (auto simp: heap_leaf n2)
  have lens: "length (drop 8 (key_str oka)) \<le> max_ksuf" "length (drop 8 (key_str ka)) \<le> max_ksuf"
    using len ks by simp_all
  from new_layer_leaf_ok [OF nl0(2) ks(1,3) lens refl cmp(2), of x] obtain nl where
    nl: "new_layer_leaf nl0 oka ka ?k (LV_value x) = Some nl" "l_version nl = 0xC0000000"
    "perm_back width (l_permutation nl) = of_bool ?b"
    "\<forall>l' v. l' = nl\<lparr>l_lv := (l_lv nl)[of_bool ?b := LV_value v],
        l_permutation := fst (insert_from_back width (l_permutation nl) (of_bool ?b)), l_version := 0xC0000000\<rparr> \<longrightarrow>
      leaf_ok l' \<and> l_parent l' = 0 \<and> leaf_view l' = map slot_view
        (if ?b then [new_slot (drop (8 * m) so) x, new_slot (drop (8 * m) sn) v] else [new_slot (drop (8 * m) sn) v, new_slot (drop (8 * m) so) x])"
    unfolding ks by (elim exE conjE) (rule that)
  let ?H = "(mt_heap w2)(?A + m \<mapsto> Leaf (nl\<lparr>l_version := 0xC0000001\<rparr>))"
  let ?l' = "l\<lparr>l_lv := (l_lv l)[p := LV_layer ?A], l_keylenx := (l_keylenx l)[p := layer_keylenx],
      l_version := nv_unlock NP (nv_mark_insert NP (l_version l))\<rparr>"
  let ?W = "w2\<lparr>mt_heap := (if m = 0 then ?H else ?H(?tail \<mapsto> Leaf (lt\<lparr>l_lv := (l_lv lt)[0 := LV_layer (?A + m)]\<rparr>)))(n \<mapsto> Leaf ?l'),
     mt_next := ?A + m + 1\<rparr>"
  have l2: "mt_heap w2 n = Some (Leaf l)" using w2(2) l(1,3) by simp
  have "\<exists>c'. make_new_layer w c = Some (?W, c') \<and> tc_n c' = ?A + m \<and>
      tc_kx c' = \<lparr>kx_i = of_bool ?b, kx_p = of_bool ?b\<rparr> \<and> tc_state c' = tc_state c"
  proof (cases "m = 0")
    case True
    then show ?thesis
      using nl0(1) [unfolded ksz_def] nl(1,2) tw l2 l(3,4) p ld
      by (simp add: make_new_layer_def Let_def ld_leaf_def st_leaf_def st_node_def node_lock_def lock_root_version
          upd_version_def node_unlock_def mt_update_order fun_upd_twist)
  next
    case False
    then have ne: "?tail \<noteq> n" "?tail \<noteq> ?A + m" "?A \<noteq> n" "n \<noteq> ?A + m" "?tail = ?A + (m - 1)" using l(3) by auto
    show ?thesis
      using nl0(1) [unfolded ksz_def] nl(1,2) tw l2 l(3,4) p ld False ne lt(1)
      by (simp add: make_new_layer_def Let_def ld_leaf_def st_leaf_def st_node_def node_lock_def lock_root_version
          upd_version_def node_unlock_def mt_update_order fun_upd_twist)
  qed
  then obtain c' where c': "make_new_layer w c = Some (?W, c')" "tc_n c' = ?A + m"
    "tc_kx c' = \<lparr>kx_i = of_bool ?b, kx_p = of_bool ?b\<rparr>" "tc_state c' = tc_state c" by blast
  have H1: "mt_next ?W = ?A + m + 1" "mt_root ?W = mt_root w" "mt_heap ?W n = Some (Leaf ?l')"
    using n2 by simp_all
  have H2: "\<forall>q < ?A. q \<noteq> n \<longrightarrow> mt_heap ?W q = mt_heap w q" using w2(2) by auto
  have H3: "\<forall>j < m. \<exists>l. mt_heap ?W (?A + j) = Some (Leaf l) \<and> twig_leaf l (ikey_of (drop (8 * j) so)) \<and>
       l_lv l ! 0 = LV_layer (?A + j + 1)"
  proof (intro allI impI)
    fix j assume j: "j < m"
    have ne: "?A + j \<noteq> n" "m \<noteq> 0" using j l(3) by auto
    show "\<exists>l. mt_heap ?W (?A + j) = Some (Leaf l) \<and> twig_leaf l (ikey_of (drop (8 * j) so)) \<and>
       l_lv l ! 0 = LV_layer (?A + j + 1)"
    proof (cases "j = m - 1")
      case True
      then have "mt_heap ?W (?A + j) = Some (Leaf (lt\<lparr>l_lv := (l_lv lt)[0 := LV_layer (?A + m)]\<rparr>))" using ne by simp
      moreover have "twig_leaf lt (ikey_of (drop (8 * j) so))" using lt(2) ne(2) True by simp
      moreover from this have "length (l_lv lt) = width" unfolding twig_leaf_def leaf_ok_def by blast
      ultimately show ?thesis using twig_leaf_lv True ne(2) by (auto simp: width_def)
    next
      case False
      with j have e: "mt_heap ?W (?A + j) = mt_heap w2 (?A + j)" and "j + 1 < m" using ne by auto
      then show ?thesis unfolding e using w2(3) j by blast
    qed
  qed
  have H4: "mt_heap ?W (?A + m) = Some (Leaf (nl\<lparr>l_version := 0xC0000001\<rparr>))" using l(3) by auto
  show ?thesis
    by (intro exI [of _ m] exI [of _ ?W] exI [of _ c'] exI [of _ nl] exI [of _ ?b] exI [of _ "drop (8 * m) so"]
        exI [of _ "drop (8 * m) sn"] conjI) (fact c' m refl cmp(1) H1 H2 H3 H4 nl(3,4))+
qed

section \<open>Putting a key into a new layer\<close>

text \<open>A slot with a value becomes the slot of a layer.\<close>

lemma leaf_to_layer:
  assumes l: "leaf_ok l" "leaf_view l = map slot_view es" and i: "i < length es" "p = perm_get (l_permutation l) i"
    and l': "l' = l\<lparr>l_lv := (l_lv l)[p := LV_layer r], l_keylenx := (l_keylenx l)[p := layer_keylenx], l_version := v\<rparr>"
  shows "leaf_ok l'" "leaf_view l' = map slot_view (es[i := SLayer (slot_ikey (es ! i)) r t])"
proof -
  have sl: "leaf_slots l' = leaf_slots l" by (simp add: l' leaf_slots_def leaf_size_def)
  have bg: "leaf_bag l' = leaf_bag l" "leaf_ksuf l' = leaf_ksuf l"
    by (auto simp: l' leaf_bag_def leaf_ksuf_def fun_eq_iff split: option.splits)
  have len: "length (l_lv l) = width" "length (l_keylenx l) = width" using l(1) by (simp_all add: leaf_ok_def)
  have n: "leaf_size l = length es" using leaf_view_nth(1) [OF l] .
  have pw: "p < width" using leaf_view_nth(2) [OF l i(1)] i(2) by simp
  have nl: "\<not> keylenx_has_ksuf layer_keylenx" by code_simp
  have hk: "leaf_has_ksuf l' q = (q \<noteq> p \<and> leaf_has_ksuf l q)" if "q < width" for q
    using that len pw nl by (cases "q = p") (simp_all add: l' leaf_has_ksuf_def)
  have b: "bags_ok l' = bags_ok l" by (simp add: l' bags_ok_def split: option.splits)
  show "leaf_ok l'" unfolding leaf_ok_bags sl bg b
    using l(1) leaf_slots_distinct(2) [OF l(1)] hk by (auto simp: leaf_ok_bags) (simp_all add: l')
  show "leaf_view l' = map slot_view (es[i := SLayer (slot_ikey (es ! i)) r t])"
  proof (rule nth_equalityI)
    show "length (leaf_view l') = length (map slot_view (es[i := SLayer (slot_ikey (es ! i)) r t]))"
      by (simp add: leaf_view_def sl leaf_slots_distinct(3) [OF l(1)] n)
    fix j assume "j < length (leaf_view l')"
    then have j: "j < length es" by (simp add: leaf_view_def sl leaf_slots_distinct(3) [OF l(1)] n)
    let ?q = "perm_get (l_permutation l) j"
    have q: "?q < width" "slot_of l ?q = slot_view (es ! j)" using leaf_view_nth(2) [OF l j] by simp_all
    have v: "leaf_view l' ! j = slot_of l' ?q" using j n by (simp add: leaf_view_def sl) (simp add: leaf_slots_def)
    show "leaf_view l' ! j = map slot_view (es[i := SLayer (slot_ikey (es ! i)) r t]) ! j"
    proof (cases "j = i")
      case True
      then show ?thesis unfolding v slot_of_def bg
        using hk [OF q(1)] i(2) j len pw leaf_view_rank(1) [OF l j] by (simp add: l')
    next
      case False
      have "?q \<noteq> p"
        using leaf_slots_distinct(1,3) [OF l(1)] False i j n leaf_slots_nth [of _ l] by (metis nth_eq_iff_index_eq)
      then have "slot_of l' ?q = slot_of l ?q"
        unfolding slot_of_def bg hk [OF q(1)] by (simp add: l')
      then show ?thesis unfolding v using q(2) False j by simp
    qed
  qed
qed

lemma new_layer_tree:
  assumes "p \<noteq> 0" "so' \<noteq> sn'" "str_rank so' \<noteq> str_rank sn'" "b \<longleftrightarrow> str_rank so' < str_rank sn'"
    and "length (drop 8 so') \<le> max_ksuf" "length (drop 8 sn') \<le> max_ksuf"
    and t: "t = TLeaf p (if b then [new_slot so' x, new_slot sn' v] else [new_slot sn' v, new_slot so' x])"
  shows "wf_tree t 0 top" "tree_map t = (\<lambda>y. if y = sn' then Some v else if y = so' then Some x else None)"
    "addrs t = [p]" "root_addr t = p"
proof -
  show "wf_tree t 0 top" using assms wf_new unat_top by (auto simp: width_def)
  show "tree_map t = (\<lambda>y. if y = sn' then Some v else if y = so' then Some x else None)"
    using assms(2) by (auto simp: t slot_map_new fun_eq_iff)
  show "addrs t = [p]" "root_addr t = p" by (simp_all add: t new_slot.simps)
qed

lemma put_new_layer:
  assumes start: "tcursor_make w S = Some (w0, c0)" "find_locked w0 c0 = Some (w', c)"
    and loc: "located w1 T S w' c u s es l" and p: "0 \<le> kx_p (tc_kx c)" and st: "tc_state c = 0"
    and len: "length (drop 8 s) \<le> max_ksuf"
  shows "put_ok w S v w1 T"
proof -
  let ?n = "tc_n c" and ?A = "mt_next w1"
  obtain root par lo hi where d: "at_rest w1 root par (TLeaf ?n es)" "wf_tree (TLeaf ?n es) lo hi"
    "lo \<le> unat (ikey_of s)" "unat (ikey_of s) < hi" "ver_shape True root (l_version l)" "ver_clean (l_version l)"
    "leaf_ok l" "leaf_view l = map slot_view es" "distinct (addrs (TLeaf ?n es))"
    "tree_map T S = first_of (map slot_map es) s" using located_leaf [OF loc] by metis
  from located_slot [OF loc p] obtain i a b suf x where i: "i < length es" "es ! i = SVal a b suf x"
    "kx_p (tc_kx c) = int (perm_get (l_permutation l) i)" "rank_of (es ! i) = str_rank s"
    "kx_i (tc_kx c) = int i" "\<not> slot_matches a b suf s" using st by (metis zero_neq_one)
  let ?p = "perm_get (l_permutation l) i"
  have ws: "wf_slot (es ! i)" using d(2) i(1) by simp
  have long: "a = ikey_of s" "b = ksuf_keylenx" "8 < length s" "suf \<noteq> drop 8 s" "length suf \<le> max_ksuf"
  proof -
    have r: "a = ikey_of s" "min b 9 = min (int (length s)) 9" "0 \<le> b"
      using i(2,4) ws by (auto simp: rank_of_def str_rank_def slot_rank_eq ksuf_keylenx_def)
    show "a = ikey_of s" by (rule r(1))
    show "b = ksuf_keylenx" "8 < length s" "suf \<noteq> drop 8 s" "length suf \<le> max_ksuf"
      using r i(2,6) ws by (auto simp: slot_matches_def ksuf_keylenx_def min_def split: if_splits)
  qed
  have T: "table_ok w1 T" "sub_layer T S u s" "descend u (ikey_of s) = TLeaf ?n es" "mt_heap w1 ?n = Some (Leaf l)"
    "key_wf (tc_ka c)" "key_str (tc_ka c) = s"
    "w' = st_leaf w1 ?n (l\<lparr>l_version := l_version l OR lock_bit NP\<rparr>)"
    using loc by (simp_all add: located_def)
  have nA: "?n \<noteq> 0" "?n < ?A" using at_rest_below [OF d(1), of ?n] by simp_all
  let ?lk = "l\<lparr>l_version := l_version l OR lock_bit NP\<rparr>"
  let ?c2 = "c\<lparr>tc_original_n := ?n, tc_original_v := leaf_full_unlocked_version_value ?lk, tc_state := 2\<rparr>"
  have so: "slot_of l ?p = slot_view (SVal a b suf x)" "?p < width" using leaf_view_nth(2) [OF d(7,8) i(1)] i(2) by simp_all
  have suf: "leaf_ksuf ?lk ?p = Some suf" "l_lv ?lk ! ?p = LV_value x"
  proof -
    have k: "l_keylenx l ! ?p = ksuf_keylenx" "l_lv l ! ?p = LV_value x" using so(1) long(2) by (simp_all add: slot_of_def)
    then have h: "leaf_has_ksuf l ?p" by (simp add: leaf_has_ksuf_def keylenx_has_ksuf_def)
    have "?p \<in> set (leaf_slots l)" using i(1) leaf_view_nth(1) [OF d(7,8)] by (simp add: leaf_slots_def)
    with h d(7) have "leaf_bag l \<noteq> None" by (auto simp: leaf_ok_def)
    then have "leaf_ksuf l ?p = Some suf" using so(1) h by (auto simp: slot_of_def leaf_ksuf_def)
    then show "leaf_ksuf ?lk ?p = Some suf" "l_lv ?lk ! ?p = LV_value x" using k(2) by (simp_all add: leaf_ksuf_def leaf_bag_def split: option.splits)
  qed
  have heap': "mt_heap w' ?n = Some (Leaf ?lk)" "mt_next w' = ?A" "mt_root w' = mt_root w1"
    "\<And>q. q \<noteq> ?n \<Longrightarrow> mt_heap w' q = mt_heap w1 q" by (simp_all add: T(7))
  have nw: "?n < mt_next w'" using nA(2) by (simp only: heap'(2))
  have "kx_p (tc_kx ?c2) = int ?p" "tc_n ?c2 = ?n" "key_wf (tc_ka ?c2)" "key_str (tc_ka ?c2) = s" using i(3) T(5,6) by simp_all
  from make_new_layer_ok [OF heap'(1) nA(1) nw this(2,1) suf this(3,4) long(3) refl long(4,5) len]
  obtain m w5 c3 nl bb so' sn' where
    n: "make_new_layer w' ?c2 = Some (w5, c3)" "agree m suf (drop 8 s)" "so' = drop (8 * m) suf"
      "sn' = drop (8 * m) (drop 8 s)" "str_rank so' \<noteq> str_rank sn'" "bb \<longleftrightarrow> str_rank so' < str_rank sn'"
    and c3: "tc_n c3 = ?A + m" "tc_kx c3 = \<lparr>kx_i = of_bool bb, kx_p = of_bool bb\<rparr>" "tc_state c3 = tc_state ?c2"
    and w5: "mt_next w5 = ?A + m + 1" "mt_root w5 = mt_root w1"
      "mt_heap w5 ?n = Some (Leaf (?lk\<lparr>l_lv := (l_lv ?lk)[?p := LV_layer ?A],
        l_keylenx := (l_keylenx ?lk)[?p := layer_keylenx], l_version := nv_unlock NP (nv_mark_insert NP (l_version ?lk))\<rparr>))"
      "\<forall>q < ?A. q \<noteq> ?n \<longrightarrow> mt_heap w5 q = mt_heap w' q"
      "\<forall>j < m. \<exists>l. mt_heap w5 (?A + j) = Some (Leaf l) \<and> twig_leaf l (ikey_of (drop (8 * j) suf)) \<and>
         l_lv l ! 0 = LV_layer (?A + j + 1)"
      "mt_heap w5 (?A + m) = Some (Leaf (nl\<lparr>l_version := 0xC0000001\<rparr>))"
    and pb: "perm_back width (l_permutation nl) = of_bool bb"
    and fin: "\<forall>l' v. l' = nl\<lparr>l_lv := (l_lv nl)[of_bool bb := LV_value v],
        l_permutation := fst (insert_from_back width (l_permutation nl) (of_bool bb)), l_version := 0xC0000000\<rparr> \<longrightarrow>
      leaf_ok l' \<and> l_parent l' = 0 \<and> leaf_view l' = map slot_view
        (if bb then [new_slot so' x, new_slot sn' v] else [new_slot sn' v, new_slot so' x])"
    unfolding heap'(2,3) by (elim exE conjE) (rule that)
  define l3 where "l3 = nl\<lparr>l_lv := (l_lv nl)[of_bool bb := LV_value v],
        l_permutation := fst (insert_from_back width (l_permutation nl) (of_bool bb)), l_version := 0xC0000000\<rparr>"
  note fin = fin [rule_format, OF l3_def]
  let ?W = "st_leaf w5 (?A + m) l3"
  have ld5: "ld_leaf w5 (?A + m) = Some (nl\<lparr>l_version := 0xC0000001\<rparr>)" using w5(6) by (simp add: heap_leaf)
  have put: "mt_put w S v = Some (?W, False)"
    using start st p n(1) c3 pb
    by (cases bb) (simp_all add: mt_put_def find_insert_def T(7) tc_set_value_def tc_finish_def finish_insert_def ld5
        lock_root_version unlock_st_leaf l3_def Let_def)
  let ?t = "TLeaf (?A + m) (if bb then [new_slot so' x, new_slot sn' v] else [new_slot sn' v, new_slot so' x])"
  have lens: "length (drop 8 so') \<le> max_ksuf" "length (drop 8 sn') \<le> max_ksuf" using n(3,4) long(5) len by simp_all
  have nz: "?A + m \<noteq> 0" "so' \<noteq> sn'" using nA n(5) by auto
  note nt = new_layer_tree [OF nz n(5,6) lens, where t = ?t and x = x and v = v, OF refl]
  let ?tt = "twig_tree ?A suf m ?t"
  have tt: "wf_tree ?tt 0 top" "?A \<in> set (layer_addrs ?tt)" "addrs ?tt = [?A..<?A + m + 1]"
    "tree_map ?tt = (\<lambda>y. if y = drop 8 s then Some v else if y = suf then Some x else None)"
  proof -
    show "wf_tree ?tt 0 top" by (rule twig_tree_wf [OF nt(1,4)])
    show "?A \<in> set (layer_addrs ?tt)" by (rule twig_tree_layer [OF _ nt(4)]) simp
    show "addrs ?tt = [?A..<?A + m + 1]" unfolding twig_tree_addrs nt(3) by simp
    show "tree_map ?tt = (\<lambda>y. if y = drop 8 s then Some v else if y = suf then Some x else None)"
      by (rule twig_tree_map [OF n(2)]) (use nt(2) in \<open>simp only: n(3,4)\<close>)
  qed
  have W: "mt_next ?W = ?A + m + 1" "mt_root ?W = mt_root w1" "mt_heap ?W (?A + m) = Some (Leaf l3)"
    "\<And>q. q < ?A \<Longrightarrow> q \<noteq> ?n \<Longrightarrow> mt_heap ?W q = mt_heap w1 q"
    using w5(1,2,4) heap'(4) by simp_all
  have rest_t: "at_rest ?W True 0 ?tt"
  proof (rule twig_tree_rest)
    show "at_rest ?W True 0 ?t" using fin W(1,3) nA root_version
      by (auto simp: at_rest_leaf node_rep_def quiet_def l3_def new_slot.simps split: if_splits)
    show "\<forall>j < m. \<exists>l. mt_heap ?W (?A + j) = Some (Leaf l) \<and> twig_leaf l (ikey_of (drop (8 * j) suf)) \<and>
       l_lv l ! 0 = LV_layer (?A + j + 1)" using w5(5) by simp
  qed (use nA W(1) in simp_all)
  let ?e' = "SLayer (ikey_of s) ?A ?tt"
  let ?es' = "take i es @ ?e' # drop (Suc i) es"
  have es: "es = take i es @ es ! i # drop (Suc i) es" using id_take_nth_drop [OF i(1)] .
  have upd: "es[i := ?e'] = ?es'" using i(1) by (simp add: upd_conv_take_nth_drop)
  have we: "wf_slot ?e'" using tt(1,2) by simp
  have rk: "rank_of ?e' = rank_of (es ! i)" "rank_of (es ! i) = str_rank s"
    using i(4) long(3) by (simp_all add: rank_of_def str_rank_def slot_rank_def layer_keylenx_def)
  have sa: "slot_addrs (es ! i) = []" using i(2) by simp
  have ca: "concat (map slot_addrs es) = concat (map slot_addrs (take i es)) @ concat (map slot_addrs (drop (Suc i) es))"
    using arg_cong [OF es, of "\<lambda>es. concat (map slot_addrs es)"] sa by simp
  let ?F = "{q. ?A \<le> q}"
  have F: "?F \<inter> set (addrs T) = {}"
    using T(1) at_rest_below [of w1 True 0 T] by (fastforce simp: table_ok_def)
  have Fn: "?F \<inter> set (concat (map slot_addrs es)) = {}"
    using at_rest_below [OF d(1)] by (fastforce simp del: set_concat)
  have frame: "changes w1 ?W ({?n} \<union> ?F)" using W(1,4) by (auto simp: changes_def not_le)
  define lf where "lf = ?lk\<lparr>l_lv := (l_lv ?lk)[?p := LV_layer ?A],
        l_keylenx := (l_keylenx ?lk)[?p := layer_keylenx], l_version := nv_unlock NP (nv_mark_insert NP (l_version ?lk))\<rparr>"
  have lf: "leaf_ok lf" "leaf_view lf = map slot_view ?es'"
  proof -
    have e: "lf = l\<lparr>l_lv := (l_lv l)[?p := LV_layer ?A], l_keylenx := (l_keylenx l)[?p := layer_keylenx],
        l_version := nv_unlock NP (nv_mark_insert NP (l_version l OR lock_bit NP))\<rparr>" by (simp add: lf_def)
    have ik: "slot_ikey (es ! i) = ikey_of s" using i(2) long(1) by simp
    show "leaf_ok lf" "leaf_view lf = map slot_view ?es'"
      using leaf_to_layer(1) [OF d(7,8) i(1) refl e] leaf_to_layer(2) [OF d(7,8) i(1) refl e, of ?tt]
      unfolding ik upd by blast+
  qed
  have hn: "mt_heap ?W ?n = Some (Leaf lf)" using w5(3) nA by (simp add: lf_def)
  have uv: "nv_mark_insert NP (l_version l OR lock_bit NP) = l_version l OR lock_bit NP \<or>
      nv_mark_insert NP (l_version l OR lock_bit NP) = nv_mark_insert NP (l_version l OR lock_bit NP)" by simp
  have rest: "at_rest ?W root par (TLeaf ?n ?es')" if a: "at_rest w1 root par (TLeaf ?n es)" for root par
  proof -
    from leaf_at [OF a d(2)] T(4) have "ver_shape True root (l_version l)" "l_parent l = par" by auto
    with unlock_shape [OF this(1) uv d(6)] lf nA W(1) hn
    have "node_rep ?W (?n, root, par, VLeaf (map slot_view ?es'))" "quiet ?W ?n"
      by (simp_all add: node_rep_def quiet_def) (simp_all add: lf_def)
    moreover have "at_rest ?W True 0 u" if u: "SLayer j q u \<in> set ?es'" for j q u
    proof (cases "u = ?tt")
      case False
      then have m: "SLayer j q u \<in> set es" using u by (auto dest: in_set_takeD in_set_dropD)
      then have "at_rest w1 True 0 u" using a unfolding at_rest_leaf by blast
      moreover have "({?n} \<union> ?F) \<inter> set (addrs u) = {}" using layer_slot_addrs [OF m] d(9) Fn by auto
      ultimately show ?thesis by (rule at_rest_frame [OF _ frame])
    qed (use rest_t in simp)
    ultimately show ?thesis unfolding at_rest_leaf by blast
  qed
  have ad: "addrs (TLeaf ?n ?es') = ?n # concat (map slot_addrs (take i es)) @ [?A..<?A + m + 1] @ concat (map slot_addrs (drop (Suc i) es))"
    "addrs (TLeaf ?n es) = ?n # concat (map slot_addrs (take i es)) @ concat (map slot_addrs (drop (Suc i) es))"
    unfolding leaf_addrs_split tt(3) by (rule refl) (simp only: addrs.simps ca)
  have low: "q < ?A" if "q \<in> set (concat (map slot_addrs (take i es))) \<or> q \<in> set (concat (map slot_addrs (drop (Suc i) es)))" for q
    using Fn that unfolding ca set_append by (auto simp del: set_concat simp: not_le [symmetric])
  have "\<exists>T' u'. table_ok ?W T' \<and> grows T ?F T' \<and> tree_map T' = (tree_map T)(S := Some v) \<and>
      sub_layer T' S u' s \<and> descend u' (ikey_of s) = TLeaf ?n ?es'"
  proof (rule leaf_update [OF T(1-3) F _ rest])
    show "changes w1 ?W (set (addrs (TLeaf ?n es)) \<union> ?F)" by (rule changes_mono [OF frame]) auto
    show "wf_tree (TLeaf ?n ?es') lo hi" if "wf_tree (TLeaf ?n es) lo hi" for lo hi
      by (rule replace_wf [OF _ rk(1) we]) (use that es in simp)
    show "distinct (addrs (TLeaf ?n ?es'))" "set (addrs (TLeaf ?n ?es')) \<subseteq> set (addrs (TLeaf ?n es)) \<union> ?F"
      using d(9) nA unfolding ad by (auto simp del: set_concat dest: low [OF disjI1] low [OF disjI2])
    have "slot_map ?e' = (slot_map (es ! i))(s \<mapsto> v)"
    proof
      fix y
      show "slot_map ?e' y = ((slot_map (es ! i))(s \<mapsto> v)) y"
        using long long_string_eq [of y s] i(2) by (auto simp: tt(4) slot_matches_def)
    qed
    from replace_map [OF _ rk(1) we rk(2) this] es d(2)
    show "first_of (map slot_map ?es') = (first_of (map slot_map es))(s := Some v)" by metis
  qed
  then obtain T' where "table_ok ?W T'" "grows T ?F T'" "tree_map T' = (tree_map T)(S := Some v)" by blast
  moreover have "tree_map T S = None" using located_state [OF loc] st by simp
  ultimately show ?thesis using put W(2) by (auto simp: put_ok_def grows_def)
qed

section \<open>Properties\<close>

lemma sub_layer_length: "sub_layer t s u s' \<Longrightarrow> length s' \<le> length s"
  by (induction rule: sub_layer.induct) simp_all

text \<open>The leaf where the operation on the key works has a slot for the rank of the key, or room.\<close>

definition has_room :: "'v mt \<Rightarrow> bytes \<Rightarrow> bool" where
  "has_room w s \<longleftrightarrow>
     (case Option.bind (tcursor_make w s) (\<lambda>(w, c). find_locked w c) of
        Some (w, c) \<Rightarrow> kx_p (tc_kx c) \<ge> 0 \<or>
          (case ld_leaf w (tc_n c) of Some l \<Rightarrow> leaf_size l < width - 1 | None \<Rightarrow> False)
      | None \<Rightarrow> False)"

lemma put_table:
  assumes "table_rep w T" "length s \<le> max_ksuf" "has_room w s"
  shows "\<exists>w' T'. mt_put w s v = Some (w', tree_map T s \<noteq> None) \<and> table_rep w' T' \<and> tree_map T' = (tree_map T)(s \<mapsto> v)"
proof -
  from operation_start [OF assms(1), of s] obtain w0 c0 w1 T1 w' c u s' es l where
    o: "tcursor_make w s = Some (w0, c0)" "find_locked w0 c0 = Some (w', c)" "located w1 T1 s w' c u s' es l"
      "tree_map T1 = tree_map T" "mt_root w1 \<in> set (layer_addrs T1)" by blast
  have "sub_layer T1 s u s'" using o(3) by (simp add: located_def)
  then have len: "length (drop 8 s') \<le> max_ksuf" using sub_layer_length assms(2) by fastforce
  have "put_ok w s v w1 T1"
  proof (cases "0 \<le> kx_p (tc_kx c)")
    case True
    then show ?thesis using put_found [OF o(1-3)] put_new_layer [OF o(1-3) _ _ len] by blast
  next
    case False
    obtain root par lo hi where l: "leaf_ok l" "leaf_view l = map slot_view es" using located_leaf [OF o(3)] by metis
    have "ld_leaf w' (tc_n c) = Some (l\<lparr>l_version := l_version l OR lock_bit NP\<rparr>)"
      using o(3) by (simp add: located_def)
    then have "leaf_size l < width - 1" using assms(3) o(1,2) False by (simp add: has_room_def leaf_size_def)
    then show ?thesis using put_room [OF o(1-3) _ len] leaf_view_nth(1) [OF l] False by simp
  qed
  from put_ok_rep [OF this o(4,5)] show ?thesis .
qed

lemma room_empty:
  fixes w :: "'v mt"
  assumes "table_rep w (TLeaf a [])"
  shows "has_room w s"
proof -
  from operation_start [OF assms, of s] obtain w0 c0 w1 T1 w' c u s' es l where
    o: "tcursor_make w s = Some (w0, c0)" "find_locked w0 c0 = Some (w', c)"
      "tc_n c \<in> set (addrs (TLeaf a ([] :: 'v slot list)))"
      "map_option leaf_frame (ld_leaf w' (tc_n c)) = map_option leaf_frame (ld_leaf w (tc_n c))" by blast
  have a: "at_rest w True 0 (TLeaf a ([] :: 'v slot list))" "wf_tree (TLeaf a ([] :: 'v slot list)) 0 top"
    using assms by (simp_all add: table_rep_def)
  from leaf_at [OF this] obtain l where l: "mt_heap w a = Some (Leaf l)" "leaf_ok l"
    "leaf_view l = map slot_view ([] :: 'v slot list)" by metis
  have "leaf_size l = 0" using leaf_view_nth(1) [OF l(2,3)] by simp
  then obtain l' where "ld_leaf w' (tc_n c) = Some l'" "leaf_size l' = 0"
    using o(3,4) l(1) by (auto simp: ld_leaf_def leaf_frame_def leaf_size_def)
  then show ?thesis using o(1,2) by (auto simp: has_room_def width_def)
qed

lemma empty_leaf_map: "tree_map (TLeaf a []) = Map.empty"
  by (simp add: fun_eq_iff)





text \<open>C6: putting a key that is there always succeeds, however full its leaf is, and replaces its
  value.\<close>

theorem put_overwrites:
  assumes "table_rep w T" "tree_map T s \<noteq> None"
  shows "\<exists>w' T'. mt_put w s v = Some (w', True) \<and> table_rep w' T' \<and> tree_map T' = (tree_map T)(s \<mapsto> v)"
  by (rule put_present [OF assms])

theorem put_overwrites_witness:
  "\<exists>(w :: nat mt) w' T'. mt_put w [1, 2] 8 = Some (w', True) \<and> table_rep w' T' \<and> tree_map T' [1, 2] = Some 8"
proof -
  obtain w :: "nat mt" where w: "table_rep w (TLeaf (mt_next (mt_empty :: nat mt)) [])"
    using initialize_rep [of "mt_empty :: nat mt"] by (auto simp: mt_empty_def)
  obtain w' T' where p: "table_rep w' T'" "tree_map T' = (tree_map (TLeaf (mt_next (mt_empty :: nat mt)) []))([1, 2] \<mapsto> (7 :: nat))"
    using put_table [OF w _ room_empty [OF w], of "[1, 2]" 7] by (auto simp: max_ksuf_def)
  then have "tree_map T' [1, 2] \<noteq> None" by simp
  from put_overwrites [OF p(1) this, of 8] show ?thesis by (metis fun_upd_same)
qed

end
