(* ===== verification/MT_Erase.thy ===== *)
theory MT_Erase
  imports MT_New_Layer
begin

text \<open>
  Searching with a lock and removing are right: \<open>find_locked\<close> returns with exactly the leaf of
  the key locked, removing an absent key changes nothing, and removing a key whose leaf
  stays takes exactly that key out of the map.
\<close>

section \<open>Locking and unlocking\<close>

lemma locked_unlock:
  assumes "located w T s w' c u s' es l"
  shows "node_unlock w' (tc_n c) = Some w"
proof -
  have w': "mt_heap w (tc_n c) = Some (Leaf l)" "w' = st_leaf w (tc_n c) (l\<lparr>l_version := l_version l OR lock_bit NP\<rparr>)"
    using assms by (simp_all add: located_def)
  obtain root where "ver_shape True root (l_version l)" "ver_clean (l_version l)" using located_leaf [OF assms] by metis
  then have "nv_unlock NP (l_version l OR lock_bit NP) = l_version l" using unlock_unchanged by (simp add: ver_shape_def)
  then have "node_unlock w' (tc_n c) = Some (st_leaf w (tc_n c) l)" by (simp add: w'(2) unlock_st_leaf)
  moreover have "st_leaf w (tc_n c) l = w" using w'(1) by (simp add: st_leaf_def st_node_def fun_upd_idem)
  ultimately show ?thesis by simp
qed

section \<open>Taking a slot out\<close>

lemma list_del_split: "list_del i es = take i es @ drop (Suc i) es"
  by (simp add: list_del_def)

lemma delete_wf:
  assumes "wf_tree (TLeaf p es) lo hi"
  shows "wf_tree (TLeaf p (list_del i es)) lo hi"
proof (cases "i < length es")
  case True
  have es: "es = take i es @ es ! i # drop (Suc i) es" using id_take_nth_drop [OF True] .
  have "wf_tree (TLeaf p (take i es @ es ! i # drop (Suc i) es)) lo hi" using assms es by simp
  then have "wf_tree (TLeaf p (take i es @ drop (Suc i) es)) lo hi" by (auto simp: sorted_wrt_append)
  then show ?thesis by (simp only: list_del_split)
next
  case False
  with assms show ?thesis by (simp add: list_del_split)
qed

lemma delete_map:
  assumes wf: "wf_tree (TLeaf p es) lo hi" and i: "i < length es" "es ! i = SVal a b suf x" "slot_matches a b suf s"
  shows "first_of (map slot_map (list_del i es)) = (first_of (map slot_map es))(s := None)"
proof
  fix y
  have es: "es = take i es @ es ! i # drop (Suc i) es" using id_take_nth_drop [OF i(1)] .
  have si: "slot_map (es ! i) y = (if y = s then Some x else None)"
    using slot_matches_unique [OF i(3), of y] by (simp add: i(2))
  have r: "rank_of (es ! i) = str_rank s"
  proof (rule slot_map_rank)
    show "wf_slot (es ! i)" using wf i(1) by simp
    show "slot_map (es ! i) s \<noteq> None" using i(3) by (simp add: i(2))
  qed
  have other: "slot_map e s = None" if e: "e \<in> set (take i es) \<or> e \<in> set (drop (Suc i) es)" for e
  proof (rule ccontr)
    assume "slot_map e s \<noteq> None"
    moreover have "wf_slot e" using wf e by (auto dest: in_set_takeD in_set_dropD)
    ultimately have re: "rank_of e = rank_of (es ! i)" using slot_map_rank [of e s] r by simp
    have "wf_tree (TLeaf p (take i es @ es ! i # drop (Suc i) es)) lo hi" using wf es by simp
    then have "sorted_wrt (<) (map rank_of (take i es) @ rank_of (es ! i) # map rank_of (drop (Suc i) es))" by simp
    then show False using e re by (auto simp: sorted_wrt_append)
  qed
  have f: "first_of (map slot_map (take i es)) s = None" "first_of (map slot_map (drop (Suc i) es)) s = None"
    unfolding first_of_none using other by auto
  have "first_of (map slot_map es) y = first_of (map slot_map (take i es) @ slot_map (es ! i) # map slot_map (drop (Suc i) es)) y"
    using es by (metis list.simps(9) map_append)
  then show "first_of (map slot_map (list_del i es)) y = ((first_of (map slot_map es))(s := None)) y"
    using f si by (auto simp: list_del_split first_of_append split: option.splits)
qed

text \<open>What \<open>finish_remove\<close> does to the leaf.\<close>

lemma leaf_delete:
  assumes l: "leaf_ok l" "leaf_view l = map slot_view es" and i: "i < length es"
    and l': "l' = l\<lparr>l_permutation := remove (l_permutation l) i, l_modstate := m, l_version := v\<rparr>" "m \<noteq> modstate_deleted_layer"
  shows "leaf_ok l'" "leaf_view l' = map slot_view (list_del i es)"
proof -
  have w: "perm_wf width (l_permutation l)" using l(1) by (simp add: leaf_ok_def)
  have i': "i < perm_size (l_permutation l)" using i leaf_view_nth(1) [OF l] by (simp add: leaf_size_def)
  have w': "perm_wf width (l_permutation l')" using perm_wf_remove [OF w i'] l' by simp
  have sl: "leaf_slots l' = list_del i (leaf_slots l)"
    unfolding leaf_slots_live [OF w'] leaf_slots_live [OF w] using live_remove(1) [OF w i'] l' by simp
  have same: "leaf_has_ksuf l' = leaf_has_ksuf l" "leaf_bag l' = leaf_bag l" "leaf_ksuf l' = leaf_ksuf l"
    by (auto simp: l' leaf_has_ksuf_def leaf_bag_def leaf_ksuf_def fun_eq_iff split: option.splits)
  have so: "slot_of l' = slot_of l" by (rule ext) (simp add: slot_of_def same, simp add: l')
  have b: "bags_ok l'" using l(1) by (simp add: leaf_ok_bags bags_ok_def l' split: option.splits)
  have "set (leaf_slots l') \<subseteq> set (leaf_slots l)"
    unfolding sl list_del_split by (auto dest: in_set_takeD in_set_dropD)
  then show "leaf_ok l'" unfolding leaf_ok_bags same using l(1) w' b l'(2) by (auto simp: leaf_ok_bags) (simp_all add: l')
  show "leaf_view l' = map slot_view (list_del i es)"
  proof -
    have "leaf_view l' = list_del i (leaf_view l)" unfolding leaf_view_def so sl map_list_del ..
    then show ?thesis by (simp only: l(2) map_list_del)
  qed
qed

section \<open>Removing a key from a leaf that stays\<close>

definition remove_ok :: "'v mt \<Rightarrow> bytes \<Rightarrow> 'v mt \<Rightarrow> 'v tree \<Rightarrow> bool" where
  "remove_ok w s w1 T \<longleftrightarrow> (\<exists>w' T'. mt_remove w s = Some (w', tree_map T s \<noteq> None) \<and> table_ok w' T' \<and>
     set (layer_addrs T) \<subseteq> set (layer_addrs T') \<and> mt_root w' = mt_root w1 \<and> tree_map T' = (tree_map T)(s := None))"

lemma remove_missing:
  assumes start: "tcursor_make w S = Some (w0, c0)" "find_locked w0 c0 = Some (w', c)"
    and loc: "located w1 T S w' c u s es l" and st: "tc_state c = 0"
  shows "remove_ok w S w1 T"
proof -
  have "ld_leaf w' (tc_n c) = Some (l\<lparr>l_version := l_version l OR lock_bit NP\<rparr>)"
    using loc by (simp add: located_def)
  then have "mt_remove w S = Some (w1, False)"
    using start st locked_unlock [OF loc] by (auto simp: mt_remove_def tc_finish_def Let_def split: if_splits)
  moreover have "tree_map T S = None" using located_state [OF loc] st by simp
  moreover have "table_ok w1 T" using loc by (simp add: located_def)
  ultimately show ?thesis unfolding remove_ok_def by (intro exI [of _ w1] exI [of _ T]) (auto simp: fun_eq_iff)
qed

lemma remove_stays:
  assumes start: "tcursor_make w S = Some (w0, c0)" "find_locked w0 c0 = Some (w', c)"
    and loc: "located w1 T S w' c u s es l" and st: "tc_state c \<noteq> 0"
    and stays: "1 < leaf_size l \<or> l_prev l = 0"
  shows "remove_ok w S w1 T"
proof -
  have p: "0 \<le> kx_p (tc_kx c)" using loc st by (auto simp: located_def split: if_splits)
  from located_slot [OF loc p] obtain i a b suf x where i: "i < length es" "es ! i = SVal a b suf x"
    "kx_p (tc_kx c) = int (perm_get (l_permutation l) i)" "rank_of (es ! i) = str_rank s" "kx_i (tc_kx c) = int i"
    "tc_state c = (if slot_matches a b suf s then 1 else 0)" by metis
  have mt: "slot_matches a b suf s" "tc_state c = 1" using i(6) st by (auto split: if_splits)
  obtain root par lo hi where l: "wf_tree (TLeaf (tc_n c) es) lo hi" "ver_shape True root (l_version l)"
    "ver_clean (l_version l)" "leaf_ok l" "leaf_view l = map slot_view es"
    "tree_map T S = first_of (map slot_map es) s" using located_leaf [OF loc] by metis
  have n: "leaf_size l = length es" using leaf_view_nth(1) [OF l(4,5)] .
  let ?x = "if l_modstate l = modstate_insert then nv_mark_insert NP (l_version l OR lock_bit NP) else l_version l OR lock_bit NP"
  let ?m = "if l_modstate l = modstate_insert then modstate_remove else l_modstate l"
  let ?l' = "l\<lparr>l_permutation := remove (l_permutation l) i, l_modstate := ?m, l_version := nv_unlock NP ?x\<rparr>"
  have x: "?x = l_version l OR lock_bit NP \<or> ?x = nv_mark_insert NP (l_version l OR lock_bit NP)" by auto
  have m: "?m \<noteq> modstate_deleted_layer" using l(4) by (simp add: leaf_ok_def)
  note ld = leaf_delete [OF l(4,5) i(1) refl m, of "nv_unlock NP ?x"]
  have w': "w' = st_leaf w1 (tc_n c) (l\<lparr>l_version := l_version l OR lock_bit NP\<rparr>)" using loc by (simp add: located_def)
  have fr: "leaf_finish_remove (l\<lparr>l_version := l_version l OR lock_bit NP\<rparr>) i =
      l\<lparr>l_permutation := remove (l_permutation l) i, l_version := ?x, l_modstate := ?m\<rparr>"
    by (simp add: leaf_finish_remove_def)
  have sz: "leaf_size (l\<lparr>l_permutation := remove (l_permutation l) i, l_version := ?x, l_modstate := ?m\<rparr>) = leaf_size l - 1"
    using i(1) n perm_size_remove [of i "l_permutation l"] by (simp add: leaf_size_def)
  let ?W = "st_leaf w1 (tc_n c) ?l'"
  have "\<exists>gc. mt_remove w S = Some (?W\<lparr>mt_gc := gc\<rparr>, True)"
  proof (cases "leaf_size l = 1")
    case False
    have "leaf_size l - 1 \<noteq> 0" using False i(1) n by simp
    then have "finish_remove w' c = Some (st_leaf w1 (tc_n c)
        (l\<lparr>l_permutation := remove (l_permutation l) i, l_version := ?x, l_modstate := ?m\<rparr>), False)"
      unfolding finish_remove_def w' using fr sz i(5) by (simp add: Let_def)
    then have "mt_remove w S = Some (?W, True)"
      using start mt(2) by (simp add: mt_remove_def tc_finish_def unlock_st_leaf Let_def)
    then show ?thesis by (intro exI [of _ "mt_gc ?W"]) simp
  next
    case True
    then have pv: "l_prev l = 0" using stays by simp
    let ?l1 = "l\<lparr>l_permutation := remove (l_permutation l) i, l_version := ?x, l_modstate := ?m\<rparr>"
    obtain gc where "finish_remove w' c = Some ((st_leaf w1 (tc_n c) ?l1)\<lparr>mt_gc := gc\<rparr>, False)"
    proof -
      have "leaf_size ?l1 = 0" using True sz by simp
      then have "finish_remove w' c = remove_leaf (st_leaf w1 (tc_n c) ?l1) (tc_n c) (tc_root c) (key_prefix_string (tc_ka c))"
        unfolding finish_remove_def w' using fr i(5) by (simp add: Let_def)
      also have "\<dots> = Some (if l_next l = 0 \<and> key_prefix_string (tc_ka c) \<noteq> []
          then (st_leaf w1 (tc_n c) ?l1)\<lparr>mt_gc := mt_gc w1 @ [(tc_root c, key_prefix_string (tc_ka c))]\<rparr>
          else (st_leaf w1 (tc_n c) ?l1)\<lparr>mt_gc := mt_gc w1\<rparr>, False)"
        using pv by (simp add: remove_leaf_def st_leaf_def st_node_def ld_leaf_def)
      finally show thesis using that by (auto split: if_splits)
    qed
    then have "mt_remove w S = Some (?W\<lparr>mt_gc := gc\<rparr>, True)"
      using start mt(2) by (simp add: mt_remove_def tc_finish_def st_leaf_def st_node_def ld_leaf_def node_unlock_def upd_version_def Let_def)
    then show ?thesis by blast
  qed
  then obtain gc where rm: "mt_remove w S = Some (?W\<lparr>mt_gc := gc\<rparr>, True)" by blast
  have dm: "first_of (map slot_map (list_del i es)) = (first_of (map slot_map es))(s := None)"
    by (rule delete_map [OF l(1) i(1,2) mt(1)])
  have "\<exists>T'. table_ok ?W T' \<and> grows T {} T' \<and> tree_map T' = (tree_map T)(S := None)"
  proof (rule located_store [OF loc _ _ _ ld _ _ _ dm])
    show "ver_clean (l_version ?l')" using unlock_shape(2) [OF l(2) x l(3)] by simp
    show "ver_shape True root (l_version ?l')" if "ver_shape True root (l_version l)" for root
      using unlock_shape(1) [OF that x l(3)] by simp
    show "\<exists>i r. SLayer i r t \<in> set es" if "SLayer j r t \<in> set (list_del i es)" for j r t
      using that by (auto simp: list_del_split dest: in_set_takeD in_set_dropD)
    show "concat (map slot_addrs (list_del i es)) = concat (map slot_addrs es)"
      using arg_cong [OF id_take_nth_drop [OF i(1)], of "\<lambda>es. concat (map slot_addrs es)"] i(2) by (simp add: list_del_split)
    show "wf_tree (TLeaf (tc_n c) (list_del i es)) lo hi" if "wf_tree (TLeaf (tc_n c) es) lo hi" for lo hi
      by (rule delete_wf [OF that])
  qed simp
  moreover have "table_ok (?W\<lparr>mt_gc := gc\<rparr>) T' = table_ok ?W T'" for T'
    by (simp add: table_ok_def at_rest_def node_rep_def quiet_def)
  moreover have "tree_map T S \<noteq> None" using located_state [OF loc] st by simp
  ultimately show ?thesis using rm by (auto simp: remove_ok_def grows_def)
qed

section \<open>Properties\<close>

lemma remove_ok_rep:
  assumes "remove_ok w s w1 T1" "tree_map T1 = tree_map T" "mt_root w1 \<in> set (layer_addrs T1)"
  shows "\<exists>w' T'. mt_remove w s = Some (w', tree_map T s \<noteq> None) \<and> table_rep w' T' \<and> tree_map T' = (tree_map T)(s := None)"
  using assms unfolding remove_ok_def table_rep_ok by (metis subsetD)

text \<open>The leaf where the operation on the key works keeps a slot without the key, or is the
  first leaf of its layer.\<close>

definition leaf_stays :: "'v mt \<Rightarrow> bytes \<Rightarrow> bool" where
  "leaf_stays w s \<longleftrightarrow>
     (case Option.bind (tcursor_make w s) (\<lambda>(w, c). find_locked w c) of
        Some (w, c) \<Rightarrow> tc_state c = 0 \<or>
          (case ld_leaf w (tc_n c) of Some l \<Rightarrow> leaf_size l > 1 \<or> l_prev l = 0 | None \<Rightarrow> False)
      | None \<Rightarrow> False)"

lemma remove_table:
  assumes "table_rep w T" "leaf_stays w s \<or> tree_map T s = None"
  shows "\<exists>w' T'. mt_remove w s = Some (w', tree_map T s \<noteq> None) \<and> table_rep w' T' \<and> tree_map T' = (tree_map T)(s := None)"
proof -
  from operation_start [OF assms(1), of s] obtain w0 c0 w1 T1 w' c u s' es l where
    o: "tcursor_make w s = Some (w0, c0)" "find_locked w0 c0 = Some (w', c)" "located w1 T1 s w' c u s' es l"
      "tree_map T1 = tree_map T" "mt_root w1 \<in> set (layer_addrs T1)" by blast
  have "remove_ok w s w1 T1"
  proof (cases "tc_state c = 0")
    case True
    then show ?thesis by (rule remove_missing [OF o(1-3)])
  next
    case False
    then have "tree_map T s \<noteq> None" using located_state [OF o(3)] o(4) by simp
    then have "leaf_stays w s" using assms(2) by metis
    moreover have "ld_leaf w' (tc_n c) = Some (l\<lparr>l_version := l_version l OR lock_bit NP\<rparr>)"
      using o(3) by (simp add: located_def)
    ultimately have "1 < leaf_size l \<or> l_prev l = 0" using o(1,2) False by (simp add: leaf_stays_def leaf_size_def)
    then show ?thesis by (rule remove_stays [OF o(1-3) False])
  qed
  from remove_ok_rep [OF this o(4,5)] show ?thesis .
qed

text \<open>A table with one key, whatever the key is.\<close>

lemma one_key_table:
  assumes "length (drop 8 s) \<le> max_ksuf"
  shows "\<exists>(w :: 'v mt) l. table_rep w (TLeaf 1 [new_slot s v]) \<and> ld_leaf w 1 = Some l \<and> l_prev l = 0"
proof -
  let ?l0 = "\<lparr>l_version = 0xC0000000, l_extrasize64 = 0, l_modstate = modstate_insert,
       l_keylenx = replicate width 0, l_permutation = make_empty width,
       l_ikey0 = replicate width 0, l_lv = replicate width LV_empty, l_ksuf = None,
       l_next = 0, l_prev = 0, l_parent = 0, l_phantom_epoch = 0, l_iksuf = None\<rparr> :: 'v leaf"
  have w0: "perm_wf width (make_empty width)" by (simp add: width_def perm_wf_make_empty)
  have "root_leaf ?l0" using w0 by (simp add: root_leaf_def leaf_ok_bags bags_ok_def leaf_slots_empty)
  from root_leaf_init [OF this] have i0: "init_ok ?l0 []" .
  have "key_wf (key_make s 0 (int (length s)))" "key_str (key_make s 0 (int (length s))) = s"
    using key_make_wf [of "int (length s)" 0 s] by simp_all
  with assign_initialize_ok [OF i0, of 0 "key_make s 0 (int (length s))"] assms obtain l1 where
    l1: "init_ok l1 [key_view s LV_empty]" "same_head ?l0 l1" by (auto simp: width_def)
  let ?l2 = "l1\<lparr>l_lv := (l_lv l1)[0 := LV_value v]\<rparr>"
  have l2: "init_ok ?l2 [key_view s (LV_value v)]"
    using init_set_lv [OF l1(1), of 0 "LV_value v"] by (simp add: key_view_def)
  let ?l3 = "?l2\<lparr>l_permutation := make_sorted width 1\<rparr>"
  have m: "l_modstate ?l2 \<noteq> modstate_deleted_layer" and h: "l_version ?l3 = 0xC0000000" "l_prev ?l3 = 0" "l_parent ?l3 = 0"
    using l1(2) by (simp_all add: same_head_def)
  have e: "?l3 = ?l2\<lparr>l_permutation := make_sorted width 1, l_version := l_version ?l2, l_next := l_next ?l2,
      l_prev := l_prev ?l2, l_parent := l_parent ?l2\<rparr>" by simp
  from init_publish [OF l2 sorted_one(1) _ m e] sorted_one(2)
  have "leaf_ok ?l3" "leaf_view ?l3 = [slot_view (new_slot s v)]" by (simp_all add: key_view_new del: One_nat_def)
  then have "table_rep \<lparr>mt_heap = [1 \<mapsto> Leaf ?l3], mt_next = 2, mt_root = 1, mt_limbo = [], mt_gc = []\<rparr>
      (TLeaf 1 [new_slot s v])"
    using h root_version wf_new [OF assms] unat_top
    by (auto simp: table_rep_def at_rest_leaf node_rep_def quiet_def new_slot.simps width_def)
  moreover have "ld_leaf \<lparr>mt_heap = [1 \<mapsto> Leaf ?l3], mt_next = 2, mt_root = 1, mt_limbo = [], mt_gc = []\<rparr> 1 = Some ?l3"
    by (simp add: ld_leaf_def)
  ultimately show ?thesis using h(2) by blast
qed

lemma one_key_map: "tree_map (TLeaf p [new_slot s v]) = [s \<mapsto> v]"
  by (auto simp: slot_map_new fun_eq_iff)

lemma one_key_stays:
  assumes "table_rep w (TLeaf 1 [new_slot k v])" "ld_leaf w 1 = Some l" "l_prev l = 0"
  shows "leaf_stays w s"
proof -
  from operation_start [OF assms(1), of s] obtain w0 c0 w1 T1 w' c u s' es l0 where
    o: "tcursor_make w s = Some (w0, c0)" "find_locked w0 c0 = Some (w', c)" "located w1 T1 s w' c u s' es l0"
      "tc_n c \<in> set (addrs (TLeaf 1 [new_slot k v]))"
      "map_option leaf_frame (ld_leaf w' (tc_n c)) = map_option leaf_frame (ld_leaf w (tc_n c))" by blast
  let ?l = "l0\<lparr>l_version := l_version l0 OR lock_bit NP\<rparr>"
  have "ld_leaf w' (tc_n c) = Some ?l" using o(3) by (simp add: located_def)
  moreover have "tc_n c = 1" using o(4) by (simp add: new_slot.simps)
  ultimately show ?thesis using o(1,2,5) assms(2,3) by (simp add: leaf_stays_def leaf_frame_def)
qed

text \<open>C4: removal is correct as long as the leaf stays. On a table at rest, \<open>remove\<close> of a key whose
  leaf keeps another slot or is the first of its layer always returns; it reports whether
  the key was there, and the table it leaves at rest maps that key to nothing and every
  other key to what it had.\<close>

theorem remove_key_correct:
  assumes "table_rep w T" "leaf_stays w s"
  shows "\<exists>w' T'. mt_remove w s = Some (w', tree_map T s \<noteq> None) \<and> table_rep w' T' \<and> tree_map T' = (tree_map T)(s := None)"
  using remove_table [OF assms(1)] assms(2) by blast

text \<open>C7: removing an absent key always succeeds, is reported, and leaves every key as it was.\<close>

theorem remove_absent:
  assumes "table_rep w T" "tree_map T s = None"
  shows "\<exists>w'. mt_remove w s = Some (w', False) \<and> (\<forall>s'. mt_get w' s' = mt_get w s')"
proof -
  obtain w' T' where r: "mt_remove w s = Some (w', False)" "table_rep w' T'" "tree_map T' = (tree_map T)(s := None)"
    using remove_table [OF assms(1), of s] assms(2) by auto
  moreover have "tree_map T' = tree_map T" using r(3) assms(2) by auto
  ultimately show ?thesis using table_get [OF r(2)] table_get [OF assms(1)] by simp
qed

theorem remove_absent_witness:
  "\<exists>(w :: nat mt) w'. mt_remove w [1, 2] = Some (w', False) \<and> mt_get w' [3] = mt_get w [3]"
proof -
  obtain w :: "nat mt" where w: "table_rep w (TLeaf (mt_next (mt_empty :: nat mt)) [])"
    using initialize_rep [of "mt_empty :: nat mt"] by (auto simp: mt_empty_def)
  have "tree_map (TLeaf (mt_next (mt_empty :: nat mt)) ([] :: nat slot list)) [1, 2] = None" by simp
  from remove_absent [OF w this] show ?thesis by blast
qed



theorem remove_key_correct_witness:
  "\<exists>(w :: nat mt) w' T'. mt_remove w [1, 2] = Some (w', True) \<and> table_rep w' T' \<and> tree_map T' = Map.empty"
proof -
  obtain w :: "nat mt" and l where w: "table_rep w (TLeaf 1 [new_slot [1, 2] 7])" "ld_leaf w 1 = Some l" "l_prev l = 0"
    using one_key_table [of "[1, 2]" 7] by (auto simp: max_ksuf_def)
  have "([[1, 2] \<mapsto> 7])([1, 2] := None) = (Map.empty :: bytes \<Rightarrow> nat option)" by simp
  with remove_key_correct [OF w(1) one_key_stays [OF w], of "[1, 2]"] show ?thesis unfolding one_key_map by auto
qed

end
