(* ===== verification/Kv_Thread.thy ===== *)
theory Kv_Thread
  imports Circular_Int
begin

text \<open>
  \<^verbatim>\<open>kvthread.hh\<close>, \<^verbatim>\<open>kvthread.cc\<close> and the two epoch counters of \<^verbatim>\<open>mtd.cc\<close>: the limbo lists in
  which a thread keeps the memory it has unlinked until no reader can hold it, the memory
  pools, and the timestamps of a thread.

  A limbo group is an array used from \<open>head\<close> to \<open>tail\<close>; an element with a null pointer is a
  marker that carries the epoch of the elements after it.  The chain of groups from
  \<open>limbo_head_\<close> is a list, and \<open>limbo_tail_\<close> a position in it.  The union of an element is a
  datatype: reading the member that was not written last is a failure (\<open>None\<close>), as is a failed
  \<open>assert\<close>.  Running a callback is a parameter: it returns the \<open>record_rcu\<close> calls it makes,
  with the value of the global epoch each loads, and the store after it.
\<close>

type_synonym addr = u64
type_synonym memtag = u32
type_synonym epoch = u64

section \<open>Limbo groups\<close>

datatype limbo_u = U_tag memtag | U_epoch epoch

record limbo_element =
  le_ptr :: addr
  le_u :: limbo_u

definition limbo_capacity :: nat where
  "limbo_capacity = (4076 - 8 - 8) div 16"

record limbo_group =
  lg_head :: nat
  lg_tail :: nat
  lg_epoch :: epoch
  lg_e :: "limbo_element list"

text \<open>The constructor leaves the epoch and the elements uninitialised.  They are written before
  they are read, and nothing below depends on the zeros given here.\<close>

definition limbo_group_make :: limbo_group where
  "limbo_group_make = \<lparr>lg_head = 0, lg_tail = 0, lg_epoch = 0,
     lg_e = replicate limbo_capacity \<lparr>le_ptr = 0, le_u = U_epoch 0\<rparr>\<rparr>"

definition first_epoch :: "limbo_group \<Rightarrow> epoch option" where
  "first_epoch g =
     (if lg_head g = lg_tail g then None
      else case le_u (lg_e g ! lg_head g) of U_epoch e \<Rightarrow> Some e | U_tag _ \<Rightarrow> None)"

definition push_back :: "limbo_group \<Rightarrow> addr \<Rightarrow> memtag \<Rightarrow> epoch \<Rightarrow> limbo_group option" where
  "push_back g p tag epoch =
     (if lg_tail g + 2 > limbo_capacity then None
      else let g = (if lg_head g = lg_tail g \<or> lg_epoch g \<noteq> epoch
                    then g\<lparr>lg_e := (lg_e g)[lg_tail g := \<lparr>le_ptr = 0, le_u = U_epoch epoch\<rparr>],
                           lg_epoch := epoch, lg_tail := lg_tail g + 1\<rparr>
                    else g)
        in Some (g\<lparr>lg_e := (lg_e g)[lg_tail g := \<lparr>le_ptr = p, le_u = U_tag tag\<rparr>],
                   lg_tail := lg_tail g + 1\<rparr>))"

section \<open>Thread state\<close>

text \<open>The store holds the heads of the pools' free lists, the first word of every free piece,
  which links the list, and the rest of the memory the callbacks and \<open>free\<close> work on.\<close>

record 'w store =
  st_pool :: "addr list"
  st_word :: "addr \<Rightarrow> addr"
  st_world :: 'w

record 'w threadinfo =
  ti_purpose :: int
  ti_index :: int
  ti_gc_epoch :: epoch
  ti_perform_gc_epoch :: epoch
  ti_limbo :: "limbo_group list"
  ti_tail :: nat
  ti_ts :: u64
  ti_store :: "'w store"

definition pool_max_nlines :: nat where "pool_max_nlines = 20"
definition pool_mask :: memtag where "pool_mask = 0xFF"
definition cache_line_size :: nat where "cache_line_size = 64"
definition rcu_free_count :: nat where "rcu_free_count = 128"

definition threadinfo_make :: "int \<Rightarrow> int \<Rightarrow> (addr \<Rightarrow> addr) \<Rightarrow> 'w \<Rightarrow> 'w threadinfo" where
  "threadinfo_make purpose index mem w =
     \<lparr>ti_purpose = purpose, ti_index = index, ti_gc_epoch = 0, ti_perform_gc_epoch = 0,
      ti_limbo = [limbo_group_make], ti_tail = 0, ti_ts = 2,
      ti_store = \<lparr>st_pool = replicate pool_max_nlines 0, st_word = mem, st_world = w\<rparr>\<rparr>"

definition refill_rcu :: "'w threadinfo \<Rightarrow> 'w threadinfo option" where
  "refill_rcu ti =
     (let ti = (if Suc (ti_tail ti) = length (ti_limbo ti)
                then ti\<lparr>ti_limbo := ti_limbo ti @ [limbo_group_make]\<rparr> else ti);
          ti = ti\<lparr>ti_tail := Suc (ti_tail ti)\<rparr>;
          g = ti_limbo ti ! ti_tail ti
      in if lg_head g = 0 \<and> lg_tail g = 0 then Some ti else None)"

definition record_rcu :: "'w threadinfo \<Rightarrow> addr \<Rightarrow> memtag \<Rightarrow> epoch \<Rightarrow> 'w threadinfo option" where
  "record_rcu ti p tag globalepoch = do {
     ti \<leftarrow> (if lg_tail (ti_limbo ti ! ti_tail ti) + 2 > limbo_capacity then refill_rcu ti else Some ti);
     g \<leftarrow> push_back (ti_limbo ti ! ti_tail ti) p tag globalepoch;
     Some (ti\<lparr>ti_limbo := (ti_limbo ti)[ti_tail ti := g]\<rparr>) }"

fun record_all :: "'w threadinfo \<Rightarrow> (addr \<times> memtag \<times> epoch) list \<Rightarrow> 'w threadinfo option" where
  "record_all ti [] = Some ti"
| "record_all ti ((p, tag, e) # xs) = do { ti \<leftarrow> record_rcu ti p tag e; record_all ti xs }"

definition pool_push :: "nat \<Rightarrow> addr \<Rightarrow> 'w store \<Rightarrow> 'w store" where
  "pool_push i p st = st\<lparr>st_pool := (st_pool st)[i := p], st_word := (st_word st)(p := st_pool st ! i)\<rparr>"

type_synonym 'w callback = "addr \<Rightarrow> 'w store \<Rightarrow> (addr \<times> memtag \<times> epoch) list \<times> 'w store"

definition free_rcu ::
  "(addr \<Rightarrow> 'w \<Rightarrow> 'w) \<Rightarrow> 'w callback \<Rightarrow> 'w threadinfo \<Rightarrow> addr \<Rightarrow> memtag \<Rightarrow> 'w threadinfo option" where
  "free_rcu fr cb ti p tag =
     (if tag AND pool_mask = 0
      then Some (ti\<lparr>ti_store := (ti_store ti)\<lparr>st_world := fr p (st_world (ti_store ti))\<rparr>\<rparr>)
      else if tag = - 1
      then (let (calls, st) = cb p (ti_store ti) in record_all (ti\<lparr>ti_store := st\<rparr>) calls)
      else (let nl = unat (tag AND pool_mask)
            in if nl \<le> pool_max_nlines
               then Some (ti\<lparr>ti_store := pool_push (nl - 1) p (ti_store ti)\<rparr>) else None))"

section \<open>Freeing\<close>

definition upd_head :: "(limbo_group \<Rightarrow> limbo_group) \<Rightarrow> 'w threadinfo \<Rightarrow> 'w threadinfo" where
  "upd_head f ti = ti\<lparr>ti_limbo := (ti_limbo ti)[0 := f (ti_limbo ti ! 0)]\<rparr>"

partial_function (option) clean_loop ::
  "(addr \<Rightarrow> 'w \<Rightarrow> 'w) \<Rightarrow> 'w callback \<Rightarrow> epoch \<Rightarrow> 'w threadinfo \<Rightarrow> epoch \<Rightarrow> nat \<Rightarrow> ('w threadinfo \<times> nat) option"
where
  "clean_loop fr cb epoch_bound ti epoch count =
     (let g = ti_limbo ti ! 0; x = lg_e g ! lg_head g
      in if lg_head g = lg_tail g then Some (ti, count)
         else if le_ptr x \<noteq> 0 then
           (case le_u x of U_epoch _ \<Rightarrow> None
            | U_tag tag \<Rightarrow> do {
                ti \<leftarrow> free_rcu fr cb ti (le_ptr x) tag;
                if count = 0 then None
                else if count - 1 = 0
                then Some (upd_head (\<lambda>g. g\<lparr>lg_e := (lg_e g)[lg_head g := \<lparr>le_ptr = 0, le_u = U_epoch epoch\<rparr>]\<rparr>) ti,
                           count - 1)
                else clean_loop fr cb epoch_bound (upd_head (\<lambda>g. g\<lparr>lg_head := lg_head g + 1\<rparr>) ti)
                       epoch (count - 1) })
         else (case le_u x of U_tag _ \<Rightarrow> None
            | U_epoch epoch \<Rightarrow>
                if sint (epoch_bound - epoch) < 0 then Some (ti, count)
                else clean_loop fr cb epoch_bound (upd_head (\<lambda>g. g\<lparr>lg_head := lg_head g + 1\<rparr>) ti)
                       epoch count))"

declare clean_loop.simps [code]

definition clean_until ::
  "(addr \<Rightarrow> 'w \<Rightarrow> 'w) \<Rightarrow> 'w callback \<Rightarrow> epoch \<Rightarrow> 'w threadinfo \<Rightarrow> nat \<Rightarrow> ('w threadinfo \<times> nat) option"
where
  "clean_until fr cb epoch_bound ti count = do {
     (ti, count) \<leftarrow> clean_loop fr cb epoch_bound ti 0 count;
     Some (if lg_head (ti_limbo ti ! 0) = lg_tail (ti_limbo ti ! 0)
           then upd_head (\<lambda>g. g\<lparr>lg_head := 0, lg_tail := 0\<rparr>) ti else ti, count) }"

text \<open>The loop of \<open>hard_rcu_quiesce\<close> walks the chain; \<open>es\<close> is the run of emptied groups.  When
  the last used group is emptied too, the chain starts at the first emptied group again.\<close>

partial_function (option) quiesce_loop ::
  "(addr \<Rightarrow> 'w \<Rightarrow> 'w) \<Rightarrow> 'w callback \<Rightarrow> epoch \<Rightarrow> 'w threadinfo \<Rightarrow> limbo_group list \<Rightarrow> nat \<Rightarrow>
   ('w threadinfo \<times> limbo_group list \<times> nat) option"
where
  "quiesce_loop fr cb epoch_bound ti es count =
     (if count = 0 then Some (ti, es, count)
      else do {
        (ti, count) \<leftarrow> clean_until fr cb epoch_bound ti count;
        let g = ti_limbo ti ! 0;
        if lg_head g \<noteq> lg_tail g then Some (ti, es, count)
        else if ti_tail ti = 0 then Some (ti\<lparr>ti_limbo := es @ ti_limbo ti\<rparr>, [], count)
        else quiesce_loop fr cb epoch_bound
               (ti\<lparr>ti_limbo := tl (ti_limbo ti), ti_tail := ti_tail ti - 1\<rparr>) (es @ [g]) count })"

declare quiesce_loop.simps [code]

definition hard_rcu_quiesce ::
  "(addr \<Rightarrow> 'w \<Rightarrow> 'w) \<Rightarrow> 'w callback \<Rightarrow> epoch \<Rightarrow> 'w threadinfo \<Rightarrow> 'w threadinfo option" where
  "hard_rcu_quiesce fr cb active_epoch ti = do {
     let epoch_bound = active_epoch - 1;
     let g = ti_limbo ti ! 0;
     idle \<leftarrow> (if lg_head g = lg_tail g then Some True
              else do { e \<leftarrow> first_epoch g; Some (sint (epoch_bound - e) < 0) });
     if idle then Some (ti\<lparr>ti_perform_gc_epoch := epoch_bound + 1\<rparr>)
     else do {
       (ti, es, count) \<leftarrow> quiesce_loop fr cb epoch_bound ti [] rcu_free_count;
       let k = Suc (ti_tail ti);
       let ti = ti\<lparr>ti_limbo := take k (ti_limbo ti) @ es @ drop k (ti_limbo ti)\<rparr>;
       Some (ti\<lparr>ti_perform_gc_epoch := (if count = 0 then epoch_bound else epoch_bound + 1)\<rparr>) } }"

definition rcu_start :: "epoch \<Rightarrow> 'w threadinfo \<Rightarrow> 'w threadinfo" where
  "rcu_start globalepoch ti =
     (if ti_gc_epoch ti \<noteq> globalepoch then ti\<lparr>ti_gc_epoch := globalepoch\<rparr> else ti)"

definition rcu_stop ::
  "(addr \<Rightarrow> 'w \<Rightarrow> 'w) \<Rightarrow> 'w callback \<Rightarrow> epoch \<Rightarrow> 'w threadinfo \<Rightarrow> 'w threadinfo option" where
  "rcu_stop fr cb active_epoch ti = do {
     ti \<leftarrow> (if ti_perform_gc_epoch ti \<noteq> active_epoch then hard_rcu_quiesce fr cb active_epoch ti else Some ti);
     Some (ti\<lparr>ti_gc_epoch := 0\<rparr>) }"

definition rcu_quiesce ::
  "(addr \<Rightarrow> 'w \<Rightarrow> 'w) \<Rightarrow> 'w callback \<Rightarrow> epoch \<Rightarrow> epoch \<Rightarrow> 'w threadinfo \<Rightarrow> 'w threadinfo option" where
  "rcu_quiesce fr cb globalepoch active_epoch ti =
     (let ti = rcu_start globalepoch ti
      in if ti_perform_gc_epoch ti \<noteq> active_epoch then hard_rcu_quiesce fr cb active_epoch ti else Some ti)"

definition rcu_register :: "'w threadinfo \<Rightarrow> addr \<Rightarrow> epoch \<Rightarrow> 'w threadinfo option" where
  "rcu_register ti p globalepoch = record_rcu ti p (- 1) globalepoch"

text \<open>\<open>min_active_epoch\<close> over the \<open>gc_epoch_\<close> of all threads, starting from the global epoch.\<close>

definition min_epoch :: "epoch \<Rightarrow> epoch \<Rightarrow> epoch" where
  "min_epoch ae te = (if te \<noteq> 0 \<and> sint (te - ae) < 0 then te else ae)"

definition min_active_epoch :: "epoch \<Rightarrow> 'w threadinfo list \<Rightarrow> epoch" where
  "min_active_epoch globalepoch tis = foldl min_epoch globalepoch (map ti_gc_epoch tis)"

section \<open>The entries a limbo list holds\<close>

definition tag_ok :: "memtag \<Rightarrow> bool" where
  "tag_ok t \<longleftrightarrow> t AND pool_mask = 0 \<or> t = - 1 \<or> unat (t AND pool_mask) \<le> pool_max_nlines"

fun elem_ok :: "limbo_element \<Rightarrow> bool" where
  "elem_ok \<lparr>le_ptr = p, le_u = U_tag t\<rparr> \<longleftrightarrow> p \<noteq> 0 \<and> tag_ok t"
| "elem_ok \<lparr>le_ptr = p, le_u = U_epoch e\<rparr> \<longleftrightarrow> p = 0"

definition is_marker :: "limbo_element \<Rightarrow> bool" where
  "is_marker x \<longleftrightarrow> (case le_u x of U_epoch _ \<Rightarrow> True | U_tag _ \<Rightarrow> False)"

definition lg_live :: "limbo_group \<Rightarrow> limbo_element list" where
  "lg_live g = take (lg_tail g - lg_head g) (drop (lg_head g) (lg_e g))"

text \<open>The entries of a run of elements, each with the epoch of the marker before it, and the
  epoch in force after the run.\<close>

fun dec :: "epoch \<Rightarrow> limbo_element list \<Rightarrow> (addr \<times> memtag \<times> epoch) list" where
  "dec e [] = []"
| "dec e (x # xs) = (case le_u x of U_epoch e' \<Rightarrow> dec e' xs | U_tag t \<Rightarrow> (le_ptr x, t, e) # dec e xs)"

fun last_epoch :: "epoch \<Rightarrow> limbo_element list \<Rightarrow> epoch" where
  "last_epoch e [] = e"
| "last_epoch e (x # xs) = (case le_u x of U_epoch e' \<Rightarrow> last_epoch e' xs | U_tag t \<Rightarrow> last_epoch e xs)"

lemma dec_append [simp]: "dec e (xs @ ys) = dec e xs @ dec (last_epoch e xs) ys"
  by (induction xs arbitrary: e) (auto split: limbo_u.splits)

lemma last_epoch_append [simp]: "last_epoch e (xs @ ys) = last_epoch (last_epoch e xs) ys"
  by (induction xs arbitrary: e) (auto split: limbo_u.splits)

lemma marker_first:
  assumes "xs \<noteq> []" "is_marker (hd xs)"
  shows "dec e xs = dec e' xs" "last_epoch e xs = last_epoch e' xs"
  using assms by (cases xs; auto simp: is_marker_def split: limbo_u.splits)+

text \<open>A group is well-formed relative to the epoch in force at its head.\<close>

definition lg_ok :: "epoch \<Rightarrow> limbo_group \<Rightarrow> bool" where
  "lg_ok ep g \<longleftrightarrow> length (lg_e g) = limbo_capacity \<and> lg_head g \<le> lg_tail g \<and> lg_tail g \<le> limbo_capacity \<and>
     list_all elem_ok (lg_live g) \<and> (lg_live g \<noteq> [] \<longrightarrow> last_epoch ep (lg_live g) = lg_epoch g)"

definition lg_wf :: "limbo_group \<Rightarrow> bool" where
  "lg_wf g \<longleftrightarrow> lg_ok 0 g \<and> (if lg_live g = [] then lg_tail g = 0 else is_marker (hd (lg_live g)))"

definition lg_empty :: "limbo_group \<Rightarrow> bool" where
  "lg_empty g \<longleftrightarrow> length (lg_e g) = limbo_capacity \<and> lg_head g = 0 \<and> lg_tail g = 0"

lemma length_lg_live: "lg_ok ep g \<Longrightarrow> length (lg_live g) = lg_tail g - lg_head g"
  by (auto simp: lg_live_def lg_ok_def)

lemma live_Nil: "lg_ok ep g \<Longrightarrow> lg_live g = [] \<longleftrightarrow> lg_head g = lg_tail g"
  by (auto simp: lg_live_def lg_ok_def)

lemma lg_empty_ok: "lg_empty g \<Longrightarrow> lg_wf g" "lg_empty g \<Longrightarrow> lg_live g = []" "lg_empty g \<Longrightarrow> lg_ok ep g"
  by (auto simp: lg_wf_def lg_ok_def lg_empty_def lg_live_def)

lemma lg_make_empty: "lg_empty limbo_group_make"
  by (simp add: lg_empty_def limbo_group_make_def)

lemma lg_wf_ok: "lg_wf g \<Longrightarrow> lg_ok ep g"
  using marker_first(2) [of "lg_live g" ep 0] by (auto simp: lg_wf_def lg_ok_def)

lemma live_Cons:
  assumes "lg_ok ep g" "lg_head g \<noteq> lg_tail g"
  shows "lg_live g = lg_e g ! lg_head g # lg_live (g\<lparr>lg_head := lg_head g + 1\<rparr>)"
proof -
  have "lg_head g < length (lg_e g)" "lg_head g < lg_tail g" using assms by (auto simp: lg_ok_def)
  then show ?thesis
    by (simp add: lg_live_def Cons_nth_drop_Suc [symmetric] Suc_diff_Suc [symmetric] del: Suc_diff_Suc)
qed

lemma push_live:
  assumes "length es = limbo_capacity" "t < limbo_capacity" "h \<le> t"
  shows "take (Suc t - h) (drop h (es[t := x])) = take (t - h) (drop h es) @ [x]"
  using assms by (simp add: Suc_diff_le take_Suc_conv_app_nth drop_update_swap take_update_cancel)

lemma push_back_ok:
  assumes ok: "lg_ok ep g" and room: "lg_tail g + 2 \<le> limbo_capacity" and p: "p \<noteq> 0" "tag_ok tag"
  obtains g' ys where "push_back g p tag e = Some g'" "lg_ok ep g'" "lg_head g' = lg_head g"
    "lg_live g' = lg_live g @ ys" "ys \<noteq> []"
    "dec ep (lg_live g') = dec ep (lg_live g) @ [(p, tag, e)]"
    "lg_live g = [] \<Longrightarrow> is_marker (hd (lg_live g'))"
proof (cases "lg_head g = lg_tail g \<or> lg_epoch g \<noteq> e")
  case True
  let ?m = "\<lparr>le_ptr = 0, le_u = U_epoch e\<rparr>" and ?x = "\<lparr>le_ptr = p, le_u = U_tag tag\<rparr>"
  let ?g = "g\<lparr>lg_tail := Suc (Suc (lg_tail g)), lg_epoch := e, lg_e := (lg_e g)[lg_tail g := ?m, Suc (lg_tail g) := ?x]\<rparr>"
  have L: "lg_live ?g = lg_live g @ [?m, ?x]"
    using ok room by (simp add: lg_live_def push_live lg_ok_def)
  have "push_back g p tag e = Some ?g" using True room by (simp add: push_back_def Let_def)
  moreover have "lg_ok ep ?g" unfolding lg_ok_def L using ok room p by (simp add: lg_ok_def)
  ultimately show thesis using ok
    by (intro that [of ?g "[?m, ?x]"]) (simp_all only: L, auto simp: is_marker_def lg_ok_def)
next
  case False
  let ?x = "\<lparr>le_ptr = p, le_u = U_tag tag\<rparr>"
  let ?g = "g\<lparr>lg_tail := Suc (lg_tail g), lg_e := (lg_e g)[lg_tail g := ?x]\<rparr>"
  have L: "lg_live ?g = lg_live g @ [?x]"
    using ok room by (simp add: lg_live_def push_live lg_ok_def)
  have ne: "lg_live g \<noteq> []" using False live_Nil [OF ok] by simp
  have le: "last_epoch ep (lg_live g) = e" using ok ne False by (auto simp: lg_ok_def)
  have "push_back g p tag e = Some ?g" using False room by (simp add: push_back_def Let_def)
  moreover have "lg_ok ep ?g" unfolding lg_ok_def L using ok room p le False by (simp add: lg_ok_def)
  ultimately show thesis using ok ne le
    by (intro that [of ?g "[?x]"]) (simp_all only: L, auto simp: lg_ok_def)
qed

section \<open>Recording\<close>

text \<open>The chain \<open>gs\<close> is in use up to position \<open>t\<close>; the groups after it are empty, the groups
  before it are not.  The first one may be in the middle of being cleaned.\<close>

definition chain_ok :: "epoch \<Rightarrow> limbo_group list \<Rightarrow> nat \<Rightarrow> bool" where
  "chain_ok ep gs t \<longleftrightarrow> t < length gs \<and> lg_ok ep (hd gs) \<and>
     (\<forall>i. 0 < i \<and> i \<le> t \<longrightarrow> lg_wf (gs ! i) \<and> lg_live (gs ! i) \<noteq> []) \<and>
     (\<forall>i. t < i \<and> i < length gs \<longrightarrow> lg_empty (gs ! i))"

definition chain_pend :: "epoch \<Rightarrow> limbo_group list \<Rightarrow> (addr \<times> memtag \<times> epoch) list" where
  "chain_pend ep gs = dec ep (lg_live (hd gs)) @ concat (map (\<lambda>g. dec 0 (lg_live g)) (tl gs))"

definition chain_pre :: "epoch \<Rightarrow> limbo_group list \<Rightarrow> nat \<Rightarrow> bool" where
  "chain_pre ep gs t \<longleftrightarrow> t < length gs \<and> lg_ok ep (hd gs) \<and>
     (\<forall>i. 0 < i \<and> i \<le> t \<longrightarrow> lg_wf (gs ! i)) \<and> (\<forall>i. 0 < i \<and> i < t \<longrightarrow> lg_live (gs ! i) \<noteq> []) \<and>
     (\<forall>i. t < i \<and> i < length gs \<longrightarrow> lg_empty (gs ! i))"

lemma chain_ok_pre: "chain_ok ep gs t \<Longrightarrow> chain_pre ep gs t"
  by (auto simp: chain_ok_def chain_pre_def)

lemma chain_pre_refill:
  assumes "chain_ok ep gs t" "Suc t < length gs" "lg_empty (gs ! Suc t)"
  shows "chain_pre ep gs (Suc t)"
  using assms by (auto simp: chain_ok_def chain_pre_def le_Suc_eq less_Suc_eq lg_empty_ok)

lemma chain_pend_upto:
  assumes "chain_pre ep gs t"
  shows "chain_pend ep gs = chain_pend ep (take (Suc t) gs)"
proof -
  have ne: "gs \<noteq> []" using assms by (auto simp: chain_pre_def)
  have "concat (map (\<lambda>g. dec 0 (lg_live g)) (drop t (tl gs))) = []"
    using assms by (fastforce simp: chain_pre_def in_set_conv_nth nth_tl lg_empty_ok)
  then have "concat (map (\<lambda>g. dec 0 (lg_live g)) (tl gs)) =
      concat (map (\<lambda>g. dec 0 (lg_live g)) (take t (tl gs)))"
    by (metis append_Nil2 append_take_drop_id concat_append map_append)
  then show ?thesis using ne by (cases gs) (auto simp: chain_pend_def)
qed

lemma chain_pend_snoc:
  "chain_pend ep (xs @ [g]) = (if xs = [] then dec ep (lg_live g) else chain_pend ep xs @ dec 0 (lg_live g))"
  by (cases xs) (auto simp: chain_pend_def)

lemma chain_push:
  assumes pre: "chain_pre ep gs t" and room: "lg_tail (gs ! t) + 2 \<le> limbo_capacity" and p: "p \<noteq> 0" "tag_ok tag"
  obtains g' ys where "push_back (gs ! t) p tag e = Some g'" "chain_ok ep (gs[t := g']) t"
    "chain_pend ep (gs[t := g']) = chain_pend ep gs @ [(p, tag, e)]"
    "lg_head (hd (gs[t := g'])) = lg_head (hd gs)" "lg_live (hd (gs[t := g'])) = lg_live (hd gs) @ ys"
    "t = 0 \<Longrightarrow> ys \<noteq> []" "t = 0 \<Longrightarrow> lg_wf (gs ! t) \<Longrightarrow> lg_wf g'"
proof -
  let ?ep = "if t = 0 then ep else 0"
  have t: "t < length gs" using pre by (simp add: chain_pre_def)
  have hd: "t = 0 \<Longrightarrow> gs ! t = hd gs" using t by (cases gs) auto
  have ok: "lg_ok ?ep (gs ! t)" using pre hd by (auto simp: chain_pre_def lg_wf_def)
  obtain g' ys where g: "push_back (gs ! t) p tag e = Some g'" "lg_ok ?ep g'" "lg_head g' = lg_head (gs ! t)"
    "lg_live g' = lg_live (gs ! t) @ ys" "ys \<noteq> []" "dec ?ep (lg_live g') = dec ?ep (lg_live (gs ! t)) @ [(p, tag, e)]"
    "lg_live (gs ! t) = [] \<Longrightarrow> is_marker (hd (lg_live g'))"
    by (rule push_back_ok [OF ok room p, where e = e]) blast
  have wf: "lg_wf g'" if w: "lg_wf (gs ! t)"
  proof -
    have m: "is_marker (hd (lg_live g'))" using w g(4,7) by (cases "lg_live (gs ! t) = []") (auto simp: lg_wf_def)
    have "lg_ok 0 g'" using g(2,4,5) m marker_first(2) [of "lg_live g'" 0 ?ep] by (auto simp: lg_ok_def)
    then show ?thesis using m g(4,5) by (simp add: lg_wf_def)
  qed
  have ok': "chain_ok ep (gs[t := g']) t"
    unfolding chain_ok_def
  proof (intro conjI allI impI)
    show "lg_ok ep (hd (gs[t := g']))" using pre g(2) t by (cases t; cases gs) (auto simp: chain_pre_def)
  next
    fix i assume "0 < i \<and> i \<le> t"
    then show "lg_wf (gs[t := g'] ! i)" "lg_live (gs[t := g'] ! i) \<noteq> []"
      using pre wf g(4,5) t by (cases "i = t"; auto simp: chain_pre_def)+
  qed (use pre t in \<open>auto simp: chain_pre_def\<close>)
  have split: "take (Suc t) gs = take t gs @ [gs ! t]" "take (Suc t) (gs[t := g']) = take t gs @ [g']"
    using t by (simp_all add: take_Suc_conv_app_nth)
  have "chain_pend ep (gs[t := g']) = chain_pend ep gs @ [(p, tag, e)]"
    unfolding chain_pend_upto [OF pre] chain_pend_upto [OF chain_ok_pre [OF ok']] split chain_pend_snoc
    using g(6) t by (cases "t = 0") auto
  then show thesis
    using that [OF g(1) ok', of "if t = 0 then ys else []"] g(3-5) hd wf t by (cases t; cases gs) auto
qed

lemma record_rcu_ok:
  assumes ok: "chain_ok ep (ti_limbo ti) (ti_tail ti)" and p: "p \<noteq> 0" "tag_ok tag"
    and busy: "lg_head (hd (ti_limbo ti)) \<noteq> lg_tail (hd (ti_limbo ti)) \<or> lg_wf (hd (ti_limbo ti))"
  obtains gs t ys where "record_rcu ti p tag e = Some (ti\<lparr>ti_limbo := gs, ti_tail := t\<rparr>)" "chain_ok ep gs t"
    "chain_pend ep gs = chain_pend ep (ti_limbo ti) @ [(p, tag, e)]"
    "lg_head (hd gs) = lg_head (hd (ti_limbo ti))" "lg_live (hd gs) = lg_live (hd (ti_limbo ti)) @ ys"
    "lg_live (hd gs) \<noteq> [] \<or> ti_tail ti > 0" "lg_wf (hd (ti_limbo ti)) \<Longrightarrow> lg_wf (hd gs)" "ti_tail ti \<le> t"
proof (cases "lg_tail (ti_limbo ti ! ti_tail ti) + 2 > limbo_capacity")
  case False
  obtain g' ys where g: "push_back (ti_limbo ti ! ti_tail ti) p tag e = Some g'"
    "chain_ok ep ((ti_limbo ti)[ti_tail ti := g']) (ti_tail ti)"
    "chain_pend ep ((ti_limbo ti)[ti_tail ti := g']) = chain_pend ep (ti_limbo ti) @ [(p, tag, e)]"
    "lg_head (hd ((ti_limbo ti)[ti_tail ti := g'])) = lg_head (hd (ti_limbo ti))"
    "lg_live (hd ((ti_limbo ti)[ti_tail ti := g'])) = lg_live (hd (ti_limbo ti)) @ ys"
    "ti_tail ti = 0 \<Longrightarrow> ys \<noteq> []" "ti_tail ti = 0 \<Longrightarrow> lg_wf (ti_limbo ti ! ti_tail ti) \<Longrightarrow> lg_wf g'"
    using chain_push [OF chain_ok_pre [OF ok] _ p] False by (metis not_less)
  have "record_rcu ti p tag e = Some (ti\<lparr>ti_limbo := (ti_limbo ti)[ti_tail ti := g'], ti_tail := ti_tail ti\<rparr>)"
    using False g(1) by (simp add: record_rcu_def)
  then show thesis
    using that [OF _ g(2-5)] g(5-7) ok by (cases "ti_tail ti"; cases "ti_limbo ti") (auto simp: chain_ok_def)
next
  case True
  let ?gs = "ti_limbo ti @ (if Suc (ti_tail ti) = length (ti_limbo ti) then [limbo_group_make] else [])"
  have t: "ti_tail ti < length (ti_limbo ti)" using ok by (simp add: chain_ok_def)
  have len: "Suc (ti_tail ti) < length ?gs" using t by auto
  have emp: "lg_empty (?gs ! Suc (ti_tail ti))"
    using ok t by (auto simp: chain_ok_def nth_append lg_make_empty)
  have hd: "hd ?gs = hd (ti_limbo ti)" using t by (cases "ti_limbo ti") auto
  have "chain_ok ep ?gs (ti_tail ti)"
    using ok t hd by (auto simp: chain_ok_def nth_append lg_make_empty split: if_splits)
  then have pre: "chain_pre ep ?gs (Suc (ti_tail ti))" by (rule chain_pre_refill [OF _ len emp])
  have room: "lg_tail (?gs ! Suc (ti_tail ti)) + 2 \<le> limbo_capacity"
    using emp by (simp add: lg_empty_def limbo_capacity_def)
  obtain g' ys where g: "push_back (?gs ! Suc (ti_tail ti)) p tag e = Some g'"
    "chain_ok ep (?gs[Suc (ti_tail ti) := g']) (Suc (ti_tail ti))"
    "chain_pend ep (?gs[Suc (ti_tail ti) := g']) = chain_pend ep ?gs @ [(p, tag, e)]"
    "lg_head (hd (?gs[Suc (ti_tail ti) := g'])) = lg_head (hd ?gs)"
    "lg_live (hd (?gs[Suc (ti_tail ti) := g'])) = lg_live (hd ?gs) @ ys"
    using chain_push [OF pre room p] by metis
  have same: "hd (?gs[Suc (ti_tail ti) := g']) = hd (ti_limbo ti)" using t by (cases "ti_limbo ti") auto
  have ref: "refill_rcu ti = Some (ti\<lparr>ti_limbo := ?gs, ti_tail := Suc (ti_tail ti)\<rparr>)"
    using emp by (auto simp: refill_rcu_def Let_def lg_empty_def)
  have "record_rcu ti p tag e =
      Some (ti\<lparr>ti_limbo := ?gs[Suc (ti_tail ti) := g'], ti_tail := Suc (ti_tail ti)\<rparr>)"
    using True g(1) by (simp add: record_rcu_def ref)
  moreover have "chain_pend ep ?gs = chain_pend ep (ti_limbo ti)"
    using t by (cases "ti_limbo ti") (auto simp: chain_pend_def lg_empty_ok lg_make_empty)
  moreover have "lg_live (hd (ti_limbo ti)) \<noteq> []" if "ti_tail ti = 0"
  proof -
    have "hd (ti_limbo ti) = ti_limbo ti ! 0" using t by (cases "ti_limbo ti") auto
    then have "lg_tail (hd (ti_limbo ti)) \<noteq> 0" using True that by (auto simp: limbo_capacity_def)
    then show ?thesis using busy ok live_Nil by (auto simp: lg_wf_def chain_ok_def split: if_splits)
  qed
  ultimately show thesis
    using that [OF _ g(2), of ys] g(3-5) same hd by auto
qed

section \<open>Cleaning a group\<close>

text \<open>What freeing an entry does to the store, and the calls to \<open>record_rcu\<close> it causes.\<close>

definition free_effect ::
  "(addr \<Rightarrow> 'w \<Rightarrow> 'w) \<Rightarrow> 'w callback \<Rightarrow> addr \<Rightarrow> memtag \<Rightarrow> 'w store \<Rightarrow> (addr \<times> memtag \<times> epoch) list \<times> 'w store" where
  "free_effect fr cb p tag st =
     (if tag AND pool_mask = 0 then ([], st\<lparr>st_world := fr p (st_world st)\<rparr>)
      else if tag = - 1 then cb p st
      else ([], pool_push (unat (tag AND pool_mask) - 1) p st))"

fun free_all ::
  "(addr \<Rightarrow> 'w \<Rightarrow> 'w) \<Rightarrow> 'w callback \<Rightarrow> 'w store \<Rightarrow> (addr \<times> memtag \<times> epoch) list \<Rightarrow>
   (addr \<times> memtag \<times> epoch) list \<times> 'w store" where
  "free_all fr cb st [] = ([], st)"
| "free_all fr cb st ((p, tag, e) # xs) =
     (let (calls, st) = free_effect fr cb p tag st; (more, st) = free_all fr cb st xs in (calls @ more, st))"

definition calls_ok :: "(addr \<times> memtag \<times> epoch) list \<Rightarrow> bool" where
  "calls_ok calls \<longleftrightarrow> (\<forall>(p, tag, e) \<in> set calls. p \<noteq> 0 \<and> tag_ok tag)"

text \<open>What the code asserts of a callback: it records pointers that are not null, with a tag.\<close>

definition callback_ok :: "'w callback \<Rightarrow> bool" where
  "callback_ok cb \<longleftrightarrow> (\<forall>p st. calls_ok (fst (cb p st)))"

lemma record_all_ok:
  assumes "calls_ok calls" "chain_ok ep (ti_limbo ti) (ti_tail ti)" "lg_live (hd (ti_limbo ti)) \<noteq> []"
  shows "\<exists>gs t ys. record_all ti calls = Some (ti\<lparr>ti_limbo := gs, ti_tail := t\<rparr>) \<and> chain_ok ep gs t \<and>
    chain_pend ep gs = chain_pend ep (ti_limbo ti) @ calls \<and>
    lg_head (hd gs) = lg_head (hd (ti_limbo ti)) \<and> lg_live (hd gs) = lg_live (hd (ti_limbo ti)) @ ys"
  using assms
proof (induction calls arbitrary: ti)
  case Nil
  then show ?case by (intro exI [of _ "ti_limbo ti"] exI [of _ "ti_tail ti"] exI [of _ "[]"]) simp
next
  case (Cons c calls)
  obtain p tag e where c: "c = (p, tag, e)" by (cases c)
  have p: "p \<noteq> 0" "tag_ok tag" and cs: "calls_ok calls" using Cons.prems(1) by (auto simp: calls_ok_def c)
  have busy: "lg_head (hd (ti_limbo ti)) \<noteq> lg_tail (hd (ti_limbo ti))"
    using Cons.prems(2,3) live_Nil by (auto simp: chain_ok_def)
  obtain gs t ys where r: "record_rcu ti p tag e = Some (ti\<lparr>ti_limbo := gs, ti_tail := t\<rparr>)" "chain_ok ep gs t"
    "chain_pend ep gs = chain_pend ep (ti_limbo ti) @ [(p, tag, e)]"
    "lg_head (hd gs) = lg_head (hd (ti_limbo ti))" "lg_live (hd gs) = lg_live (hd (ti_limbo ti)) @ ys"
    by (rule record_rcu_ok [OF Cons.prems(2) p disjI1 [OF busy], where e = e]) blast
  let ?ti = "ti\<lparr>ti_limbo := gs, ti_tail := t\<rparr>"
  obtain gs' t' ys' where r': "record_all ?ti calls = Some (?ti\<lparr>ti_limbo := gs', ti_tail := t'\<rparr>)" "chain_ok ep gs' t'"
    "chain_pend ep gs' = chain_pend ep gs @ calls" "lg_head (hd gs') = lg_head (hd gs)"
    "lg_live (hd gs') = lg_live (hd gs) @ ys'"
    using Cons.IH [OF cs, of ?ti] r(2,5) Cons.prems(3) by auto
  show ?case
    by (rule exI [of _ gs'], rule exI [of _ t'], rule exI [of _ "ys @ ys'"]) (use r r' c in simp)
qed

lemma free_rcu_ok:
  assumes cb: "callback_ok cb" and tag: "tag_ok tag"
    and ok: "chain_ok ep (ti_limbo ti) (ti_tail ti)" "lg_live (hd (ti_limbo ti)) \<noteq> []"
  obtains gs t ys where
    "free_rcu fr cb ti p tag =
       Some (ti\<lparr>ti_limbo := gs, ti_tail := t, ti_store := snd (free_effect fr cb p tag (ti_store ti))\<rparr>)"
    "chain_ok ep gs t" "chain_pend ep gs = chain_pend ep (ti_limbo ti) @ fst (free_effect fr cb p tag (ti_store ti))"
    "lg_head (hd gs) = lg_head (hd (ti_limbo ti))" "lg_live (hd gs) = lg_live (hd (ti_limbo ti)) @ ys"
proof (cases "tag AND pool_mask = 0 \<or> tag \<noteq> - 1")
  case True
  then show thesis using tag ok
    by (intro that [of "ti_tail ti" "ti_limbo ti" "[]"])
      (auto simp: free_rcu_def free_effect_def tag_ok_def Let_def)
next
  case False
  obtain calls st where c: "cb p (ti_store ti) = (calls, st)" by (cases "cb p (ti_store ti)")
  have "calls_ok calls" using cb c by (metis callback_ok_def fst_conv)
  then obtain gs t ys where "record_all (ti\<lparr>ti_store := st\<rparr>) calls =
      Some (ti\<lparr>ti_store := st\<rparr>\<lparr>ti_limbo := gs, ti_tail := t\<rparr>)" "chain_ok ep gs t"
    "chain_pend ep gs = chain_pend ep (ti_limbo ti) @ calls"
    "lg_head (hd gs) = lg_head (hd (ti_limbo ti))" "lg_live (hd gs) = lg_live (hd (ti_limbo ti)) @ ys"
    using record_all_ok [of calls ep "ti\<lparr>ti_store := st\<rparr>"] ok by auto
  then show thesis
    using False c by (intro that [of t gs ys]) (auto simp: free_rcu_def free_effect_def)
qed

definition due :: "epoch \<Rightarrow> (addr \<times> memtag \<times> epoch) list \<Rightarrow> bool" where
  "due bound dn \<longleftrightarrow> (\<forall>(p, tag, e) \<in> set dn. 0 \<le> sint (bound - e))"

text \<open>What cleaning does: it frees the entries \<open>dn\<close>, the first of the list and the entries
  recorded meanwhile, at most \<open>count\<close> of them.\<close>

definition clean_post ::
  "(addr \<Rightarrow> 'w \<Rightarrow> 'w) \<Rightarrow> 'w callback \<Rightarrow> epoch \<Rightarrow> 'w threadinfo \<Rightarrow> epoch \<Rightarrow> nat \<Rightarrow> ('w threadinfo \<times> nat) option \<Rightarrow> bool"
where
  "clean_post fr cb bound ti ep count r \<longleftrightarrow>
     (\<exists>gs t dn calls st c. r = Some (ti\<lparr>ti_limbo := gs, ti_tail := t, ti_store := st\<rparr>, c) \<and>
        chain_ok 0 gs t \<and> (lg_live (hd gs) \<noteq> [] \<longrightarrow> is_marker (hd (lg_live (hd gs)))) \<and>
        free_all fr cb (ti_store ti) dn = (calls, st) \<and>
        chain_pend ep (ti_limbo ti) @ calls = dn @ chain_pend 0 gs \<and>
        length dn + c = count \<and> due bound dn \<and> (dn = [] \<longrightarrow> t = ti_tail ti) \<and>
        (if lg_live (hd gs) = [] then 0 < c
         else c = 0 \<or> (\<exists>e. first_epoch (hd gs) = Some e \<and> sint (bound - e) < 0)))"

lemma upd_head_simps:
  "ti_limbo ti = g # gs \<Longrightarrow> upd_head f ti = ti\<lparr>ti_limbo := f g # gs\<rparr>"
  by (simp add: upd_head_def)

lemma chain_ok_hd:
  "chain_ok ep (g # gs) t \<Longrightarrow> lg_ok ep' g' \<Longrightarrow> chain_ok ep' (g' # gs) t"
  by (auto simp: chain_ok_def nth_Cons')

lemma lg_ok_next:
  assumes "lg_ok ep g" "lg_live g = x # xs"
  shows "lg_ok (case le_u x of U_epoch e \<Rightarrow> e | U_tag _ \<Rightarrow> ep) (g\<lparr>lg_head := lg_head g + 1\<rparr>)"
    "lg_live (g\<lparr>lg_head := lg_head g + 1\<rparr>) = xs" "lg_e g ! lg_head g = x" "elem_ok x"
proof -
  have ne: "lg_head g \<noteq> lg_tail g" using assms live_Nil by fastforce
  show L: "lg_live (g\<lparr>lg_head := lg_head g + 1\<rparr>) = xs" and x: "lg_e g ! lg_head g = x"
    using live_Cons [OF assms(1) ne] assms(2) by auto
  show "elem_ok x" using assms by (simp add: lg_ok_def)
  show "lg_ok (case le_u x of U_epoch e \<Rightarrow> e | U_tag _ \<Rightarrow> ep) (g\<lparr>lg_head := lg_head g + 1\<rparr>)"
    unfolding lg_ok_def L using assms ne by (auto simp: lg_ok_def split: limbo_u.splits)
qed

lemma clean_skip:
  assumes post: "clean_post fr cb bound (upd_head (\<lambda>g. g\<lparr>lg_head := lg_head g + 1\<rparr>) ti) e count r"
    and l: "ti_limbo ti = g # gs" "lg_ok ep g" "lg_live g = x # xs" "le_u x = U_epoch e"
  shows "clean_post fr cb bound ti ep count r"
proof -
  have "chain_pend ep (ti_limbo ti) = chain_pend e (g\<lparr>lg_head := lg_head g + 1\<rparr> # gs)"
    using l lg_ok_next(2) [OF l(2,3)] by (simp add: chain_pend_def)
  then show ?thesis using post l(1) unfolding clean_post_def upd_head_simps [OF l(1)] by simp
qed

lemma clean_free:
  assumes post: "clean_post fr cb bound (upd_head (\<lambda>g. g\<lparr>lg_head := lg_head g + 1\<rparr>)
       (ti\<lparr>ti_limbo := gs, ti_tail := t, ti_store := snd (free_effect fr cb p tag (ti_store ti))\<rparr>)) ep count r"
    and l: "chain_ok ep gs t" "lg_live (hd gs) = x # xs" "le_u x = U_tag tag" "le_ptr x = p"
    and pend: "chain_pend ep gs = chain_pend ep (ti_limbo ti) @ fst (free_effect fr cb p tag (ti_store ti))"
    and due: "0 \<le> sint (bound - ep)"
  shows "clean_post fr cb bound ti ep (Suc count) r"
proof -
  obtain g gs' where gs: "gs = g # gs'" using l(1) by (cases gs) (auto simp: chain_ok_def)
  have ok: "lg_ok ep g" using l(1) gs by (simp add: chain_ok_def)
  let ?ti = "ti\<lparr>ti_limbo := gs, ti_tail := t, ti_store := snd (free_effect fr cb p tag (ti_store ti))\<rparr>"
  have up: "upd_head f ?ti = ti\<lparr>ti_limbo := f g # gs', ti_tail := t, ti_store := snd (free_effect fr cb p tag (ti_store ti))\<rparr>" for f
    by (simp add: upd_head_def gs)
  have next_pend: "chain_pend ep gs = (p, tag, ep) # chain_pend ep (g\<lparr>lg_head := lg_head g + 1\<rparr> # gs')"
    using l(2-4) lg_ok_next(2) [OF ok] gs by (simp add: chain_pend_def)
  let ?ti1 = "ti\<lparr>ti_limbo := g\<lparr>lg_head := lg_head g + 1\<rparr> # gs', ti_tail := t, ti_store := snd (free_effect fr cb p tag (ti_store ti))\<rparr>"
  obtain gs2 t2 dn calls st c where r': "r = Some (?ti1\<lparr>ti_limbo := gs2, ti_tail := t2, ti_store := st\<rparr>, c)"
    "chain_ok 0 gs2 t2" "lg_live (hd gs2) \<noteq> [] \<longrightarrow> is_marker (hd (lg_live (hd gs2)))"
    "free_all fr cb (ti_store ?ti1) dn = (calls, st)"
    "chain_pend ep (ti_limbo ?ti1) @ calls = dn @ chain_pend 0 gs2"
    "length dn + c = count" "due bound dn"
    "if lg_live (hd gs2) = [] then 0 < c
     else c = 0 \<or> (\<exists>e. first_epoch (hd gs2) = Some e \<and> sint (bound - e) < 0)"
    using post unfolding clean_post_def up by blast
  note r = r' [simplified]
  show ?thesis unfolding clean_post_def
  proof (intro exI conjI)
    show "free_all fr cb (ti_store ti) ((p, tag, ep) # dn) =
        (fst (free_effect fr cb p tag (ti_store ti)) @ calls, st)"
      using r(4) by (simp add: case_prod_unfold Let_def)
    show "chain_pend ep (ti_limbo ti) @ fst (free_effect fr cb p tag (ti_store ti)) @ calls =
        ((p, tag, ep) # dn) @ chain_pend 0 gs2"
      using r(5) next_pend pend by (simp flip: append_assoc)
    show "r = Some (ti\<lparr>ti_limbo := gs2, ti_tail := t2, ti_store := st\<rparr>, c)" using r'(1) by simp
  qed (use r' due in \<open>simp_all add: due_def\<close>)
qed

lemma is_marker_first_epoch:
  assumes "lg_ok ep g" "lg_live g = x # xs" "le_u x = U_epoch e"
  shows "first_epoch g = Some e"
  using assms lg_ok_next(3) [OF assms(1,2)] live_Nil [OF assms(1)] by (auto simp: first_epoch_def)

lemma chain_ok_Cons: "chain_ok ep gs t \<Longrightarrow> \<exists>g gs'. gs = g # gs' \<and> lg_ok ep g"
  by (cases gs) (auto simp: chain_ok_def)

lemma live_set_head:
  assumes "lg_ok ep g" "lg_live g = x # xs"
  shows "lg_live (g\<lparr>lg_e := (lg_e g)[lg_head g := y]\<rparr>) = y # xs"
proof -
  have lt: "lg_head g < lg_tail g" "lg_head g < length (lg_e g)"
    using assms live_Nil [OF assms(1)] by (auto simp: lg_ok_def)
  then have "lg_live (g\<lparr>lg_e := (lg_e g)[lg_head g := y]\<rparr>) = (lg_live g)[0 := y]"
    by (simp add: lg_live_def take_update_swap drop_update_swap)
  then show ?thesis using assms(2) by simp
qed

text \<open>The element freed last becomes the marker of the elements after it.\<close>

lemma lg_ok_marker:
  assumes "lg_ok ep g" "lg_live g = x # xs" "le_u x = U_tag tag"
  shows "lg_ok 0 (g\<lparr>lg_e := (lg_e g)[lg_head g := \<lparr>le_ptr = 0, le_u = U_epoch ep\<rparr>]\<rparr>)"
  using assms unfolding lg_ok_def live_set_head [OF assms(1,2)] by simp

lemma clean_last:
  assumes l: "chain_ok ep gs t" "lg_live (hd gs) = x # xs" "le_u x = U_tag tag" "le_ptr x = p"
    and pend: "chain_pend ep gs = chain_pend ep (ti_limbo ti) @ fst (free_effect fr cb p tag (ti_store ti))"
    and due: "0 \<le> sint (bound - ep)"
  shows "clean_post fr cb bound ti ep 1
     (Some (upd_head (\<lambda>g. g\<lparr>lg_e := (lg_e g)[lg_head g := \<lparr>le_ptr = 0, le_u = U_epoch ep\<rparr>]\<rparr>)
       (ti\<lparr>ti_limbo := gs, ti_tail := t, ti_store := snd (free_effect fr cb p tag (ti_store ti))\<rparr>), 0))"
proof -
  obtain g rest where g: "gs = g # rest" "lg_ok ep g" using chain_ok_Cons [OF l(1)] by blast
  let ?g = "g\<lparr>lg_e := (lg_e g)[lg_head g := \<lparr>le_ptr = 0, le_u = U_epoch ep\<rparr>]\<rparr>"
  have live: "lg_live g = x # xs" using l(2) g(1) by simp
  have L: "lg_live ?g = \<lparr>le_ptr = 0, le_u = U_epoch ep\<rparr> # xs" by (rule live_set_head [OF g(2) live])
  have ok: "chain_ok 0 (?g # rest) t"
    using l(1) lg_ok_marker [OF g(2) live l(3)] chain_ok_hd unfolding g(1) by blast
  show ?thesis unfolding clean_post_def
  proof (intro exI conjI)
    show "free_all fr cb (ti_store ti) [(p, tag, ep)] =
        (fst (free_effect fr cb p tag (ti_store ti)), snd (free_effect fr cb p tag (ti_store ti)))"
      by (simp add: case_prod_unfold Let_def)
    show "chain_pend ep (ti_limbo ti) @ fst (free_effect fr cb p tag (ti_store ti)) =
        [(p, tag, ep)] @ chain_pend 0 (?g # rest)"
      unfolding pend [symmetric] using g(1) live L l(3,4) by (simp add: chain_pend_def)
    show "chain_ok 0 (?g # rest) t" by (rule ok)
    show "Some (upd_head (\<lambda>g. g\<lparr>lg_e := (lg_e g)[lg_head g := \<lparr>le_ptr = 0, le_u = U_epoch ep\<rparr>]\<rparr>)
         (ti\<lparr>ti_limbo := gs, ti_tail := t, ti_store := snd (free_effect fr cb p tag (ti_store ti))\<rparr>), 0) =
       Some (ti\<lparr>ti_limbo := ?g # rest, ti_tail := t, ti_store := snd (free_effect fr cb p tag (ti_store ti))\<rparr>, 0)"
      by (simp add: upd_head_def g(1))
  qed (use L due in \<open>simp_all add: due_def is_marker_def\<close>)
qed

lemma clean_loop_post:
  assumes "callback_ok cb" "chain_ok ep (ti_limbo ti) (ti_tail ti)" "0 < count"
    "lg_live (hd (ti_limbo ti)) \<noteq> [] \<Longrightarrow> \<not> is_marker (hd (lg_live (hd (ti_limbo ti)))) \<Longrightarrow> 0 \<le> sint (bound - ep)"
  shows "clean_post fr cb bound ti ep count (clean_loop fr cb bound ti ep count)"
  using assms(2-)
proof (induction "(count, length (lg_live (hd (ti_limbo ti))))" arbitrary: ti ep count
    rule: wf_induct_rule [of "less_than <*lex*> less_than", OF wf_lex_prod [OF wf_less_than wf_less_than]])
  case 1
  obtain g gs where gs: "ti_limbo ti = g # gs" "lg_ok ep g" using chain_ok_Cons [OF 1(2)] by blast
  show ?case
  proof (cases "lg_live g")
    case Nil
    have "lg_ok 0 g" using gs(2) Nil by (simp add: lg_ok_def)
    then have "chain_ok 0 (ti_limbo ti) (ti_tail ti)" using 1(2) gs(1) chain_ok_hd by metis
    moreover have "clean_loop fr cb bound ti ep count = Some (ti, count)"
      using Nil live_Nil [OF gs(2)] gs(1) by (subst clean_loop.simps) simp
    ultimately show ?thesis unfolding clean_post_def
      using Nil gs(1) 1(3)
      by (intro exI [of _ "ti_limbo ti"] exI [of _ "ti_tail ti"] exI [of _ "[]"] exI [of _ "ti_store ti"]
          exI [of _ count]) (simp add: due_def chain_pend_def)
  next
    case (Cons x xs)
    note nx = lg_ok_next [OF gs(2) Cons]
    have busy: "lg_head g \<noteq> lg_tail g" using Cons live_Nil [OF gs(2)] by auto
    show ?thesis
    proof (cases "le_u x")
      case (U_epoch e)
      have p: "le_ptr x = 0" using nx(4) U_epoch by (cases x) auto
      show ?thesis
      proof (cases "sint (bound - e) < 0")
        case True
        have mk: "is_marker x" using U_epoch by (simp add: is_marker_def)
        have ok0: "lg_ok 0 g" using gs(2) Cons mk marker_first(2) [of "lg_live g" ep 0] by (auto simp: lg_ok_def)
        then have "chain_ok 0 (ti_limbo ti) (ti_tail ti)" using 1(2) gs(1) chain_ok_hd by metis
        moreover have "clean_loop fr cb bound ti ep count = Some (ti, count)"
          using True busy p U_epoch gs(1) nx(3) by (subst clean_loop.simps) (simp add: Let_def)
        moreover have "chain_pend ep (ti_limbo ti) = chain_pend 0 (ti_limbo ti)"
          using Cons mk gs(1) marker_first(1) [of "lg_live g" ep 0] by (simp add: chain_pend_def)
        ultimately show ?thesis unfolding clean_post_def
          using Cons gs(1) mk is_marker_first_epoch [OF gs(2) Cons U_epoch] True
          by (intro exI [of _ "ti_limbo ti"] exI [of _ "ti_tail ti"] exI [of _ "[]"] exI [of _ "ti_store ti"]
              exI [of _ count]) (simp add: due_def)
      next
        case False
        let ?ti = "upd_head (\<lambda>g. g\<lparr>lg_head := lg_head g + 1\<rparr>) ti"
        have up: "?ti = ti\<lparr>ti_limbo := g\<lparr>lg_head := lg_head g + 1\<rparr> # gs\<rparr>" by (rule upd_head_simps [OF gs(1)])
        have "clean_post fr cb bound ?ti e count (clean_loop fr cb bound ?ti e count)"
        proof (rule 1(1))
          show "((count, length (lg_live (hd (ti_limbo ?ti)))), count, length (lg_live (hd (ti_limbo ti))))
              \<in> less_than <*lex*> less_than"
            unfolding up using Cons gs(1) nx(2) by simp
          show "chain_ok e (ti_limbo ?ti) (ti_tail ?ti)"
            using 1(2) gs(1) nx(1) U_epoch chain_ok_hd unfolding up by fastforce
        qed (use 1(3) False in simp_all)
        moreover have "clean_loop fr cb bound ti ep count = clean_loop fr cb bound ?ti e count"
          using False busy p U_epoch gs(1) nx(3) by (subst clean_loop.simps) (simp add: Let_def)
        ultimately show ?thesis using clean_skip [OF _ gs Cons U_epoch, where r = "clean_loop fr cb bound ti ep count"] by simp
      qed
    next
      case (U_tag tag)
      have p: "le_ptr x \<noteq> 0" "tag_ok tag" using nx(4) U_tag by (cases x; auto)+
      have due: "0 \<le> sint (bound - ep)" using 1(4) Cons gs(1) U_tag by (simp add: is_marker_def)
      have ne: "lg_live (hd (ti_limbo ti)) \<noteq> []" using Cons gs(1) by simp
      obtain gs' t ys where fr: "free_rcu fr cb ti (le_ptr x) tag = Some (ti\<lparr>ti_limbo := gs', ti_tail := t,
            ti_store := snd (free_effect fr cb (le_ptr x) tag (ti_store ti))\<rparr>)" (is "_ = Some ?ti'")
        "chain_ok ep gs' t"
        "chain_pend ep gs' = chain_pend ep (ti_limbo ti) @ fst (free_effect fr cb (le_ptr x) tag (ti_store ti))"
        "lg_head (hd gs') = lg_head (hd (ti_limbo ti))" "lg_live (hd gs') = lg_live (hd (ti_limbo ti)) @ ys"
        by (rule free_rcu_ok [OF assms(1) p(2) 1(2) ne])
      obtain g' rest where g': "gs' = g' # rest" "lg_ok ep g'" using chain_ok_Cons [OF fr(2)] by blast
      have live': "lg_live g' = x # xs @ ys" using fr(5) Cons gs(1) g'(1) by simp
      note nx' = lg_ok_next [OF g'(2) live']
      have hd': "lg_live (hd gs') = x # xs @ ys" using live' g'(1) by simp
      obtain n where n: "count = Suc n" using 1(3) by (cases count) auto
      show ?thesis
      proof (cases n)
        case 0
        have "clean_loop fr cb bound ti ep count =
            Some (upd_head (\<lambda>g. g\<lparr>lg_e := (lg_e g)[lg_head g := \<lparr>le_ptr = 0, le_u = U_epoch ep\<rparr>]\<rparr>) ?ti', 0)"
          using busy p U_tag gs(1) nx(3) n 0 fr(1) by (subst clean_loop.simps) (simp add: Let_def)
        then show ?thesis
          using clean_last [OF fr(2) hd' U_tag refl fr(3) due] n 0 by simp
      next
        case (Suc m)
        let ?ti = "upd_head (\<lambda>g. g\<lparr>lg_head := lg_head g + 1\<rparr>) ?ti'"
        have up: "?ti = ?ti'\<lparr>ti_limbo := g'\<lparr>lg_head := lg_head g' + 1\<rparr> # rest\<rparr>"
          by (rule upd_head_simps) (simp add: g'(1))
        have "clean_post fr cb bound ?ti ep n (clean_loop fr cb bound ?ti ep n)"
        proof (rule 1(1))
          show "chain_ok ep (ti_limbo ?ti) (ti_tail ?ti)"
            using fr(2) g'(1) nx'(1) U_tag chain_ok_hd unfolding up by fastforce
        qed (use n Suc due in simp_all)
        moreover have "clean_loop fr cb bound ti ep count = clean_loop fr cb bound ?ti ep n"
          using busy p U_tag gs(1) nx(3) n Suc fr(1) by (subst clean_loop.simps) (simp add: Let_def)
        ultimately show ?thesis
          using clean_free [OF _ fr(2) hd' U_tag refl fr(3) due, where r = "clean_loop fr cb bound ti ep count"] n by simp
      qed
    qed
  qed
qed

section \<open>Quiescing\<close>

text \<open>A chain at rest.\<close>

definition chain_wf :: "limbo_group list \<Rightarrow> nat \<Rightarrow> bool" where
  "chain_wf gs t \<longleftrightarrow> chain_ok 0 gs t \<and> lg_wf (hd gs)"

definition pending :: "'w threadinfo \<Rightarrow> (addr \<times> memtag \<times> epoch) list" where
  "pending ti = chain_pend 0 (ti_limbo ti)"

definition stopped :: "epoch \<Rightarrow> limbo_group list \<Rightarrow> nat \<Rightarrow> bool" where
  "stopped bound gs c \<longleftrightarrow> c = 0 \<or> chain_pend 0 gs = [] \<or>
     (\<exists>e. first_epoch (hd gs) = Some e \<and> sint (bound - e) < 0)"

lemma clean_until_post:
  assumes cb: "callback_ok cb" and wf: "chain_wf (ti_limbo ti) (ti_tail ti)" and c: "0 < count"
  obtains gs t dn calls st c where
    "clean_until fr cb bound ti count = Some (ti\<lparr>ti_limbo := gs, ti_tail := t, ti_store := st\<rparr>, c)"
    "chain_wf gs t" "free_all fr cb (ti_store ti) dn = (calls, st)"
    "chain_pend 0 (ti_limbo ti) @ calls = dn @ chain_pend 0 gs" "length dn + c = count" "due bound dn"
    "dn = [] \<Longrightarrow> t = ti_tail ti"
    "if lg_live (hd gs) = [] then 0 < c
     else c = 0 \<or> (\<exists>e. first_epoch (hd gs) = Some e \<and> sint (bound - e) < 0)"
proof -
  have "clean_post fr cb bound ti 0 count (clean_loop fr cb bound ti 0 count)"
    using wf by (intro clean_loop_post [OF cb _ c]) (auto simp: chain_wf_def lg_wf_def)
  then obtain gs t dn calls st c where
    r: "clean_loop fr cb bound ti 0 count = Some (ti\<lparr>ti_limbo := gs, ti_tail := t, ti_store := st\<rparr>, c)"
    and ok: "chain_ok 0 gs t" "lg_live (hd gs) \<noteq> [] \<longrightarrow> is_marker (hd (lg_live (hd gs)))"
    and f: "free_all fr cb (ti_store ti) dn = (calls, st)"
      "chain_pend 0 (ti_limbo ti) @ calls = dn @ chain_pend 0 gs" "length dn + c = count" "due bound dn"
      "dn = [] \<longrightarrow> t = ti_tail ti"
      "if lg_live (hd gs) = [] then 0 < c
       else c = 0 \<or> (\<exists>e. first_epoch (hd gs) = Some e \<and> sint (bound - e) < 0)"
    unfolding clean_post_def by blast
  obtain g rest where g: "gs = g # rest" "lg_ok 0 g" using chain_ok_Cons [OF ok(1)] by blast
  show thesis
  proof (cases "lg_live g = []")
    case True
    let ?g = "g\<lparr>lg_head := 0, lg_tail := 0\<rparr>"
    have L: "lg_live ?g = []" by (simp add: lg_live_def)
    have w: "lg_wf ?g" using g(2) L by (simp add: lg_wf_def lg_ok_def)
    have "clean_until fr cb bound ti count =
        Some (ti\<lparr>ti_limbo := ?g # rest, ti_tail := t, ti_store := st\<rparr>, c)"
      using True g live_Nil by (simp add: clean_until_def r upd_head_def)
    moreover have "chain_wf (?g # rest) t"
      using w lg_wf_ok [OF w] ok(1) chain_ok_hd unfolding g(1) chain_wf_def by fastforce
    ultimately show thesis
      using that [of st t "?g # rest" c dn calls] True L f g(1) by (simp add: chain_pend_def)
  next
    case False
    have "clean_until fr cb bound ti count = Some (ti\<lparr>ti_limbo := gs, ti_tail := t, ti_store := st\<rparr>, c)"
      using False g live_Nil by (simp add: clean_until_def r)
    moreover have "chain_wf gs t" using ok False g by (simp add: chain_wf_def lg_wf_def)
    ultimately show thesis using that f by blast
  qed
qed

lemma free_all_append:
  assumes "free_all fr cb st xs = (c1, st1)" "free_all fr cb st1 ys = (c2, st2)"
  shows "free_all fr cb st (xs @ ys) = (c1 @ c2, st2)"
  using assms
proof (induction xs arbitrary: st c1)
  case (Cons x xs)
  obtain p tag e where x: "x = (p, tag, e)" by (cases x)
  obtain c0 st0 where f: "free_effect fr cb p tag st = (c0, st0)" by fastforce
  obtain c st' where g: "free_all fr cb st0 xs = (c, st')" by fastforce
  show ?case using Cons.IH [of st0 c] Cons.prems f g x by auto
qed simp

definition quiesce_post ::
  "(addr \<Rightarrow> 'w \<Rightarrow> 'w) \<Rightarrow> 'w callback \<Rightarrow> epoch \<Rightarrow> 'w threadinfo \<Rightarrow> nat \<Rightarrow>
   ('w threadinfo \<times> limbo_group list \<times> nat) option \<Rightarrow> bool"
where
  "quiesce_post fr cb bound ti count r \<longleftrightarrow>
     (\<exists>gs t es dn calls st c. r = Some (ti\<lparr>ti_limbo := gs, ti_tail := t, ti_store := st\<rparr>, es, c) \<and>
        chain_wf gs t \<and> (\<forall>g \<in> set es. lg_empty g) \<and> free_all fr cb (ti_store ti) dn = (calls, st) \<and>
        chain_pend 0 (ti_limbo ti) @ calls = dn @ chain_pend 0 gs \<and> length dn + c = count \<and> due bound dn \<and>
        stopped bound gs c \<and> (0 < t \<longrightarrow> lg_live (hd gs) \<noteq> []))"

lemma chain_wf_nonempty: "chain_wf gs t \<Longrightarrow> \<exists>g rest. gs = g # rest \<and> lg_wf g"
  by (cases gs) (auto simp: chain_wf_def chain_ok_def)

lemma chain_wf_tl:
  assumes "chain_wf (g # gs) t" "lg_live g = []" "0 < t"
  shows "chain_wf gs (t - 1)" "chain_pend 0 gs = chain_pend 0 (g # gs)" "lg_empty g"
proof -
  have A: "lg_wf (gs ! i)" "lg_live (gs ! i) \<noteq> []" if "i < t" for i
    using assms(1) that by (auto simp: chain_wf_def chain_ok_def dest: spec [of _ "Suc i"])
  have B: "lg_empty (gs ! i)" if "t \<le> i" "i < length gs" for i
    using assms(1) that by (auto simp: chain_wf_def chain_ok_def dest: spec [of _ "Suc i"])
  have w: "t \<le> length gs" "gs \<noteq> []" using assms by (auto simp: chain_wf_def chain_ok_def)
  then show "chain_wf gs (t - 1)"
    using A B assms(3) lg_wf_ok [OF A(1) [OF assms(3)]] by (auto simp: chain_wf_def chain_ok_def hd_conv_nth)
  show "chain_pend 0 gs = chain_pend 0 (g # gs)" using w(2) assms(2) by (cases gs) (auto simp: chain_pend_def)
  show "lg_empty g" using assms(1,2) by (auto simp: chain_wf_def lg_wf_def lg_empty_def lg_ok_def)
qed

lemma chain_wf_empty:
  assumes "chain_wf (g # gs) 0" "lg_live g = []" "\<forall>g \<in> set es. lg_empty g"
  shows "chain_wf (es @ g # gs) 0" "chain_pend 0 (es @ g # gs) = []" "chain_pend 0 (g # gs) = []"
proof -
  have "lg_empty g" using assms(1,2) by (auto simp: chain_wf_def lg_wf_def lg_empty_def lg_ok_def)
  moreover have "\<forall>h \<in> set gs. lg_empty h"
    using assms(1) by (force simp: chain_wf_def chain_ok_def in_set_conv_nth dest: spec [of _ "Suc _"])
  ultimately have E: "\<forall>h \<in> set (es @ g # gs). lg_empty h" using assms(3) by auto
  then have "lg_empty (hd (es @ g # gs))" by (metis append_is_Nil_conv list.distinct(1) list.set_sel(1))
  moreover have "lg_empty ((es @ g # gs) ! i)" if "i < length (es @ g # gs)" for i
    using E that by (metis nth_mem)
  ultimately show "chain_wf (es @ g # gs) 0"
    using lg_empty_ok by (auto simp: chain_wf_def chain_ok_def)
  show "chain_pend 0 (es @ g # gs) = []" "chain_pend 0 (g # gs) = []"
    using E by (cases es; auto simp: chain_pend_def lg_empty_ok)+
qed

lemma quiesce_post_trans:
  assumes q: "quiesce_post fr cb bound (ti\<lparr>ti_limbo := gs', ti_tail := t, ti_store := st\<rparr>) c r"
    and f: "free_all fr cb (ti_store ti) dn = (calls, st)"
      "chain_pend 0 (ti_limbo ti) @ calls = dn @ chain_pend 0 gs'" "length dn + c = count" "due bound dn"
  shows "quiesce_post fr cb bound ti count r"
proof -
  let ?ti = "ti\<lparr>ti_limbo := gs', ti_tail := t, ti_store := st\<rparr>"
  obtain gs2 t2 es dn2 calls2 st2 c2 where
    r: "r = Some (?ti\<lparr>ti_limbo := gs2, ti_tail := t2, ti_store := st2\<rparr>, es, c2)"
    and p: "chain_wf gs2 t2" "\<forall>g \<in> set es. lg_empty g" "free_all fr cb (ti_store ?ti) dn2 = (calls2, st2)"
      "chain_pend 0 (ti_limbo ?ti) @ calls2 = dn2 @ chain_pend 0 gs2" "length dn2 + c2 = c" "due bound dn2"
      "stopped bound gs2 c2" "0 < t2 \<longrightarrow> lg_live (hd gs2) \<noteq> []"
    using q unfolding quiesce_post_def by blast
  show ?thesis unfolding quiesce_post_def
  proof (intro exI conjI)
    show "r = Some (ti\<lparr>ti_limbo := gs2, ti_tail := t2, ti_store := st2\<rparr>, es, c2)" using r by simp
    show "free_all fr cb (ti_store ti) (dn @ dn2) = (calls @ calls2, st2)"
      using free_all_append [OF f(1)] p(3) by simp
    show "chain_pend 0 (ti_limbo ti) @ calls @ calls2 = (dn @ dn2) @ chain_pend 0 gs2"
      using f(2) p(4) by (simp flip: append_assoc) simp
    show "length (dn @ dn2) + c2 = count" "due bound (dn @ dn2)" using f p by (auto simp: due_def)
  qed (use p in auto)
qed

lemma quiesce_post_stop:
  assumes "chain_wf gs t" "\<forall>g \<in> set es. lg_empty g" "free_all fr cb (ti_store ti) dn = (calls, st)"
    "chain_pend 0 (ti_limbo ti) @ calls = dn @ chain_pend 0 gs" "length dn + c = count" "due bound dn"
    "stopped bound gs c" "0 < t \<longrightarrow> lg_live (hd gs) \<noteq> []"
  shows "quiesce_post fr cb bound ti count (Some (ti\<lparr>ti_limbo := gs, ti_tail := t, ti_store := st\<rparr>, es, c))"
  unfolding quiesce_post_def using assms by blast

lemma quiesce_loop_post:
  assumes cb: "callback_ok cb" and "chain_wf (ti_limbo ti) (ti_tail ti)" "\<forall>g \<in> set es. lg_empty g" "0 < count"
  shows "quiesce_post fr cb bound ti count (quiesce_loop fr cb bound ti es count)"
  using assms(2-)
proof (induction "(count, ti_tail ti)" arbitrary: ti es count
    rule: wf_induct_rule [of "less_than <*lex*> less_than", OF wf_lex_prod [OF wf_less_than wf_less_than]])
  case 1
  obtain gs t dn calls st c where
    r: "clean_until fr cb bound ti count = Some (ti\<lparr>ti_limbo := gs, ti_tail := t, ti_store := st\<rparr>, c)"
    and f: "chain_wf gs t" "free_all fr cb (ti_store ti) dn = (calls, st)"
      "chain_pend 0 (ti_limbo ti) @ calls = dn @ chain_pend 0 gs" "length dn + c = count" "due bound dn"
      "dn = [] \<Longrightarrow> t = ti_tail ti"
      "if lg_live (hd gs) = [] then 0 < c
       else c = 0 \<or> (\<exists>e. first_epoch (hd gs) = Some e \<and> sint (bound - e) < 0)"
    by (rule clean_until_post [OF cb 1(2,4), where fr = fr and bound = bound]) blast
  obtain g rest where g: "gs = g # rest" "lg_wf g" using chain_wf_nonempty [OF f(1)] by blast
  have nil: "lg_live g = [] \<longleftrightarrow> lg_head g = lg_tail g" using live_Nil [OF lg_wf_ok [OF g(2)]] by blast
  consider (more) "lg_live g \<noteq> []" | (last) "lg_live g = []" "t = 0" | (walk) "lg_live g = []" "0 < t" by blast
  then show ?case
  proof cases
    case more
    then have eq: "quiesce_loop fr cb bound ti es count =
        Some (ti\<lparr>ti_limbo := gs, ti_tail := t, ti_store := st\<rparr>, es, c)"
      using 1(4) r g nil by (subst quiesce_loop.simps) simp
    have "stopped bound gs c" using f(7) more g(1) by (auto simp: stopped_def)
    then show ?thesis unfolding eq using quiesce_post_stop [OF f(1) 1(3) f(2-5)] more g(1) by simp
  next
    case last
    then have "quiesce_loop fr cb bound ti es count =
        Some (ti\<lparr>ti_limbo := es @ gs, ti_tail := 0, ti_store := st\<rparr>, [], c)"
      using 1(4) r g nil by (subst quiesce_loop.simps) simp
    moreover note w = chain_wf_empty [OF f(1) [unfolded g(1) last(2)] last(1) 1(3)]
    have "stopped bound (es @ gs) c" using w(2) g(1) by (simp add: stopped_def)
    ultimately show ?thesis
      using quiesce_post_stop [OF w(1), of "[]" fr cb ti dn calls st c count bound] f(2-5) w(2,3) g(1) by simp
  next
    case walk
    let ?ti = "ti\<lparr>ti_limbo := rest, ti_tail := t - 1, ti_store := st\<rparr>"
    note w = chain_wf_tl [OF f(1) [unfolded g(1)] walk]
    have "quiesce_loop fr cb bound ti es count = quiesce_loop fr cb bound ?ti (es @ [g]) c"
      using 1(4) r g nil walk
      by (subst quiesce_loop.simps, simp)
        (rule arg_cong [where f = "\<lambda>x. quiesce_loop fr cb bound x (es @ [g]) c"], cases ti, simp)
    moreover have "quiesce_post fr cb bound ?ti c (quiesce_loop fr cb bound ?ti (es @ [g]) c)"
      by (rule 1(1)) (use f(4,6,7) walk w 1(3) g(1) in \<open>auto simp: Suc_le_eq\<close>)
    ultimately show ?thesis
      using quiesce_post_trans [OF _ f(2) _ f(4,5)] f(3) w(2) g(1) by simp
  qed
qed

lemma chain_wf_hook:
  assumes "chain_wf gs t" "\<forall>g \<in> set es. lg_empty g"
  shows "chain_wf (take (Suc t) gs @ es @ drop (Suc t) gs) t"
    "chain_pend 0 (take (Suc t) gs @ es @ drop (Suc t) gs) = chain_pend 0 gs"
    "hd (take (Suc t) gs @ es @ drop (Suc t) gs) = hd gs"
proof -
  let ?gs = "take (Suc t) gs @ es @ drop (Suc t) gs"
  have t: "t < length gs" using assms(1) by (simp add: chain_wf_def chain_ok_def)
  show H: "hd ?gs = hd gs" using t by (cases gs) auto
  have emp: "lg_empty g" if "g \<in> set es \<union> set (drop (Suc t) gs)" for g
    using that assms t by (fastforce simp: chain_wf_def chain_ok_def in_set_conv_nth)
  have "lg_empty (?gs ! i)" if "t < i" "i < length ?gs" for i
  proof -
    have "?gs ! i = (es @ drop (Suc t) gs) ! (i - Suc t)" "i - Suc t < length (es @ drop (Suc t) gs)"
      using that t by (auto simp: nth_append)
    then have "?gs ! i \<in> set (es @ drop (Suc t) gs)" by (metis nth_mem)
    then show ?thesis using emp by auto
  qed
  moreover have "?gs ! i = gs ! i" if "i \<le> t" for i using that t by (simp add: nth_append)
  ultimately have ok: "chain_ok 0 ?gs t"
    using assms(1) H t by (auto simp: chain_wf_def chain_ok_def)
  then show "chain_wf ?gs t" using assms(1) H by (simp add: chain_wf_def)
  have "chain_ok 0 gs t" using assms(1) by (simp add: chain_wf_def)
  then show "chain_pend 0 ?gs = chain_pend 0 gs"
    using chain_pend_upto [OF chain_ok_pre] ok t by simp
qed

text \<open>A thread at rest: the entries are in groups that are in use from the first on.\<close>

definition ti_wf :: "'w threadinfo \<Rightarrow> bool" where
  "ti_wf ti \<longleftrightarrow> chain_wf (ti_limbo ti) (ti_tail ti) \<and> (0 < ti_tail ti \<longrightarrow> lg_live (hd (ti_limbo ti)) \<noteq> [])"

lemma hard_rcu_quiesce_ok:
  assumes cb: "callback_ok cb" and ti: "ti_wf ti"
  obtains ti' dn calls where "hard_rcu_quiesce fr cb ae ti = Some ti'" "ti_wf ti'"
    "free_all fr cb (ti_store ti) dn = (calls, ti_store ti')" "pending ti @ calls = dn @ pending ti'"
    "length dn \<le> rcu_free_count" "due (ae - 1) dn"
    "length dn = rcu_free_count \<and> ti_perform_gc_epoch ti' = ae - 1 \<or>
     ti_perform_gc_epoch ti' = ae \<and> stopped (ae - 1) (ti_limbo ti') 1"
proof -
  have wf: "chain_wf (ti_limbo ti) (ti_tail ti)" using ti by (simp add: ti_wf_def)
  obtain g rest where g: "ti_limbo ti = g # rest" "lg_wf g" using chain_wf_nonempty [OF wf] by blast
  have nil: "lg_live g = [] \<longleftrightarrow> lg_head g = lg_tail g" using live_Nil [OF lg_wf_ok [OF g(2)]] by blast
  consider (none) "lg_live g = []" | (some) x xs e where "lg_live g = x # xs" "le_u x = U_epoch e"
    using g(2) by (cases "lg_live g") (auto simp: lg_wf_def is_marker_def split: limbo_u.splits)
  then show thesis
  proof cases
    case none
    then have "hard_rcu_quiesce fr cb ae ti = Some (ti\<lparr>ti_perform_gc_epoch := ae\<rparr>)"
      using g nil by (simp add: hard_rcu_quiesce_def)
    moreover have "stopped (ae - 1) (ti_limbo ti) 1"
      using ti none g(1) chain_wf_empty(3) [of g rest "[]"] by (auto simp: ti_wf_def stopped_def)
    ultimately show thesis
      using that [of "ti\<lparr>ti_perform_gc_epoch := ae\<rparr>" "[]"] ti by (simp add: pending_def due_def ti_wf_def)
  next
    case some
    have e: "first_epoch g = Some e" by (rule is_marker_first_epoch [OF lg_wf_ok [OF g(2)] some])
    have busy: "lg_head g \<noteq> lg_tail g" using some nil by auto
    show thesis
    proof (cases "sint (ae - 1 - e) < 0")
      case True
      then have "hard_rcu_quiesce fr cb ae ti = Some (ti\<lparr>ti_perform_gc_epoch := ae\<rparr>)"
        using g busy e by (simp add: hard_rcu_quiesce_def)
      moreover have "stopped (ae - 1) (ti_limbo ti) 1" using True e g(1) by (simp add: stopped_def)
      ultimately show thesis
        using that [of "ti\<lparr>ti_perform_gc_epoch := ae\<rparr>" "[]"] ti by (simp add: pending_def due_def ti_wf_def)
    next
      case False
      have "quiesce_post fr cb (ae - 1) ti rcu_free_count (quiesce_loop fr cb (ae - 1) ti [] rcu_free_count)"
        by (rule quiesce_loop_post [OF cb wf]) (simp_all add: rcu_free_count_def)
      then obtain gs t es dn calls st c where
        q: "quiesce_loop fr cb (ae - 1) ti [] rcu_free_count =
            Some (ti\<lparr>ti_limbo := gs, ti_tail := t, ti_store := st\<rparr>, es, c)"
        "chain_wf gs t" "\<forall>g \<in> set es. lg_empty g" "free_all fr cb (ti_store ti) dn = (calls, st)"
        "chain_pend 0 (ti_limbo ti) @ calls = dn @ chain_pend 0 gs" "length dn + c = rcu_free_count"
        "due (ae - 1) dn" "stopped (ae - 1) gs c" "0 < t \<longrightarrow> lg_live (hd gs) \<noteq> []"
        unfolding quiesce_post_def by blast
      note h = chain_wf_hook [OF q(2,3)]
      let ?ti = "ti\<lparr>ti_limbo := take (Suc t) gs @ es @ drop (Suc t) gs, ti_tail := t, ti_store := st,
          ti_perform_gc_epoch := (if c = 0 then ae - 1 else ae)\<rparr>"
      have "hard_rcu_quiesce fr cb ae ti = Some ?ti"
        using g busy e False q(1) by (simp add: hard_rcu_quiesce_def)
      then show thesis
        using that [of ?ti dn calls] q(4-9) h by (auto simp: pending_def stopped_def ti_wf_def)
    qed
  qed
qed

lemma record_rcu_wf:
  assumes "ti_wf ti" "p \<noteq> 0" "tag_ok tag"
  obtains ti' where "record_rcu ti p tag e = Some ti'" "ti_wf ti'" "pending ti' = pending ti @ [(p, tag, e)]"
    "ti_store ti' = ti_store ti"
proof -
  have c: "chain_ok 0 (ti_limbo ti) (ti_tail ti)" "lg_wf (hd (ti_limbo ti))"
    using assms(1) by (auto simp: ti_wf_def chain_wf_def)
  show thesis
  proof (rule record_rcu_ok [OF c(1) assms(2,3) disjI2 [OF c(2)], where e = e])
    fix gs t ys
    assume r: "record_rcu ti p tag e = Some (ti\<lparr>ti_limbo := gs, ti_tail := t\<rparr>)" "chain_ok 0 gs t"
      "chain_pend 0 gs = chain_pend 0 (ti_limbo ti) @ [(p, tag, e)]"
      "lg_live (hd gs) = lg_live (hd (ti_limbo ti)) @ ys" "lg_live (hd gs) \<noteq> [] \<or> ti_tail ti > 0"
      "lg_wf (hd (ti_limbo ti)) \<Longrightarrow> lg_wf (hd gs)"
    then show thesis
      using that [of "ti\<lparr>ti_limbo := gs, ti_tail := t\<rparr>"] assms(1) c
      by (auto simp: ti_wf_def chain_wf_def pending_def)
  qed
qed

section \<open>A contract for reclamation\<close>

text \<open>What a client of the limbo lists relies on: entries are queued in order, and quiescing
  takes entries off the front, only such as are due.\<close>

datatype ('e, 'b) limbo_op = Op_record 'e | Op_quiesce 'b

fun run_ops :: "('s \<Rightarrow> 'e \<Rightarrow> 's option) \<Rightarrow> ('s \<Rightarrow> 'b \<Rightarrow> 's option) \<Rightarrow> 's \<Rightarrow> ('e, 'b) limbo_op list \<Rightarrow> 's option" where
  "run_ops rec quiesce s [] = Some s"
| "run_ops rec quiesce s (Op_record x # ops) = do { s \<leftarrow> rec s x; run_ops rec quiesce s ops }"
| "run_ops rec quiesce s (Op_quiesce b # ops) = do { s \<leftarrow> quiesce s b; run_ops rec quiesce s ops }"

fun recorded :: "('e, 'b) limbo_op list \<Rightarrow> 'e list" where
  "recorded [] = []"
| "recorded (Op_record x # ops) = x # recorded ops"
| "recorded (Op_quiesce b # ops) = recorded ops"

locale reclaimer =
  fixes inv :: "'s \<Rightarrow> bool" and pend :: "'s \<Rightarrow> 'e list"
    and entry_ok :: "'e \<Rightarrow> bool" and bound_ok :: "'b \<Rightarrow> bool" and due_at :: "'b \<Rightarrow> 'e \<Rightarrow> bool"
    and rec :: "'s \<Rightarrow> 'e \<Rightarrow> 's option" and quiesce :: "'s \<Rightarrow> 'b \<Rightarrow> 's option"
  assumes rec_law: "inv s \<Longrightarrow> entry_ok x \<Longrightarrow> \<exists>s'. rec s x = Some s' \<and> inv s' \<and> pend s' = pend s @ [x]"
    and quiesce_law: "inv s \<Longrightarrow> bound_ok b \<Longrightarrow> \<exists>s' dn calls. quiesce s b = Some s' \<and> inv s' \<and>
       pend s @ calls = dn @ pend s' \<and> (\<forall>x \<in> set dn. due_at b x)"
begin

lemma run_ops_in_order:
  assumes "inv s" "\<forall>x. Op_record x \<in> set ops \<longrightarrow> entry_ok x" "\<forall>b. Op_quiesce b \<in> set ops \<longrightarrow> bound_ok b"
  shows "\<exists>s' dn recs. run_ops rec quiesce s ops = Some s' \<and> inv s' \<and> pend s @ recs = dn @ pend s' \<and>
    subseq (recorded ops) recs \<and> (\<forall>x \<in> set dn. \<exists>b. Op_quiesce b \<in> set ops \<and> due_at b x)"
  using assms
proof (induction ops arbitrary: s)
  case Nil
  then show ?case by (intro exI [of _ s] exI [of _ "[]"]) simp
next
  case (Cons op ops)
  show ?case
  proof (cases op)
    case (Op_record x)
    obtain s1 where s1: "rec s x = Some s1" "inv s1" "pend s1 = pend s @ [x]"
      using rec_law [of s x] Cons.prems Op_record by auto
    obtain s' dn recs where "run_ops rec quiesce s1 ops = Some s'" "inv s'" "pend s1 @ recs = dn @ pend s'"
      "subseq (recorded ops) recs" "\<forall>x \<in> set dn. \<exists>b. Op_quiesce b \<in> set ops \<and> due_at b x"
      using Cons.IH [OF s1(2)] Cons.prems by auto
    then show ?thesis
      using s1 Op_record by (intro exI [of _ s'] exI [of _ dn] exI [of _ "x # recs"]) auto
  next
    case (Op_quiesce b)
    obtain s1 dn1 calls where s1: "quiesce s b = Some s1" "inv s1" "pend s @ calls = dn1 @ pend s1"
      "\<forall>x \<in> set dn1. due_at b x"
      using quiesce_law [of s b] Cons.prems Op_quiesce by auto
    obtain s' dn recs where "run_ops rec quiesce s1 ops = Some s'" "inv s'" "pend s1 @ recs = dn @ pend s'"
      "subseq (recorded ops) recs" "\<forall>x \<in> set dn. \<exists>b. Op_quiesce b \<in> set ops \<and> due_at b x"
      using Cons.IH [OF s1(2)] Cons.prems by auto
    moreover from this have "pend s @ calls @ recs = (dn1 @ dn) @ pend s'"
      using s1(3) by (simp flip: append_assoc) simp
    ultimately show ?thesis
      using s1 Op_quiesce
      by (intro exI [of _ s'] exI [of _ "dn1 @ dn"] exI [of _ "calls @ recs"])
        (auto intro: list_emb_append2)
  qed
qed

end

definition rcu_record :: "'w threadinfo \<Rightarrow> addr \<times> memtag \<times> epoch \<Rightarrow> 'w threadinfo option" where
  "rcu_record ti = (\<lambda>(p, tag, e). record_rcu ti p tag e)"

definition rcu_hard_quiesce ::
  "'w threadinfo \<Rightarrow> (addr \<Rightarrow> 'w \<Rightarrow> 'w) \<times> 'w callback \<times> epoch \<Rightarrow> 'w threadinfo option" where
  "rcu_hard_quiesce ti = (\<lambda>(fr, cb, ae). hard_rcu_quiesce fr cb ae ti)"

definition rcu_entry_ok :: "addr \<times> memtag \<times> epoch \<Rightarrow> bool" where
  "rcu_entry_ok = (\<lambda>(p, tag, e). p \<noteq> 0 \<and> tag_ok tag)"

interpretation limbo: reclaimer ti_wf pending rcu_entry_ok "\<lambda>(fr, cb, ae). callback_ok cb"
  "\<lambda>(fr, cb, ae) (p, tag, e). 0 \<le> sint (ae - 1 - e)" rcu_record rcu_hard_quiesce
proof
  fix ti :: "'w threadinfo" and x
  assume "ti_wf ti" "rcu_entry_ok x"
  then show "\<exists>ti'. rcu_record ti x = Some ti' \<and> ti_wf ti' \<and> pending ti' = pending ti @ [x]"
    by (cases x) (auto simp: rcu_record_def rcu_entry_ok_def elim: record_rcu_wf)
next
  fix ti :: "'w threadinfo" and b :: "(addr \<Rightarrow> 'w \<Rightarrow> 'w) \<times> 'w callback \<times> epoch"
  assume ti: "ti_wf ti" and b: "case b of (fr, cb, ae) \<Rightarrow> callback_ok cb"
  obtain fr cb ae where bb: "b = (fr, cb, ae)" by (cases b)
  then have cb: "callback_ok cb" using b by simp
  obtain ti' dn calls where "hard_rcu_quiesce fr cb ae ti = Some ti'" "ti_wf ti'"
    "pending ti @ calls = dn @ pending ti'" "due (ae - 1) dn"
    by (rule hard_rcu_quiesce_ok [OF cb ti])
  then show "\<exists>ti' dn calls. rcu_hard_quiesce ti b = Some ti' \<and> ti_wf ti' \<and> pending ti @ calls = dn @ pending ti' \<and>
      (\<forall>x \<in> set dn. (case b of (fr, cb, ae) \<Rightarrow> \<lambda>(p, tag, e). 0 \<le> sint (ae - 1 - e)) x)"
    by (auto simp: rcu_hard_quiesce_def bb due_def)
qed

lemma threadinfo_make_wf: "ti_wf (threadinfo_make purpose index mem w)" "pending (threadinfo_make purpose index mem w) = []"
  using lg_make_empty lg_empty_ok [OF lg_make_empty]
  by (auto simp: ti_wf_def threadinfo_make_def chain_wf_def chain_ok_def pending_def chain_pend_def)

section \<open>Properties of reclamation\<close>



text \<open>C14: \<open>hard_rcu_quiesce\<close> always returns, even when the callbacks it runs record more
  memory.  It frees at most 128 entries, the oldest ones, all of them recorded before the
  active epoch; if it has not freed 128, it stops only at an entry that is not due or at the end,
  and asks to be run again at the next epoch.\<close>

theorem hard_rcu_quiesce_correct:
  assumes "callback_ok cb" "ti_wf ti"
  shows "\<exists>ti' freed calls. hard_rcu_quiesce fr cb ae ti = Some ti' \<and> ti_wf ti' \<and>
    free_all fr cb (ti_store ti) freed = (calls, ti_store ti') \<and> pending ti @ calls = freed @ pending ti' \<and>
    length freed \<le> 128 \<and> (\<forall>(p, tag, e) \<in> set freed. 0 \<le> sint (ae - 1 - e)) \<and>
    (length freed = 128 \<and> ti_perform_gc_epoch ti' = ae - 1 \<or>
     ti_perform_gc_epoch ti' = ae \<and>
       (pending ti' = [] \<or> (\<exists>e. first_epoch (hd (ti_limbo ti')) = Some e \<and> sint (ae - 1 - e) < 0)))"
  by (rule hard_rcu_quiesce_ok [OF assms, where fr = fr and ae = ae], intro exI conjI)
    (auto simp: due_def stopped_def pending_def rcu_free_count_def)

lemma hard_rcu_quiesce_correct_witness:
  "\<exists>ti' freed calls. hard_rcu_quiesce (#) (\<lambda>p st. ([], st)) 3 (threadinfo_make 1 0 (\<lambda>_. 0) ([] :: addr list)) = Some ti' \<and>
     [] @ calls = freed @ pending ti'"
  using hard_rcu_quiesce_correct [of "\<lambda>p st. ([], st)" "threadinfo_make 1 0 (\<lambda>_. 0) ([] :: addr list)" "(#)" 3]
  by (auto simp: threadinfo_make_wf callback_ok_def calls_ok_def)

end
