(* ===== verification/Kv_Epoch.thy ===== *)
theory Kv_Epoch
  imports Kv_Thread
begin

text \<open>
  The other half of reclamation and the rest of a thread's state: why an entry that is due is
  not held by any reader (the epochs of all threads, and the timer of \<^verbatim>\<open>mtd.cc\<close> that advances
  them), the memory pools of \<^verbatim>\<open>kvthread.cc\<close>, and the timestamps of a thread.
\<close>

section \<open>Epochs\<close>

text \<open>
  The threads run as interleaved steps.  \<open>rcu_start\<close> is two steps, the load of the global epoch
  and the store of the thread's own; the timer handler \<open>epochinc\<close> is a store of the global epoch,
  one step for every thread \<open>min_active_epoch\<close> looks at, and the store of the active epoch;
  \<open>hard_rcu_quiesce\<close> loads the active epoch once and then frees entry by entry.  A reader holds
  the addresses it has reached since its last quiescent point; it reaches only memory that is
  linked at that moment.  Memory is unlinked first and recorded later, with the global epoch of
  that later moment.
\<close>

type_synonym tid = nat

record machine =
  m_global :: epoch
  m_active :: epoch
  m_gc :: "tid \<Rightarrow> epoch"
  m_loaded :: "tid \<Rightarrow> epoch option"
  m_held :: "tid \<Rightarrow> addr set"
  m_linked :: "addr set"
  m_unlinked :: "addr set"
  m_limbo :: "(addr \<times> epoch) set"
  m_freed :: "addr set"
  m_scan :: "(epoch \<times> tid list) option"
  m_bound :: "tid \<Rightarrow> epoch option"

definition machine_init :: "addr set \<Rightarrow> machine" where
  "machine_init mem =
     \<lparr>m_global = 1, m_active = 1, m_gc = (\<lambda>_. 0), m_loaded = (\<lambda>_. None), m_held = (\<lambda>_. {}),
      m_linked = mem, m_unlinked = {}, m_limbo = {}, m_freed = {}, m_scan = None, m_bound = (\<lambda>_. None)\<rparr>"

inductive estep :: "tid list \<Rightarrow> machine \<Rightarrow> machine \<Rightarrow> bool" for ts :: "tid list" where
  start_load: "t \<in> set ts \<Longrightarrow> m_loaded s t = None \<Longrightarrow>
    estep ts s (s\<lparr>m_loaded := (m_loaded s)(t := Some (m_global s)), m_held := (m_held s)(t := {})\<rparr>)"
| start_store: "m_loaded s t = Some e \<Longrightarrow>
    estep ts s (s\<lparr>m_gc := (m_gc s)(t := e), m_loaded := (m_loaded s)(t := None)\<rparr>)"
| stop: "t \<in> set ts \<Longrightarrow> m_loaded s t = None \<Longrightarrow>
    estep ts s (s\<lparr>m_gc := (m_gc s)(t := 0), m_held := (m_held s)(t := {})\<rparr>)"
| link: "p \<notin> m_linked s \<union> m_unlinked s \<union> fst ` m_limbo s \<union> m_freed s \<Longrightarrow>
    estep ts s (s\<lparr>m_linked := insert p (m_linked s)\<rparr>)"
| hold: "t \<in> set ts \<Longrightarrow> m_gc s t \<noteq> 0 \<Longrightarrow> m_loaded s t = None \<Longrightarrow> p \<in> m_linked s \<Longrightarrow>
    estep ts s (s\<lparr>m_held := (m_held s)(t := insert p (m_held s t))\<rparr>)"
| unlink: "p \<in> m_linked s \<Longrightarrow>
    estep ts s (s\<lparr>m_linked := m_linked s - {p}, m_unlinked := insert p (m_unlinked s)\<rparr>)"
| retire: "p \<in> m_unlinked s \<Longrightarrow>
    estep ts s (s\<lparr>m_unlinked := m_unlinked s - {p}, m_limbo := insert (p, m_global s) (m_limbo s)\<rparr>)"
| tick: "m_scan s = None \<Longrightarrow> unat (m_global s) + 2 < 2 ^ 63 \<Longrightarrow>
    estep ts s (s\<lparr>m_global := m_global s + 2, m_scan := Some (m_global s + 2, ts)\<rparr>)"
| scan: "m_scan s = Some (ae, t # ts') \<Longrightarrow>
    estep ts s (s\<lparr>m_scan := Some (min_epoch ae (m_gc s t), ts')\<rparr>)"
| scanned: "m_scan s = Some (ae, []) \<Longrightarrow> estep ts s (s\<lparr>m_active := ae, m_scan := None\<rparr>)"
| bound: "estep ts s (s\<lparr>m_bound := (m_bound s)(t := Some (m_active s - 1))\<rparr>)"
| free: "m_bound s t = Some b \<Longrightarrow> (p, e) \<in> m_limbo s \<Longrightarrow> 0 \<le> sint (b - e) \<Longrightarrow>
    estep ts s (s\<lparr>m_limbo := m_limbo s - {(p, e)}, m_freed := insert p (m_freed s)\<rparr>)"

inductive reachable :: "tid list \<Rightarrow> addr set \<Rightarrow> machine \<Rightarrow> bool" for ts mem where
  reach_init: "reachable ts mem (machine_init mem)"
| reach_step: "reachable ts mem s \<Longrightarrow> estep ts s s' \<Longrightarrow> reachable ts mem s'"

text \<open>Within the first half of the epoch's range the signed comparison is the order.\<close>

lemma sint_diff_less:
  assumes "unat (a :: u64) < 2 ^ 63" "unat b < 2 ^ 63"
  shows "sint (a - b) < 0 \<longleftrightarrow> a < b"
proof -
  have "sint (a - b) < 0 \<longleftrightarrow> 0 < unat (b - a) \<and> unat (b - a) \<le> 2 ^ 63"
    using less_ahead [of a b] by (simp add: less_def ahead_def)
  also have "\<dots> \<longleftrightarrow> a < b"
    using assms by (auto simp: unat_sub_if_size word_less_nat_alt word_le_nat_alt word_size)
  finally show ?thesis .
qed

text \<open>The invariant: epochs are ordered as they are read, and every reader that holds memory in
  a limbo list keeps the epoch the list is cleaned up to below that of the entry.\<close>

definition epochs_ok :: "machine \<Rightarrow> bool" where
  "epochs_ok s \<longleftrightarrow> unat (m_global s) < 2 ^ 63 \<and> 0 < m_active s \<and> m_active s \<le> m_global s \<and>
     (\<forall>t. m_gc s t \<le> m_global s) \<and> (\<forall>t e. m_loaded s t = Some e \<longrightarrow> 0 < e \<and> e \<le> m_global s) \<and>
     (\<forall>p e. (p, e) \<in> m_limbo s \<longrightarrow> e \<le> m_global s) \<and>
     (\<forall>ae r. m_scan s = Some (ae, r) \<longrightarrow> 0 < ae \<and> ae \<le> m_global s) \<and>
     (\<forall>t b. m_bound s t = Some b \<longrightarrow> b < m_global s)"

definition places_ok :: "machine \<Rightarrow> bool" where
  "places_ok s \<longleftrightarrow> (\<forall>p. p \<in> m_linked s \<longrightarrow> p \<notin> m_unlinked s \<and> p \<notin> m_freed s) \<and>
     (\<forall>p. p \<in> m_unlinked s \<longrightarrow> p \<notin> m_freed s) \<and>
     (\<forall>p e. (p, e) \<in> m_limbo s \<longrightarrow> p \<notin> m_linked s \<and> p \<notin> m_unlinked s \<and> p \<notin> m_freed s \<and>
        (\<forall>e'. (p, e') \<in> m_limbo s \<longrightarrow> e' = e))"

definition readers_ok :: "tid list \<Rightarrow> machine \<Rightarrow> bool" where
  "readers_ok ts s \<longleftrightarrow> (\<forall>t p. p \<in> m_held s t \<longrightarrow>
     t \<in> set ts \<and> m_gc s t \<noteq> 0 \<and> m_loaded s t = None \<and> p \<notin> m_freed s \<and>
     (\<forall>e. (p, e) \<in> m_limbo s \<longrightarrow> m_gc s t \<le> e \<and> m_active s \<le> e \<and>
        (\<forall>ae r. m_scan s = Some (ae, r) \<longrightarrow> ae \<le> e \<or> t \<in> set r) \<and>
        (\<forall>u b. m_bound s u = Some b \<longrightarrow> b < e)))"

definition machine_ok :: "tid list \<Rightarrow> machine \<Rightarrow> bool" where
  "machine_ok ts s \<longleftrightarrow> epochs_ok s \<and> places_ok s \<and> readers_ok ts s"

lemmas machine_ok_defs = machine_ok_def epochs_ok_def places_ok_def readers_ok_def

lemma machine_init_ok: "machine_ok ts (machine_init mem)"
  by (simp add: machine_ok_defs machine_init_def)

lemma le_global_small: "unat (g :: u64) < 2 ^ 63 \<Longrightarrow> e \<le> g \<Longrightarrow> unat e < 2 ^ 63"
  by (simp add: word_le_nat_alt)

lemma pred_less: "0 < (a :: u64) \<Longrightarrow> a - 1 < a"
  by (simp add: word_less_nat_alt unat_minus_one word_neq_0_conv [symmetric] unat_gt_0)

lemma min_epoch_small:
  assumes "unat ae < 2 ^ 63" "unat te < 2 ^ 63"
  shows "min_epoch ae te = (if te \<noteq> 0 \<and> te < ae then te else ae)"
  unfolding min_epoch_def sint_diff_less [OF assms(2,1)] ..

lemma tick_global:
  assumes u: "unat (g :: epoch) + 2 < 2 ^ 63"
  shows "g < g + 2" "unat (g + 2) < 2 ^ 63"
proof -
  have "unat (g + 2) = (unat g + 2) mod 2 ^ 64" by (simp add: unat_word_ariths)
  also have "\<dots> = unat g + 2" by (rule mod_less) (use u in simp)
  finally have a: "unat (g + 2) = unat g + 2" .
  show "g < g + 2" unfolding word_less_nat_alt a by simp
  show "unat (g + 2) < 2 ^ 63" unfolding a by (rule u)
qed

lemma estep_places:
  assumes "estep ts s s'" and ok: "places_ok s"
  shows "places_ok s'"
  using assms(1)
proof (cases rule: estep.cases)
  case (retire p)
  then have "(p, e) \<notin> m_limbo s" "p \<notin> m_freed s" "p \<notin> m_linked s" for e using ok unfolding places_ok_def by blast+
  then show ?thesis using ok unfolding retire(1) places_ok_def by auto
next
  case (free t b p e)
  then have "p \<notin> m_linked s" "p \<notin> m_unlinked s" "(p, e') \<in> m_limbo s \<Longrightarrow> e' = e" for e'
    using ok unfolding places_ok_def by blast+
  then show ?thesis using ok unfolding free(1) places_ok_def by auto
next
  case (link p)
  then have "(p, e) \<notin> m_limbo s" for e by force
  then show ?thesis using ok link unfolding places_ok_def by auto
next
  case (unlink p)
  then show ?thesis using ok unfolding places_ok_def by auto
qed (use ok in \<open>simp_all add: places_ok_def\<close>)

lemma estep_epochs:
  assumes "estep ts s s'" "epochs_ok s"
  shows "epochs_ok s'"
  using assms(1)
proof (cases rule: estep.cases)
  case tick
  note g = tick_global [OF tick(3)]
  have "x \<le> m_global s \<Longrightarrow> x \<le> m_global s + 2" "x < m_global s \<Longrightarrow> x < m_global s + 2" for x
    using g(1) by (auto intro: order_trans order_less_trans order_less_imp_le)
  moreover have "0 < m_global s + 2" using g(1) by (rule order_le_less_trans [OF word_zero_le])
  ultimately show ?thesis using tick assms(2) g by (auto simp: epochs_ok_def)
next
  case (scan ae t ts')
  have "unat ae < 2 ^ 63" "unat (m_gc s t) < 2 ^ 63"
    using scan assms(2) le_global_small unfolding epochs_ok_def by blast+
  note m = min_epoch_small [OF this]
  show ?thesis using scan assms(2) by (auto simp: epochs_ok_def m word_neq_0_conv)
next
  case (bound t)
  have "m_active s - 1 < m_global s"
    using assms(2) pred_less by (auto simp: epochs_ok_def intro: order_less_le_trans)
  then show ?thesis using bound assms(2) by (auto simp: epochs_ok_def)
qed (use assms(2) in \<open>auto simp: epochs_ok_def\<close>)

lemma estep_readers:
  assumes st: "estep ts s s'" and ok: "epochs_ok s" "places_ok s" "readers_ok ts s"
  shows "readers_ok ts s'"
  using st
proof (cases rule: estep.cases)
  case (scan ae t ts')
  have "unat ae < 2 ^ 63" "unat (m_gc s t) < 2 ^ 63"
    using scan ok(1) le_global_small unfolding epochs_ok_def by blast+
  note m = min_epoch_small [OF this]
  show ?thesis using scan ok(3) unfolding readers_ok_def by (fastforce simp: m not_less)
next
  case (bound t)
  have "m_active s - 1 < e" if "m_active s \<le> e" for e
    using ok(1) pred_less that by (auto simp: epochs_ok_def intro: order_less_le_trans)
  then show ?thesis using bound ok(3) by (auto simp: readers_ok_def)
next
  case (free t b p e)
  have "unat b < 2 ^ 63" "unat e < 2 ^ 63"
    using free ok(1) le_global_small order_less_imp_le unfolding epochs_ok_def by blast+
  then have "e \<le> b" using free(4) sint_diff_less [of b e] by auto
  then have "p \<notin> m_held s u" for u using free ok(3) unfolding readers_ok_def by (meson leD)
  then show ?thesis using free ok(3) by (auto simp: readers_ok_def)
next
  case (retire p)
  then show ?thesis using ok by (auto simp: readers_ok_def epochs_ok_def)
next
  case (hold t p)
  then show ?thesis using ok(2,3) by (auto simp: readers_ok_def places_ok_def)
next
  case (start_store t e)
  then have "m_held s t = {}" using ok(3) by (auto simp: readers_ok_def)
  then show ?thesis using start_store ok(3) by (auto simp: readers_ok_def)
qed (use ok(3) in \<open>auto simp: readers_ok_def\<close>)

lemma reachable_ok: "reachable ts mem s \<Longrightarrow> machine_ok ts s"
  by (induction rule: reachable.induct)
    (auto simp: machine_init_ok [unfolded machine_ok_def] machine_ok_def
      intro: estep_places estep_epochs estep_readers)


text \<open>A thread unlinks an address at epoch 1 and records it; the timer ticks and looks at both
  threads; the thread then frees the address, which the other thread does not hold.\<close>

definition example_machine :: "epoch \<Rightarrow> epoch \<Rightarrow> addr set \<Rightarrow> addr set \<Rightarrow> (addr \<times> epoch) set \<Rightarrow> addr set \<Rightarrow>
    (epoch \<times> tid list) option \<Rightarrow> (tid \<Rightarrow> epoch option) \<Rightarrow> machine" where
  "example_machine g a l u lim fr sc b =
     \<lparr>m_global = g, m_active = a, m_gc = (\<lambda>_. 0), m_loaded = (\<lambda>_. None), m_held = (\<lambda>_. {}),
      m_linked = l, m_unlinked = u, m_limbo = lim, m_freed = fr, m_scan = sc, m_bound = b\<rparr>"


section \<open>Pools\<close>

text \<open>\<open>initialize_pool\<close> links the pieces of \<open>unit\<close> bytes of a region of \<open>sz\<close> bytes.\<close>

partial_function (option) pool_links ::
  "addr \<Rightarrow> nat \<Rightarrow> nat \<Rightarrow> addr \<Rightarrow> nat \<Rightarrow> (addr \<Rightarrow> addr) \<Rightarrow> (addr \<Rightarrow> addr) option" where
  "pool_links p sz unit nextptr off word =
     (if off + unit \<le> sz
      then pool_links p sz unit (p + of_nat off) (off + unit) (word(nextptr := p + of_nat off))
      else Some (word(nextptr := 0)))"

declare pool_links.simps [code]

definition initialize_pool :: "addr \<Rightarrow> nat \<Rightarrow> nat \<Rightarrow> (addr \<Rightarrow> addr) \<Rightarrow> (addr \<Rightarrow> addr) option" where
  "initialize_pool p sz unit word = pool_links p sz unit p unit word"

text \<open>\<open>region\<close> is the region \<open>posix_memalign\<close> returns and its size.  Failing to allocate
  aborts the program.\<close>

definition refill_pool :: "addr \<times> nat \<Rightarrow> nat \<Rightarrow> 'w store \<Rightarrow> 'w store option" where
  "refill_pool region nl st =
     (if st_pool st ! (nl - 1) \<noteq> 0 then None
      else do {
        word \<leftarrow> initialize_pool (fst region) (snd region) (nl * cache_line_size) (st_word st);
        Some (st\<lparr>st_pool := (st_pool st)[nl - 1 := fst region], st_word := word\<rparr>) })"

definition pool_lines :: "nat \<Rightarrow> nat" where
  "pool_lines sz = (sz + cache_line_size - 1) div cache_line_size"

definition pool_allocate :: "addr \<times> nat \<Rightarrow> nat \<Rightarrow> 'w store \<Rightarrow> (addr \<times> 'w store) option" where
  "pool_allocate region sz st =
     (let nl = pool_lines sz
      in if \<not> (0 < nl \<and> nl \<le> pool_max_nlines) then None
         else do {
           st \<leftarrow> (if st_pool st ! (nl - 1) = 0 then refill_pool region nl st else Some st);
           let p = st_pool st ! (nl - 1);
           Some (p, if p \<noteq> 0 then st\<lparr>st_pool := (st_pool st)[nl - 1 := st_word st p]\<rparr> else st) })"

definition pool_deallocate :: "addr \<Rightarrow> nat \<Rightarrow> 'w store \<Rightarrow> 'w store option" where
  "pool_deallocate p sz st =
     (let nl = pool_lines sz
      in if p \<noteq> 0 \<and> 0 < nl \<and> nl \<le> pool_max_nlines then Some (pool_push (nl - 1) p st) else None)"

text \<open>The variants that wait for the readers only record the piece, with its pool in the tag.\<close>

definition deallocate_rcu :: "'w threadinfo \<Rightarrow> addr \<Rightarrow> memtag \<Rightarrow> epoch \<Rightarrow> 'w threadinfo option" where
  "deallocate_rcu ti p tag globalepoch = (if p \<noteq> 0 then record_rcu ti p tag globalepoch else None)"

definition pool_deallocate_rcu :: "'w threadinfo \<Rightarrow> addr \<Rightarrow> nat \<Rightarrow> memtag \<Rightarrow> epoch \<Rightarrow> 'w threadinfo option" where
  "pool_deallocate_rcu ti p sz tag globalepoch =
     (let nl = pool_lines sz
      in if p \<noteq> 0 \<and> nl \<le> pool_max_nlines then record_rcu ti p (tag + of_nat nl) globalepoch else None)"

fun free_list :: "(addr \<Rightarrow> addr) \<Rightarrow> addr \<Rightarrow> addr list \<Rightarrow> bool" where
  "free_list word h [] \<longleftrightarrow> h = 0"
| "free_list word h (x # xs) \<longleftrightarrow> h = x \<and> x \<noteq> 0 \<and> free_list word (word x) xs"

lemma free_list_upd [simp]: "x \<notin> set xs \<Longrightarrow> free_list (word(x := y)) h xs = free_list word h xs"
  by (induction xs arbitrary: h) auto

lemma free_list_hd: "free_list word h xs \<Longrightarrow> h = 0 \<longleftrightarrow> xs = []"
  by (cases xs) auto

text \<open>The pools hold the free lists \<open>fl\<close>, no piece in two of them.\<close>

definition pools_ok :: "'w store \<Rightarrow> addr list list \<Rightarrow> bool" where
  "pools_ok st fl \<longleftrightarrow> length (st_pool st) = pool_max_nlines \<and> length fl = pool_max_nlines \<and> distinct (concat fl) \<and>
     (\<forall>i < pool_max_nlines. free_list (st_word st) (st_pool st ! i) (fl ! i))"

definition piece :: "addr \<Rightarrow> nat \<Rightarrow> nat \<Rightarrow> addr" where
  "piece p unit k = p + of_nat (k * unit)"

lemma unat_piece:
  assumes "unat p + sz < 2 ^ 64" "Suc k * unit \<le> sz"
  shows "unat (piece p unit k) = unat p + k * unit"
proof -
  have "unat p + k * unit < 2 ^ 64" using assms by simp
  then show ?thesis by (simp add: piece_def unat_word_ariths take_bit_eq_mod unsigned_of_nat mod_simps)
qed

lemma piece_eq:
  assumes "unat p + sz < 2 ^ 64" "0 < unit" "Suc j * unit \<le> sz" "Suc k * unit \<le> sz"
  shows "piece p unit j = piece p unit k \<longleftrightarrow> j = k"
  using unat_piece [OF assms(1,3)] unat_piece [OF assms(1,4)] assms(2) by (metis add_left_cancel mult_right_cancel less_not_refl)

lemma pool_links_list:
  assumes p: "0 < unit" "unat p + sz < 2 ^ 64" "p \<noteq> 0" and n: "(k + Suc n) * unit \<le> sz" "sz < (k + Suc (Suc n)) * unit"
  shows "\<exists>word'. pool_links p sz unit (piece p unit k) (Suc k * unit) word = Some word' \<and>
    free_list word' (piece p unit k) (map (piece p unit) [k..<k + Suc n]) \<and>
    (\<forall>a. a \<notin> piece p unit ` {k..<k + Suc n} \<longrightarrow> word' a = word a)"
  using n
proof (induction n arbitrary: k word)
  case 0
  have "unat (piece p unit k) \<noteq> 0" using unat_piece [OF p(2), of k unit] 0(1) p(3) by (simp add: unat_eq_0)
  then have "piece p unit k \<noteq> 0" by auto
  moreover have "pool_links p sz unit (piece p unit k) (Suc k * unit) word = Some (word(piece p unit k := 0))"
    using 0 by (subst pool_links.simps) (simp add: algebra_simps)
  ultimately show ?case by simp
next
  case (Suc n)
  let ?word = "word(piece p unit k := piece p unit (Suc k))"
  have k: "Suc k * unit \<le> sz" "Suc k * unit + unit \<le> sz" using Suc.prems(1) by (simp_all add: algebra_simps)
  have step: "pool_links p sz unit (piece p unit k) (Suc k * unit) word =
      pool_links p sz unit (piece p unit (Suc k)) (Suc (Suc k) * unit) ?word"
    using k(2) by (subst pool_links.simps) (simp add: piece_def algebra_simps)
  obtain word' where w: "pool_links p sz unit (piece p unit (Suc k)) (Suc (Suc k) * unit) ?word = Some word'"
    "free_list word' (piece p unit (Suc k)) (map (piece p unit) [Suc k..<Suc k + Suc n])"
    "\<forall>a. a \<notin> piece p unit ` {Suc k..<Suc k + Suc n} \<longrightarrow> word' a = ?word a"
    using Suc.IH [of "Suc k" ?word] Suc.prems by (auto simp del: mult_Suc fun_upd_apply)
  have "unat (piece p unit k) \<noteq> 0" using unat_piece [OF p(2) k(1)] p(3) by (simp add: unat_eq_0)
  then have nz: "piece p unit k \<noteq> 0" by auto
  have ne: "piece p unit k \<noteq> piece p unit j" if "Suc k \<le> j" "j < Suc k + Suc n" for j
  proof -
    have "Suc j * unit \<le> (k + Suc (Suc n)) * unit" using that by (intro mult_le_mono1) simp
    then show ?thesis using piece_eq [OF p(2,1) k(1), of j] Suc.prems(1) that by simp
  qed
  have "piece p unit k \<notin> piece p unit ` {Suc k..<Suc k + Suc n}"
  proof
    assume "piece p unit k \<in> piece p unit ` {Suc k..<Suc k + Suc n}"
    then obtain j where "j \<in> {Suc k..<Suc k + Suc n}" "piece p unit k = piece p unit j" by (rule imageE)
    then show False using ne [of j] by simp
  qed
  then have "word' (piece p unit k) = piece p unit (Suc k)" using w(3) by simp
  moreover have "[k..<k + Suc (Suc n)] = k # [Suc k..<Suc k + Suc n]" by (simp add: upt_conv_Cons)
  moreover have "{k..<k + Suc (Suc n)} = insert k {Suc k..<Suc k + Suc n}" by auto
  ultimately show ?case using step w nz by auto
qed

lemma free_list_cong: "\<forall>x \<in> set xs. word x = word' x \<Longrightarrow> free_list word h xs = free_list word' h xs"
  by (induction xs arbitrary: h) auto

lemma initialize_pool_pieces:
  assumes "0 < unit" "unit \<le> sz" "p \<noteq> 0" "unat p + sz < 2 ^ 64"
  shows "\<exists>word'. initialize_pool p sz unit word = Some word' \<and>
    free_list word' p (map (piece p unit) [0..<sz div unit]) \<and>
    (\<forall>k < sz div unit. unat (piece p unit k) = unat p + k * unit \<and> k * unit + unit \<le> sz) \<and>
    (\<forall>a. a \<notin> piece p unit ` {0..<sz div unit} \<longrightarrow> word' a = word a)"
proof -
  obtain n where n: "sz div unit = Suc n"
    using assms(1,2) by (metis div_greater_zero_iff gr0_implies_Suc)
  have b: "Suc n * unit \<le> sz" "sz < Suc (Suc n) * unit"
    using n assms(1) div_times_less_eq_dividend [of sz unit] dividend_less_div_times [of unit sz] by auto
  have "k * unit + unit \<le> sz" if "k < sz div unit" for k
  proof -
    have "Suc k * unit \<le> Suc n * unit" using that n by (intro mult_le_mono1) simp
    then have "Suc k * unit \<le> sz" using b(1) by (rule order_trans)
    then show ?thesis by (simp add: add.commute)
  qed
  moreover have "unat (piece p unit k) = unat p + k * unit" if "k * unit + unit \<le> sz" for k
    using unat_piece [OF assms(4), of k unit] that by simp
  ultimately show ?thesis
    using pool_links_list [OF assms(1,4,3), of 0 n word] b n
    by (auto simp: initialize_pool_def piece_def)
qed

lemma pools_nth:
  assumes "pools_ok st fl" "i < pool_max_nlines"
  shows "i < length (st_pool st)" "i < length fl" "free_list (st_word st) (st_pool st ! i) (fl ! i)"
    "distinct (concat fl)" "set (fl ! i) \<subseteq> set (concat fl)"
proof -
  show l: "i < length (st_pool st)" "i < length fl" and "free_list (st_word st) (st_pool st ! i) (fl ! i)"
    "distinct (concat fl)"
    using assms by (simp_all add: pools_ok_def)
  show "set (fl ! i) \<subseteq> set (concat fl)" using nth_mem [OF l(2)] by auto
qed

lemma concat_update:
  assumes "i < length xss" "distinct (concat xss)" "distinct ys" "set ys \<inter> set (concat xss) \<subseteq> set (xss ! i)"
  shows "distinct (concat (xss[i := ys]))"
    "set (concat (xss[i := ys])) = (set (concat xss) - set (xss ! i)) \<union> set ys"
proof -
  have s: "xss = take i xss @ (xss ! i) # drop (Suc i) xss" using assms(1) by (simp add: id_take_nth_drop)
  have u: "xss[i := ys] = take i xss @ ys # drop (Suc i) xss" using assms(1) by (simp add: upd_conv_take_nth_drop)
  have "set (concat xss) = set (concat (take i xss)) \<union> set (xss ! i) \<union> set (concat (drop (Suc i) xss))"
    by (subst s) (simp add: Un_assoc)
  moreover have "distinct (concat (take i xss)) \<and> distinct (concat (drop (Suc i) xss)) \<and>
      set (concat (take i xss)) \<inter> set (xss ! i) = {} \<and> set (concat (drop (Suc i) xss)) \<inter> set (xss ! i) = {} \<and>
      set (concat (take i xss)) \<inter> set (concat (drop (Suc i) xss)) = {}"
    using assms(2) by (subst (asm) s) (simp del: set_concat, blast)
  ultimately show "distinct (concat (xss[i := ys]))"
    "set (concat (xss[i := ys])) = (set (concat xss) - set (xss ! i)) \<union> set ys"
    unfolding u using assms(3,4) by (simp_all del: set_concat) blast+
qed

lemma pools_ok_pop:
  assumes ok: "pools_ok st fl" and i: "i < pool_max_nlines" and fl: "fl ! i = x # xs"
  shows "pools_ok (st\<lparr>st_pool := (st_pool st)[i := st_word st x]\<rparr>) (fl[i := xs])"
    "x \<notin> set (concat (fl[i := xs]))" "st_pool st ! i = x" "x \<noteq> 0"
proof -
  note n = pools_nth [OF ok i]
  have d: "distinct (fl ! i)" using n(2,4) by (metis distinct_concat_iff nth_mem)
  have "set xs \<inter> set (concat fl) \<subseteq> set (fl ! i)" using fl by auto
  note c = concat_update [OF n(2,4) _ this]
  have "distinct xs" "x \<notin> set xs" using d fl by auto
  then show "x \<notin> set (concat (fl[i := xs]))" using c fl by simp
  show "pools_ok (st\<lparr>st_pool := (st_pool st)[i := st_word st x]\<rparr>) (fl[i := xs])"
    unfolding pools_ok_def
    using ok c(1) [OF \<open>distinct xs\<close>] n(1-3) fl by (simp add: pools_ok_def nth_list_update)
  show "st_pool st ! i = x" "x \<noteq> 0" using n(3) fl by auto
qed

lemma pools_ok_push:
  assumes ok: "pools_ok st fl" and i: "i < pool_max_nlines" and x: "x \<noteq> 0" "x \<notin> set (concat fl)"
  shows "pools_ok (pool_push i x st) (fl[i := x # fl ! i])"
proof -
  note n = pools_nth [OF ok i]
  have "distinct (fl ! i)" using n(4) nth_mem [OF n(2)] by (simp add: distinct_concat_iff)
  then have d: "distinct (x # fl ! i)" using n(5) x(2) unfolding distinct.simps by blast
  have c: "distinct (concat (fl[i := x # fl ! i]))"
    by (rule concat_update(1) [OF n(2,4) d]) (use x(2) in auto)
  have f: "free_list ((st_word st)(x := y)) h (fl ! j) = free_list (st_word st) h (fl ! j)"
    if "j < pool_max_nlines" for j y h
    using pools_nth(5) [OF ok that] x(2) by (intro free_list_upd) blast
  have push: "st_word (pool_push i x st) = (st_word st)(x := st_pool st ! i)"
    "st_pool (pool_push i x st) = (st_pool st)[i := x]" by (simp_all add: pool_push_def)
  show ?thesis
    unfolding pools_ok_def
  proof (intro conjI allI impI)
    fix j assume j: "j < pool_max_nlines"
    show "free_list (st_word (pool_push i x st)) (st_pool (pool_push i x st) ! j) (fl[i := x # fl ! i] ! j)"
    proof (cases "j = i")
      case True
      have "free_list ((st_word st)(x := st_pool st ! i)) x (x # fl ! i)"
        unfolding free_list.simps fun_upd_same f [OF i] using n(3) x(1) by simp
      then show ?thesis unfolding True push nth_list_update_eq [OF n(1)] nth_list_update_eq [OF n(2)] .
    next
      case False
      then show ?thesis
        unfolding push nth_list_update_neq [OF False [symmetric]] f [OF j] by (intro pools_nth(3) [OF ok j])
    qed
  qed (use ok c in \<open>simp_all only: pools_ok_def push length_list_update simp_thms\<close>)
qed

lemma refill_pool_ok:
  assumes ok: "pools_ok st fl" and nl: "0 < nl" "nl \<le> pool_max_nlines" and e: "fl ! (nl - 1) = []"
    and r: "p \<noteq> 0" "unat p + sz < 2 ^ 64" "nl * cache_line_size \<le> sz"
    and new: "\<forall>x \<in> set (concat fl). unat x < unat p \<or> unat p + sz \<le> unat x"
  obtains st' n where "refill_pool (p, sz) nl st = Some st'"
    "pools_ok st' (fl[nl - 1 := p # map (piece p (nl * cache_line_size)) [1..<n]])" "st_world st' = st_world st"
proof -
  let ?u = "nl * cache_line_size" and ?i = "nl - 1"
  have i: "?i < pool_max_nlines" using nl by simp
  note n = pools_nth [OF ok i]
  have u: "0 < ?u" using nl by (simp add: cache_line_size_def)
  obtain word where w: "initialize_pool p sz ?u (st_word st) = Some word"
    "free_list word p (map (piece p ?u) [0..<sz div ?u])"
    "\<forall>k < sz div ?u. unat (piece p ?u k) = unat p + k * ?u \<and> k * ?u + ?u \<le> sz"
    "\<forall>a. a \<notin> piece p ?u ` {0..<sz div ?u} \<longrightarrow> word a = st_word st a"
    using initialize_pool_pieces [OF u r(3,1,2)] by blast
  let ?l = "map (piece p ?u) [0..<sz div ?u]"
  have pos: "0 < sz div ?u" using r(3) u by (simp add: div_greater_zero_iff)
  have l: "?l = p # map (piece p ?u) [1..<sz div ?u]"
    using pos by (simp add: upt_conv_Cons piece_def)
  have dl: "distinct ?l"
  proof -
    have "inj_on (piece p ?u) {0..<sz div ?u}"
      using w(3) u by (intro inj_onI) (metis add_left_cancel atLeastLessThan_iff mult_right_cancel less_not_refl)
    then show ?thesis by (simp add: distinct_map)
  qed
  have out: "x \<notin> set ?l" if "x \<in> set (concat fl)" for x
  proof
    assume "x \<in> set ?l"
    then obtain k where "k < sz div ?u" "x = piece p ?u k" by auto
    then have "unat x = unat p + k * ?u" "k * ?u + ?u \<le> sz" using w(3) by auto
    then have "unat p \<le> unat x \<and> unat x < unat p + sz" using u by linarith
    then show False using new that by force
  qed
  have "distinct (concat (fl[?i := ?l]))"
    by (rule concat_update(1) [OF n(2,4) dl]) (use out in blast)
  moreover have "free_list word (st_pool st ! j) (fl ! j)" if j: "j < pool_max_nlines" for j
  proof -
    have "\<forall>x \<in> set (fl ! j). word x = st_word st x" using out pools_nth(5) [OF ok j] w(4) by fastforce
    then show ?thesis using pools_nth(3) [OF ok j] by (rule free_list_cong [THEN iffD2])
  qed
  ultimately have "pools_ok (st\<lparr>st_pool := (st_pool st)[?i := p], st_word := word\<rparr>) (fl[?i := ?l])"
    using ok w(2) n(1,2) by (simp add: pools_ok_def nth_list_update)
  moreover have "refill_pool (p, sz) nl st = Some (st\<lparr>st_pool := (st_pool st)[?i := p], st_word := word\<rparr>)"
    using n(3) e w(1) by (simp add: refill_pool_def)
  ultimately show thesis using that unfolding l by simp
qed



section \<open>Timestamps\<close>

definition update_timestamp :: "u64 \<Rightarrow> 'w threadinfo \<Rightarrow> 'w threadinfo \<times> u64" where
  "update_timestamp x ti =
     (let ti = (if less_equal (ti_ts ti) x then ti\<lparr>ti_ts := (x OR 1) + 1\<rparr> else ti) in (ti, ti_ts ti))"

definition observe_phantoms :: "u64 \<Rightarrow> 'w threadinfo \<Rightarrow> 'w threadinfo" where
  "observe_phantoms phantom_epoch ti =
     (if less (ti_ts ti) phantom_epoch then ti\<lparr>ti_ts := phantom_epoch\<rparr> else ti)"

lemma bump_marker:
  "less x ((x OR 1) + 1 :: u64)" "even ((x OR 1) + 1 :: u64)"
proof -
  have b: "(x OR 1 :: u64) = x + of_bool (even x)" by (rule or_one_eq)
  have d: "(x OR 1) + 1 - x = (if even x then 2 else 1)" unfolding b by simp
  have "unat ((x OR 1) + 1 - x) = (if even x then 2 else 1)" unfolding d by (cases "even x") simp_all
  then show "less x ((x OR 1) + 1)" by (simp add: less_ahead ahead_def)
  show "even ((x OR 1) + 1 :: u64)" unfolding b by simp
qed

lemma sint_pos: "0 < sint (d :: u64) \<Longrightarrow> 0 < unat d \<and> unat d \<le> 2 ^ 63"
proof -
  assume p: "0 < sint d"
  have "unat d < 2 ^ 64" by (rule order_less_le_trans [OF unsigned_less]) simp
  then have "\<not> 2 ^ 63 \<le> unat d" using p unfolding sint_u64 by (auto simp del: of_nat_unat split: if_splits)
  moreover have "unat d \<noteq> 0" using p by (auto simp: unat_eq_0)
  ultimately show ?thesis by simp
qed

text \<open>C16: the timestamp of an update is later than the version it replaces, in the circular order,
  and it stays even, so that it is never that of a marker.\<close>

theorem update_timestamp_later:
  assumes "even (ti_ts ti)"
  shows "less x (snd (update_timestamp x ti)) \<and> even (snd (update_timestamp x ti)) \<and>
    ti_ts (fst (update_timestamp x ti)) = snd (update_timestamp x ti)"
proof (cases "less_equal (ti_ts ti) x")
  case True
  then show ?thesis using bump_marker [of x] by (simp add: update_timestamp_def)
next
  case False
  then have "0 < sint (ti_ts ti - x)" by (simp add: less_equal_def)
  then have "less x (ti_ts ti)"
    unfolding less_ahead ahead_def by (rule sint_pos)
  then show ?thesis using False assms by (simp add: update_timestamp_def)
qed

lemma update_timestamp_later_witness:
  "less 7 (snd (update_timestamp 7 (threadinfo_make 1 0 (\<lambda>_. 0) ())))"
  using update_timestamp_later [of "threadinfo_make 1 0 (\<lambda>_. 0) ()" 7] by (simp add: threadinfo_make_def)

end
