(* ===== verification/Msgpack.thy ===== *)
theory Msgpack
  imports Compiler_Ops
begin

text \<open>
  \<^verbatim>\<open>msgpack.hh\<close> and the primitive readers of \<^verbatim>\<open>msgpack.cc\<close>: the encoding of values in which
  requests, replies, log records and checkpoints are written.

  A writer takes the bytes written so far and returns them with the encoding appended, as the
  source's writers take and return the end of the buffer.  A reader takes the bytes from the
  position of the parser on and returns the value and the bytes that are left; reading beyond
  the end of the memory, or a failed \<open>assert\<close>, is \<open>None\<close>.  Doubles are kept as their 64 bits.
\<close>

section \<open>Format bytes\<close>

definition nfixint :: u32 where "nfixint = 0x80 + 0x20"

definition in_range :: "byte \<Rightarrow> u32 \<Rightarrow> u32 \<Rightarrow> bool" where
  "in_range x low n \<longleftrightarrow> ucast x - low < n"

definition in_wrapped_range :: "byte \<Rightarrow> u32 \<Rightarrow> u32 \<Rightarrow> bool" where
  "in_wrapped_range x low n \<longleftrightarrow> scast x - low < n"

definition is_fixint :: "byte \<Rightarrow> bool" where "is_fixint x = in_wrapped_range x (- 0x20) nfixint"
definition is_null_or_bool :: "byte \<Rightarrow> bool" where "is_null_or_bool x = in_range x 0xC0 4"
definition is_bool :: "byte \<Rightarrow> bool" where "is_bool x = in_range x 0xC2 2"
definition is_fixstr :: "byte \<Rightarrow> bool" where "is_fixstr x = in_range x 0xA0 0x20"
definition is_fixarray :: "byte \<Rightarrow> bool" where "is_fixarray x = in_range x 0x90 0x10"
definition is_fixmap :: "byte \<Rightarrow> bool" where "is_fixmap x = in_range x 0x80 0x10"

section \<open>Writers\<close>

definition write_null :: "bytes \<Rightarrow> bytes" where "write_null s = s @ [0xC0]"

definition write_bool :: "bytes \<Rightarrow> bool \<Rightarrow> bytes" where "write_bool s x = s @ [0xC2 + of_bool x]"

definition write_unsigned4 :: "bytes \<Rightarrow> u32 \<Rightarrow> bytes" where
  "write_unsigned4 s x =
     (if x < 0x80 then s @ [ucast x]
      else if x < 256 then s @ [0xCC, ucast x]
      else if x < 65536 then write_in_net_order (s @ [0xCD]) (ucast x :: 16 word)
      else write_in_net_order (s @ [0xCE]) x)"

definition write_signed4 :: "bytes \<Rightarrow> u32 \<Rightarrow> bytes" where
  "write_signed4 s x =
     (if x + 0x20 < nfixint then s @ [ucast x]
      else if x + 128 < 256 then s @ [0xD0, ucast x]
      else if x + 32768 < 65536 then write_in_net_order (s @ [0xD1]) (ucast x :: 16 word)
      else write_in_net_order (s @ [0xD2]) x)"

definition write_unsigned8 :: "bytes \<Rightarrow> u64 \<Rightarrow> bytes" where
  "write_unsigned8 s x =
     (if x < 4294967296 then write_unsigned4 s (ucast x) else write_in_net_order (s @ [0xCF]) x)"

definition write_signed8 :: "bytes \<Rightarrow> u64 \<Rightarrow> bytes" where
  "write_signed8 s x =
     (if x + 2147483648 < 4294967296 then write_signed4 s (ucast x) else write_in_net_order (s @ [0xD3]) x)"

definition write_wide_unsigned :: "bytes \<Rightarrow> u64 \<Rightarrow> bytes" where
  "write_wide_unsigned s x = write_in_net_order (s @ [0xCF]) x"

definition write_wide_signed :: "bytes \<Rightarrow> u64 \<Rightarrow> bytes" where
  "write_wide_signed s x = write_in_net_order (s @ [0xD3]) x"

definition write_double :: "bytes \<Rightarrow> u64 \<Rightarrow> bytes" where
  "write_double s x = write_in_net_order (s @ [0xCB]) x"

text \<open>The length is an \<open>int\<close> of 32 bits.\<close>

definition write_string :: "bytes \<Rightarrow> bytes \<Rightarrow> bytes" where
  "write_string s data =
     (let len = int (length data)
      in (if len < 0x20 then s @ [0xA0 + of_int len]
          else if len < 256 then s @ [0xD9, of_int len]
          else if len < 65536 then write_in_net_order (s @ [0xDA]) (of_int len :: 16 word)
          else write_in_net_order (s @ [0xDB]) (of_int len :: u32)) @ data)"

definition write_array_header :: "bytes \<Rightarrow> u32 \<Rightarrow> bytes" where
  "write_array_header s sz =
     (if sz < 0x10 then s @ [0x90 + ucast sz]
      else if sz < 65536 then write_in_net_order (s @ [0xDC]) (ucast sz :: 16 word)
      else write_in_net_order (s @ [0xDD]) sz)"

definition write_map_header :: "bytes \<Rightarrow> u32 \<Rightarrow> bytes" where
  "write_map_header s sz =
     (if sz < 0x10 then s @ [0x80 + ucast sz]
      else if sz < 65536 then write_in_net_order (s @ [0xDE]) (ucast sz :: 16 word)
      else write_in_net_order (s @ [0xDF]) sz)"

section \<open>Readers\<close>

text \<open>A big-endian word of \<open>n\<close> bytes at the front.\<close>

definition fetch :: "nat \<Rightarrow> bytes \<Rightarrow> ('a::len word \<times> bytes) option" where
  "fetch n s = (if length s < n then None else Some (read_in_net_order s, drop n s))"

definition try_read_null :: "bytes \<Rightarrow> (bool \<times> bytes) option" where
  "try_read_null s = (case s of [] \<Rightarrow> None | b # r \<Rightarrow> Some (if b = 0xC0 then (True, r) else (False, s)))"

definition read_tiny_int :: "bytes \<Rightarrow> (u32 \<times> bytes) option" where
  "read_tiny_int s = (case s of [] \<Rightarrow> None | b # r \<Rightarrow> if is_fixint b then Some (scast b, r) else None)"

text \<open>The switch assigns the value read to the caller's integer type, converted as C++ does.\<close>

definition hard_read_int :: "bytes \<Rightarrow> ('a::len word \<times> bytes) option" where
  "hard_read_int s = (case s of [] \<Rightarrow> None | b # r \<Rightarrow>
     if b = 0xCC then do { (x :: byte, r) \<leftarrow> fetch 1 r; Some (ucast x, r) }
     else if b = 0xCD then do { (x :: 16 word, r) \<leftarrow> fetch 2 r; Some (ucast x, r) }
     else if b = 0xCE then do { (x :: u32, r) \<leftarrow> fetch 4 r; Some (ucast x, r) }
     else if b = 0xCF then do { (x :: u64, r) \<leftarrow> fetch 8 r; Some (ucast x, r) }
     else if b = 0xD0 then do { (x :: byte, r) \<leftarrow> fetch 1 r; Some (scast x, r) }
     else if b = 0xD1 then do { (x :: 16 word, r) \<leftarrow> fetch 2 r; Some (scast x, r) }
     else if b = 0xD2 then do { (x :: u32, r) \<leftarrow> fetch 4 r; Some (scast x, r) }
     else if b = 0xD3 then do { (x :: u64, r) \<leftarrow> fetch 8 r; Some (scast x, r) }
     else None)"

definition read_int :: "bytes \<Rightarrow> ('a::len word \<times> bytes) option" where
  "read_int s = (case s of [] \<Rightarrow> None | b # r \<Rightarrow>
     if is_fixint b then Some (scast b, r)
     else if in_range b 0xCC 8 then hard_read_int s else None)"

definition read_bool :: "bytes \<Rightarrow> (bool \<times> bytes) option" where
  "read_bool s = (case s of [] \<Rightarrow> None | b # r \<Rightarrow> if is_bool b then Some (b - 0xC2 \<noteq> 0, r) else None)"

definition read_double :: "bytes \<Rightarrow> (u64 \<times> bytes) option" where
  "read_double s = (case s of [] \<Rightarrow> None | b # r \<Rightarrow> if b = 0xCB then fetch 8 r else None)"

definition read_str :: "bytes \<Rightarrow> (bytes \<times> bytes) option" where
  "read_str s = (case s of [] \<Rightarrow> None | b # r \<Rightarrow> do {
     (len, r) \<leftarrow>
       (if is_fixstr b then Some (ucast b - 0xA0 :: u32, r)
        else if b = 0xC4 \<or> b = 0xD9 then do { (x :: byte, r) \<leftarrow> fetch 1 r; Some (ucast x, r) }
        else if b = 0xC5 \<or> b = 0xDA then do { (x :: 16 word, r) \<leftarrow> fetch 2 r; Some (ucast x, r) }
        else if b = 0xC6 \<or> b = 0xDB then fetch 4 r
        else None);
     if length r < unat len then None else Some (take (unat len) r, drop (unat len) r) })"

definition read_array_header :: "bytes \<Rightarrow> (u32 \<times> bytes) option" where
  "read_array_header s = (case s of [] \<Rightarrow> None | b # r \<Rightarrow>
     if is_fixarray b then Some (ucast b - 0x90, r)
     else if b = 0xDC then do { (x :: 16 word, r) \<leftarrow> fetch 2 r; Some (ucast x, r) }
     else if b = 0xDD then fetch 4 r
     else None)"

text \<open>How far one round of \<open>skip_primitives\<close> moves the position; a format byte it does not know
  leaves the position where it is.\<close>

definition skip_length :: "bytes \<Rightarrow> nat option" where
  "skip_length s = (case s of [] \<Rightarrow> None | b # r \<Rightarrow>
     if is_fixint b \<or> is_null_or_bool b then Some 1
     else if is_fixstr b then Some (1 + unat (b - 0xA0))
     else if b = 0xCC \<or> b = 0xD0 then Some 2
     else if b = 0xCD \<or> b = 0xD1 then Some 3
     else if b = 0xCE \<or> b = 0xD2 \<or> b = 0xCA then Some 5
     else if b = 0xD9 \<or> b = 0xC4 then do { (x :: byte, _) \<leftarrow> fetch 1 r; Some (2 + unat x) }
     else if b = 0xDA \<or> b = 0xC5 then do { (x :: 16 word, _) \<leftarrow> fetch 2 r; Some (3 + unat x) }
     else if b = 0xDB \<or> b = 0xC6 then do { (x :: u32, _) \<leftarrow> fetch 4 r; Some (5 + unat x) }
     else Some 0)"

fun skip_primitives :: "nat \<Rightarrow> bytes \<Rightarrow> bytes option" where
  "skip_primitives 0 s = Some s"
| "skip_primitives (Suc n) s = do {
     k \<leftarrow> skip_length s;
     if length s < k then None else skip_primitives n (drop k s) }"

definition skip_array_size :: "bytes \<Rightarrow> bytes option" where
  "skip_array_size s = (case s of [] \<Rightarrow> None | b # r \<Rightarrow>
     let k = (if is_fixarray b then 1 else if b = 0xDC then 3 else if b = 0xDD then 5 else 0)
     in if k = 0 \<or> length s < k then None else Some (drop k s))"

section \<open>Format bytes as ranges\<close>

named_theorems msgpack_simps \<open>the format bytes and the readers on what the writers write\<close>

lemma uint_byte: "uint (b :: byte) < 256"
  using uint_lt2p [of b] by simp

lemma in_range_iff: "uint low + uint n \<le> 256 \<Longrightarrow> in_range x low n \<longleftrightarrow> uint low \<le> uint x \<and> uint x < uint low + uint n"
proof -
  assume b: "uint low + uint n \<le> 256"
  have x: "uint (ucast x :: u32) = uint x" using uint_byte [of x] by (simp add: unsigned_ucast_eq take_bit_int_eq_self)
  have l: "0 \<le> uint low" "0 \<le> uint n" "0 \<le> uint x" "uint x < 256" using uint_byte by auto
  have "uint (ucast x - low) = (uint x - uint low) mod 4294967296"
    by (simp add: uint_word_ariths x)
  also have "\<dots> = (if uint low \<le> uint x then uint x - uint low else uint x - uint low + 4294967296)"
  proof (cases "uint low \<le> uint x")
    case False
    have "(uint x - uint low) mod 4294967296 = (uint x - uint low + 4294967296) mod 4294967296" by simp
    also have "\<dots> = uint x - uint low + 4294967296" using False l b by (intro mod_pos_pos_trivial) linarith+
    finally show ?thesis using False by simp
  next
    case True
    have "(uint x - uint low) mod 4294967296 = uint x - uint low"
      using True l b by (intro mod_pos_pos_trivial) linarith+
    then show ?thesis using True by simp
  qed
  finally have e: "uint (ucast x - low) =
      (if uint low \<le> uint x then uint x - uint low else uint x - uint low + 4294967296)" .
  show ?thesis
  proof (cases "uint low \<le> uint x")
    case True
    then show ?thesis unfolding in_range_def word_less_def e by auto
  next
    case False
    then have "\<not> uint x - uint low + 4294967296 < uint n" using l b by linarith
    then show ?thesis using False unfolding in_range_def word_less_def e by simp
  qed
qed

lemma sint_unat:
  "sint (w :: 'a::len word) =
     (if unat w < 2 ^ (LENGTH('a) - 1) then int (unat w) else int (unat w) - 2 ^ LENGTH('a))"
proof -
  obtain k where k: "LENGTH('a) = Suc k" by (metis Suc_pred len_gt_0)
  have lt: "unat w < 2 ^ Suc k" unfolding k [symmetric] by (rule unsigned_less)
  have b: "bit w k \<longleftrightarrow> 2 ^ k \<le> unat w"
  proof -
    have "bit w k \<longleftrightarrow> odd (unat w div 2 ^ k)"
      by (metis bit_iff_odd bit_unsigned_iff possible_bit_nat)
    moreover have "unat w div 2 ^ k = (if 2 ^ k \<le> unat w then 1 else 0)"
      using lt by (auto intro!: div_nat_eqI)
    ultimately show ?thesis by simp
  qed
  have "sint w = take_bit (Suc k) (uint w) - 2 ^ Suc k * of_bool (bit (uint w) k)"
    using signed_take_bit_eq_take_bit_minus [of k "uint w"] k by (simp add: sint_uint)
  also have "take_bit (Suc k) (uint w) = int (unat w)" by (rule bintr_uint [THEN trans]) (simp_all add: k)
  also have "bit (uint w) k \<longleftrightarrow> bit w k" by (simp add: bit_unsigned_iff)
  finally show ?thesis using b k by auto
qed

text \<open>The test \<open>x + c < n\<close> on unsigned words is a range of signed values.\<close>

lemma wrapped_range:
  fixes x :: "'a::len word"
  assumes "0 \<le> c" "c \<le> 2 ^ (LENGTH('a) - 1)" "c \<le> n" "n - c \<le> 2 ^ (LENGTH('a) - 1)" "n < 2 ^ LENGTH('a)"
  shows "x + word_of_int c < word_of_int n \<longleftrightarrow> - c \<le> sint x \<and> sint x < n - c"
proof -
  obtain k where k: "LENGTH('a) = Suc k" by (metis Suc_pred len_gt_0)
  have r: "- (2 ^ k) \<le> sint x" "sint x < 2 ^ k" using sint_ge [of x] sint_lt [of x] k by simp_all
  have "uint (x + word_of_int c) = (sint x + c) mod 2 ^ Suc k"
    unfolding k [symmetric]
    using uint_word_of_int [of "sint x + c", where ?'a = 'a] by (simp add: take_bit_eq_mod)
  also have "\<dots> = (if 0 \<le> sint x + c then sint x + c else sint x + c + 2 ^ Suc k)"
  proof (cases "0 \<le> sint x + c")
    case True
    then show ?thesis using r assms(2) k by simp
  next
    case False
    have "(sint x + c) mod 2 ^ Suc k = (sint x + c + 2 ^ Suc k) mod 2 ^ Suc k" by simp
    also have "\<dots> = sint x + c + 2 ^ Suc k" using False r assms(1) by (intro mod_pos_pos_trivial) auto
    finally show ?thesis using False by simp
  qed
  finally have u: "uint (x + word_of_int c) = (if 0 \<le> sint x + c then sint x + c else sint x + c + 2 ^ Suc k)" .
  have n: "uint (word_of_int n :: 'a word) = n" using assms k by (simp add: uint_word_of_int)
  show ?thesis unfolding word_less_def u n using r assms(1-4) k by auto
qed

lemma sint_byte: "sint (b :: byte) = (if uint b < 128 then uint b else uint b - 256)"
  using sint_unat [of b] by (simp add: nat_less_iff flip: nat_uint_eq)

lemma is_fixint_iff: "is_fixint b \<longleftrightarrow> uint b < 0x80 \<or> 0xE0 \<le> uint b"
proof -
  have "is_fixint b \<longleftrightarrow> (scast b :: u32) + word_of_int 0x20 < word_of_int 0xA0"
    by (simp add: is_fixint_def in_wrapped_range_def nfixint_def)
  also have "\<dots> \<longleftrightarrow> -0x20 \<le> sint (scast b :: u32) \<and> sint (scast b :: u32) < 0x80"
    using wrapped_range [of "0x20" "0xA0" "scast b :: u32"] by simp
  also have "sint (scast b :: u32) = sint b"
    by (rule sint_up_scast) (simp add: is_up target_size_def source_size_def)
  finally show ?thesis using order_trans [OF _ uint_ge_0, of "- 32" b] uint_byte [of b] by (auto simp: sint_byte)
qed

lemma scast_eq: "(scast x :: 'b::len word) = word_of_int (sint x)"
  by simp

lemma ucast_eq: "(ucast x :: 'b::len word) = word_of_int (uint x)"
  by simp

lemma sint_ucast_fit:
  assumes "- (2 ^ (LENGTH('b) - 1)) \<le> sint (x :: 'a::len word)" "sint x < 2 ^ (LENGTH('b) - 1)"
    and "LENGTH('b) \<le> LENGTH('a)"
  shows "sint (ucast x :: 'b::len word) = sint x"
proof -
  obtain k where k: "LENGTH('b) = Suc k" by (metis Suc_pred len_gt_0)
  have "sint (ucast x :: 'b word) = signed_take_bit k (uint x)" by (simp add: signed_ucast_eq k)
  also have "\<dots> = signed_take_bit k (sint x)"
    using assms(3) k by (simp add: uint_sint signed_take_bit_take_bit)
  also have "\<dots> = sint x" using assms(1,2) k by (intro signed_take_bit_int_eq_self) simp_all
  finally show ?thesis .
qed

lemma uint_ucast_fit: "uint (x :: 'a::len word) < 2 ^ LENGTH('b) \<Longrightarrow> uint (ucast x :: 'b::len word) = uint x"
  by (simp add: unsigned_ucast_eq take_bit_int_eq_self)

lemma ucast_fit:
  "uint (x :: 'a::len word) < 2 ^ LENGTH('b) \<Longrightarrow> (ucast (ucast x :: 'b::len word) :: 'c::len word) = ucast x"
  unfolding ucast_eq by (simp add: uint_ucast_fit)

lemma scast_fit:
  assumes "- (2 ^ (LENGTH('b) - 1)) \<le> sint (x :: 'a::len word)" "sint x < 2 ^ (LENGTH('b) - 1)"
    and "LENGTH('b) \<le> LENGTH('a)"
  shows "(scast (ucast x :: 'b::len word) :: 'c::len word) = scast x"
  unfolding scast_eq sint_ucast_fit [OF assms] ..

section \<open>What was written is read back\<close>

definition net_bytes :: "nat \<Rightarrow> 'a::len word \<Rightarrow> bytes" where
  "net_bytes n x = rev (store_le n x)"

lemma length_net_bytes [simp]: "length (net_bytes n x) = n"
  by (simp add: net_bytes_def)

lemma write_net:
  "write_in_net_order s (x :: 16 word) = s @ net_bytes 2 x"
  "write_in_net_order s (y :: u32) = s @ net_bytes 4 y"
  "write_in_net_order s (z :: u64) = s @ net_bytes 8 z"
  by (simp_all add: net_bytes_def write_in_net_order_bytes [of 2] write_in_net_order_bytes [of 4]
      write_in_net_order_bytes [of 8])

lemma fetch_net_bytes:
  assumes "LENGTH('a) = 8 * n"
  shows "fetch n (net_bytes n (x :: 'a::len word) @ r) = Some (x, r)"
  using assms by (simp add: fetch_def net_bytes_def read_in_net_order_bytes load_store)

lemma fetch_net [msgpack_simps]:
  "fetch 2 (net_bytes 2 (x :: 16 word) @ r) = Some (x, r)"
  "fetch 4 (net_bytes 4 (y :: u32) @ r) = Some (y, r)"
  "fetch 8 (net_bytes 8 (z :: u64) @ r) = Some (z, r)"
  by (simp_all add: fetch_net_bytes)

lemma fetch_1 [msgpack_simps]:
  "fetch 1 (b # r) = Some (b :: byte, r)" "fetch (Suc 0) (b # r) = Some (b :: byte, r)"
  by (simp_all add: fetch_def read_in_net_order_bytes [of 1] load_le_def)

text \<open>The writers append.\<close>

lemma writers_append:
  "write_null s = s @ write_null []" "write_bool s b = s @ write_bool [] b"
  "write_unsigned4 s x = s @ write_unsigned4 [] x" "write_signed4 s x = s @ write_signed4 [] x"
  "write_unsigned8 s y = s @ write_unsigned8 [] y" "write_signed8 s y = s @ write_signed8 [] y"
  "write_wide_unsigned s y = s @ write_wide_unsigned [] y" "write_wide_signed s y = s @ write_wide_signed [] y"
  "write_double s y = s @ write_double [] y" "write_string s d = s @ write_string [] d"
  "write_array_header s x = s @ write_array_header [] x" "write_map_header s x = s @ write_map_header [] x"
  by (simp_all add: write_null_def write_bool_def write_unsigned4_def write_signed4_def write_unsigned8_def
      write_signed8_def write_wide_unsigned_def write_wide_signed_def write_double_def write_string_def
      write_array_header_def write_map_header_def write_net Let_def)

lemma hard_range [simp]: "in_range b 0xCC 8 \<longleftrightarrow> 0xCC \<le> uint b \<and> uint b < 0xD4"
  by (simp add: in_range_iff)

lemma fixed_ranges [simp]:
  "is_fixstr b \<longleftrightarrow> 0xA0 \<le> uint b \<and> uint b < 0xC0" "is_fixarray b \<longleftrightarrow> 0x90 \<le> uint b \<and> uint b < 0xA0"
  "is_fixmap b \<longleftrightarrow> 0x80 \<le> uint b \<and> uint b < 0x90" "is_bool b \<longleftrightarrow> 0xC2 \<le> uint b \<and> uint b < 0xC4"
  "is_null_or_bool b \<longleftrightarrow> 0xC0 \<le> uint b \<and> uint b < 0xC4"
  by (simp_all add: is_fixstr_def is_fixarray_def is_fixmap_def is_bool_def is_null_or_bool_def in_range_iff)

lemma read_int_fix: "is_fixint b \<Longrightarrow> read_int (b # r) = Some (word_of_int (sint b), r)"
  by (simp add: read_int_def)

lemma fixint_unsigned:
  assumes "uint (x :: u32) < 128"
  shows "is_fixint (ucast x)" "sint (ucast x :: byte) = uint x"
proof -
  have "uint (ucast x :: byte) = uint x" using assms by (intro uint_ucast_fit) simp
  then show "is_fixint (ucast x)" "sint (ucast x :: byte) = uint x"
    using assms by (simp_all add: is_fixint_iff sint_byte)
qed

lemma fixint_signed:
  assumes "- 32 \<le> sint (x :: u32) \<and> sint x < 128"
  shows "is_fixint (ucast x)" "sint (ucast x :: byte) = sint x"
proof -
  show b: "sint (ucast x :: byte) = sint x" using assms by (intro sint_ucast_fit) simp_all
  then show "is_fixint (ucast x)"
    using assms uint_byte [of "ucast x"] by (auto simp: is_fixint_iff sint_byte split: if_splits)
qed

lemma read_write_unsigned4 [msgpack_simps]: "read_int (write_unsigned4 [] x @ r) = Some (ucast x :: 'a::len word, r)"
proof -
  consider "uint x < 128" | "128 \<le> uint x" "uint x < 256" | "256 \<le> uint x" "uint x < 65536" | "65536 \<le> uint x"
    by linarith
  then show ?thesis
  proof cases
    case 1
    then show ?thesis using fixint_unsigned [OF 1] by (simp add: write_unsigned4_def read_int_fix word_less_def)
  qed (simp_all add: write_unsigned4_def write_net read_int_def hard_read_int_def is_fixint_iff msgpack_simps
      ucast_fit word_less_def)
qed

lemma signed_ranges:
  "(x :: u32) + 0x20 < nfixint \<longleftrightarrow> - 32 \<le> sint x \<and> sint x < 128"
  "x + 128 < 256 \<longleftrightarrow> - 128 \<le> sint x \<and> sint x < 128"
  "x + 32768 < 65536 \<longleftrightarrow> - 32768 \<le> sint x \<and> sint x < 32768"
  "(y :: u64) + 2147483648 < 4294967296 \<longleftrightarrow> - 2147483648 \<le> sint y \<and> sint y < 2147483648"
  using wrapped_range [of "0x20" "0xA0" x] wrapped_range [of 128 256 x] wrapped_range [of 32768 65536 x]
    wrapped_range [of 2147483648 4294967296 y]
  by (simp_all add: nfixint_def)

lemma read_write_signed4 [msgpack_simps]: "read_int (write_signed4 [] x @ r) = Some (scast x :: 'a::len word, r)"
proof -
  note w = write_signed4_def [of "[]" x, unfolded signed_ranges]
  note rd = read_int_def hard_read_int_def is_fixint_iff msgpack_simps
  consider (a) "- 32 \<le> sint x \<and> sint x < 128" | (b) "\<not> (- 32 \<le> sint x \<and> sint x < 128)" "- 128 \<le> sint x \<and> sint x < 128"
    | (c) "\<not> (- 128 \<le> sint x \<and> sint x < 128)" "- 32768 \<le> sint x \<and> sint x < 32768"
    | (d) "\<not> (- 32768 \<le> sint x \<and> sint x < 32768)" by blast
  then show ?thesis
  proof cases
    case a
    then show ?thesis using fixint_signed [OF a] by (simp add: w read_int_fix)
  next
    case b
    then have "write_signed4 [] x = [0xD0, ucast x]" unfolding w by (simp only: if_True if_False simp_thms append_Nil)
    then show ?thesis using b(2) scast_fit [of x, where ?'b = 8] by (simp add: rd)
  next
    case c
    then have "\<not> (- 32 \<le> sint x \<and> sint x < 128)" by linarith
    then have "write_signed4 [] x = 0xD1 # net_bytes 2 (ucast x :: 16 word)"
      using c unfolding w by (simp only: if_True if_False simp_thms append_Nil append_Cons write_net)
    then show ?thesis using c(2) scast_fit [of x, where ?'b = 16] by (simp add: rd)
  next
    case d
    then have "\<not> (- 32 \<le> sint x \<and> sint x < 128)" "\<not> (- 128 \<le> sint x \<and> sint x < 128)" by linarith+
    then have "write_signed4 [] x = 0xD2 # net_bytes 4 x"
      using d unfolding w by (simp only: if_False append_Nil append_Cons write_net)
    then show ?thesis by (simp add: rd)
  qed
qed

lemma read_write_unsigned8 [msgpack_simps]: "read_int (write_unsigned8 [] x @ r) = Some (ucast x :: 'a::len word, r)"
proof (cases "x < 4294967296")
  case True
  then have "uint x < 2 ^ LENGTH(32)" by (simp add: word_less_def)
  then show ?thesis using True by (simp add: write_unsigned8_def msgpack_simps ucast_fit)
next
  case False
  then show ?thesis
    by (simp add: write_unsigned8_def write_net read_int_def hard_read_int_def is_fixint_iff msgpack_simps)
qed

lemma read_write_signed8 [msgpack_simps]: "read_int (write_signed8 [] x @ r) = Some (scast x :: 'a::len word, r)"
proof (cases "- 2147483648 \<le> sint x \<and> sint x < 2147483648")
  case True
  then show ?thesis
    using scast_fit [of x, where ?'b = 32] by (simp add: write_signed8_def msgpack_simps signed_ranges)
next
  case False
  then have "write_signed8 [] x = 0xD3 # net_bytes 8 x"
    unfolding write_signed8_def signed_ranges by (simp only: if_False append_Nil append_Cons write_net)
  then show ?thesis by (simp add: read_int_def hard_read_int_def is_fixint_iff msgpack_simps)
qed

lemma read_write_wide [msgpack_simps]:
  "read_int (write_wide_unsigned [] x @ r) = Some (ucast x :: 'a::len word, r)"
  "read_int (write_wide_signed [] x @ r) = Some (scast x :: 'a::len word, r)"
  by (simp_all add: write_wide_unsigned_def write_wide_signed_def write_net read_int_def hard_read_int_def
      is_fixint_iff msgpack_simps)

lemma read_write_simple [msgpack_simps]:
  "try_read_null (write_null [] @ r) = Some (True, r)"
  "read_bool (write_bool [] b @ r) = Some (b, r)"
  "read_double (write_double [] x @ r) = Some (x, r)"
  by (simp_all add: try_read_null_def write_null_def read_bool_def write_bool_def read_double_def
      write_double_def write_net msgpack_simps)

lemma fixed_byte:
  assumes "uint n < uint (b :: byte)" "uint b + uint (n :: u32) < 256"
  shows "uint (b + ucast n :: byte) = uint b + uint n"
proof -
  have "uint (ucast n :: byte) = uint n" using assms uint_byte [of b] by (intro uint_ucast_fit) simp
  then show ?thesis using assms by (simp add: uint_word_ariths)
qed

lemma read_write_array_header [msgpack_simps]: "read_array_header (write_array_header [] n @ r) = Some (n, r)"
proof (cases "n < 0x10")
  case True
  then have n: "uint n < 16" by (simp add: word_less_def)
  have b: "uint (0x90 + ucast n :: byte) = 0x90 + uint n" using fixed_byte [of n "0x90"] n by simp
  have "uint (ucast (0x90 + ucast n :: byte) - 0x90 :: u32) = uint n"
    using uint_byte [of "0x90 + ucast n"] b n by (simp add: uint_word_ariths unsigned_ucast_eq take_bit_int_eq_self)
  then have "ucast (0x90 + ucast n :: byte) - 0x90 = n" by (simp only: word_uint_eq_iff)
  then show ?thesis using True b n by (simp add: write_array_header_def read_array_header_def)
next
  case False
  have "(ucast (ucast n :: 16 word) :: u32) = n" if "n < 65536"
    using that by (simp add: ucast_fit word_less_def)
  then show ?thesis using False
    by (simp add: write_array_header_def read_array_header_def write_net msgpack_simps)
qed

lemma unat_of_uint: "uint (w :: 'a::len word) = int n \<Longrightarrow> unat w = n"
  using nat_uint_eq [of w] by (simp only: nat_int)

lemma read_write_str [msgpack_simps]:
  assumes "length d < 2 ^ 31"
  shows "read_str (write_string [] d @ r) = Some (d, r)"
proof -
  let ?n = "int (length d)"
  have u: "uint (of_int ?n :: 'a::len word) = ?n" if "?n < 2 ^ LENGTH('a)"
    using that by (simp add: unsigned_of_nat take_bit_int_eq_self take_bit_nat_eq_self)
  consider (a) "?n < 0x20" | (b) "0x20 \<le> ?n" "?n < 256" | (c) "256 \<le> ?n" "?n < 65536" | (d) "65536 \<le> ?n" by linarith
  then show ?thesis
  proof cases
    case a
    have n: "uint (of_int ?n :: byte) = ?n" using a by (intro u) simp
    have b: "uint (0xA0 + of_int ?n :: byte) = 0xA0 + ?n" using a n by (simp add: uint_word_ariths)
    have "uint (ucast (0xA0 + of_int ?n :: byte) - 0xA0 :: u32) = ?n"
      using b a by (simp add: uint_word_ariths unsigned_ucast_eq take_bit_int_eq_self)
    then have "unat (ucast (0xA0 + of_int ?n :: byte) - 0xA0 :: u32) = length d" by (rule unat_of_uint)
    then show ?thesis using a b by (simp add: write_string_def read_str_def)
  next
    case b
    then have "uint (of_int ?n :: byte) = ?n" by (intro u) simp
    then have "unat (ucast (of_int ?n :: byte) :: u32) = length d"
      using b by (intro unat_of_uint) (simp add: unsigned_ucast_eq take_bit_int_eq_self)
    then show ?thesis using b by (simp add: write_string_def read_str_def msgpack_simps)
  next
    case c
    then have "uint (of_int ?n :: 16 word) = ?n" by (intro u) simp
    then have "unat (ucast (of_int ?n :: 16 word) :: u32) = length d"
      using c by (intro unat_of_uint) (simp add: unsigned_ucast_eq take_bit_int_eq_self)
    then show ?thesis using c by (simp add: write_string_def read_str_def write_net msgpack_simps)
  next
    case d
    have "uint (of_int ?n :: u32) = ?n" using assms by (intro u) simp
    then have "unat (of_int ?n :: u32) = length d" by (rule unat_of_uint)
    then show ?thesis using d by (simp add: write_string_def read_str_def write_net msgpack_simps)
  qed
qed

text \<open>A value of one of the primitive formats \<open>skip_primitives\<close> knows.\<close>

datatype primitive = P_null | P_bool bool | P_signed u32 | P_unsigned u32 | P_string bytes

fun write_primitive :: "primitive \<Rightarrow> bytes" where
  "write_primitive P_null = write_null []"
| "write_primitive (P_bool b) = write_bool [] b"
| "write_primitive (P_signed x) = write_signed4 [] x"
| "write_primitive (P_unsigned x) = write_unsigned4 [] x"
| "write_primitive (P_string d) = write_string [] d"

fun primitive_ok :: "primitive \<Rightarrow> bool" where
  "primitive_ok (P_string d) \<longleftrightarrow> length d < 2 ^ 31"
| "primitive_ok _ \<longleftrightarrow> True"

definition skips :: "bytes \<Rightarrow> bool" where
  "skips e \<longleftrightarrow> (\<forall>r. skip_length (e @ r) = Some (length e))"

lemma skips_fix: "is_fixint b \<Longrightarrow> skips [b]"
  by (simp add: skips_def skip_length_def)

lemma skips_formats:
  "skips [0xCC, b]" "skips [0xD0, b]" "skips (0xCD # net_bytes 2 (x :: 16 word))"
  "skips (0xD1 # net_bytes 2 (x :: 16 word))" "skips (0xCE # net_bytes 4 (y :: u32))"
  "skips (0xD2 # net_bytes 4 (y :: u32))" "skips [0xC0]" "skips [0xC2]" "skips [0xC3]"
  by (simp_all add: skips_def skip_length_def is_fixint_iff)

lemma skips_signed4: "skips (write_signed4 [] x)"
proof (cases "- 32 \<le> sint x \<and> sint x < 128")
  case True
  then show ?thesis using fixint_signed [OF True] by (simp add: write_signed4_def signed_ranges skips_fix)
next
  case False
  then show ?thesis unfolding write_signed4_def signed_ranges
    by (simp only: if_False simp_thms write_net append_Nil append_Cons if_split skips_formats simp_thms)
qed

lemma skips_unsigned4: "skips (write_unsigned4 [] x)"
proof (cases "uint x < 128")
  case True
  then show ?thesis using fixint_unsigned [OF True] by (simp add: write_unsigned4_def word_less_def skips_fix)
next
  case False
  then show ?thesis unfolding write_unsigned4_def by (simp add: word_less_def write_net skips_formats)
qed

lemma skips_string:
  assumes "length d < 2 ^ 31"
  shows "skips (write_string [] d)"
proof -
  let ?n = "int (length d)"
  have u: "uint (of_int ?n :: 'a::len word) = ?n" if "?n < 2 ^ LENGTH('a)"
    using that by (simp add: unsigned_of_nat take_bit_int_eq_self take_bit_nat_eq_self)
  consider (a) "?n < 0x20" | (b) "0x20 \<le> ?n" "?n < 256" | (c) "256 \<le> ?n" "?n < 65536" | (d) "65536 \<le> ?n" by linarith
  then show ?thesis
  proof cases
    case a
    have n: "uint (of_int ?n :: byte) = ?n" using a by (intro u) simp
    have b: "uint (0xA0 + of_int ?n :: byte) = 0xA0 + ?n" using a n by (simp add: uint_word_ariths)
    have "unat (of_int ?n :: byte) = length d" using n by (rule unat_of_uint)
    then show ?thesis using a b by (simp add: write_string_def skips_def skip_length_def is_fixint_iff)
  next
    case b
    then have "uint (of_int ?n :: byte) = ?n" by (intro u) simp
    then have "unat (of_int ?n :: byte) = length d" by (rule unat_of_uint)
    then show ?thesis using b by (simp add: write_string_def skips_def skip_length_def is_fixint_iff msgpack_simps)
  next
    case c
    then have "uint (of_int ?n :: 16 word) = ?n" by (intro u) simp
    then have "unat (of_int ?n :: 16 word) = length d" by (rule unat_of_uint)
    then show ?thesis using c
      by (simp add: write_string_def skips_def skip_length_def is_fixint_iff write_net msgpack_simps)
  next
    case d
    have "uint (of_int ?n :: u32) = ?n" using assms by (intro u) simp
    then have "unat (of_int ?n :: u32) = length d" by (rule unat_of_uint)
    then show ?thesis using d
      by (simp add: write_string_def skips_def skip_length_def is_fixint_iff write_net msgpack_simps)
  qed
qed

lemma skips_primitive: "primitive_ok p \<Longrightarrow> skips (write_primitive p)"
  by (cases p) (simp_all add: write_null_def write_bool_def skips_formats skips_signed4 skips_unsigned4 skips_string)

lemma skip_primitives_ok:
  "\<forall>p \<in> set ps. primitive_ok p \<Longrightarrow> skip_primitives (length ps) (concat (map write_primitive ps) @ r) = Some r"
proof (induction ps)
  case (Cons p ps)
  have "skips (write_primitive p)" using Cons.prems by (simp add: skips_primitive)
  then have "skip_length (write_primitive p @ concat (map write_primitive ps) @ r) = Some (length (write_primitive p))"
    by (simp add: skips_def)
  then show ?case using Cons by simp
qed simp

section \<open>Properties\<close>

text \<open>C34: every integer is read back as it was written, whatever the width of the variable it is
  read into: the value is converted to it as C++ converts integers.\<close>

theorem msgpack_int_roundtrip:
  "read_int (write_signed4 [] x @ r) = Some (scast x :: 'a::len word, r) \<and>
   read_int (write_unsigned4 [] x @ r) = Some (ucast x :: 'a word, r) \<and>
   read_int (write_signed8 [] y @ r) = Some (scast y :: 'a word, r) \<and>
   read_int (write_unsigned8 [] y @ r) = Some (ucast y :: 'a word, r) \<and>
   read_int (write_wide_unsigned [] y @ r) = Some (ucast y :: 'a word, r) \<and>
   read_int (write_wide_signed [] y @ r) = Some (scast y :: 'a word, r)"
  by (simp add: msgpack_simps)



text \<open>\<open>skip_primitives\<close> has no case for integers and floating-point numbers of eight bytes: it stays
  where it is on them, and counts them as skipped.\<close>

lemma skip_primitives_stuck:
  "skip_primitives n (write_wide_unsigned [] x @ r) = Some (write_wide_unsigned [] x @ r)"
  "skip_primitives n (write_wide_signed [] x @ r) = Some (write_wide_signed [] x @ r)"
  "skip_primitives n (write_double [] x @ r) = Some (write_double [] x @ r)"
  by (induction n) (simp_all add: write_wide_unsigned_def write_wide_signed_def write_double_def write_net
      skip_length_def is_fixint_iff)

end
