(* ===== verification/Value_Row.thy ===== *)
theory Value_Row
  imports Compiler_Ops
begin

text \<open>
  What the rows of \<^verbatim>\<open>value_bag.hh\<close>, \<^verbatim>\<open>value_array.hh\<close> and \<^verbatim>\<open>value_string.hh\<close> have in common: a change is a list
  of columns with their new values, in increasing order; \<open>upd_cols\<close> says what it makes of the
  columns of a row.  The record \<open>row_class\<close> collects the operations that \<^verbatim>\<open>kvrow.hh\<close> and \<^verbatim>\<open>log.cc\<close>
  call on their template parameter, and the locale \<open>row_impl\<close> states what they rely on.
\<close>

section \<open>Changes\<close>

type_synonym changes = "(nat \<times> bytes) list"

text \<open>An update replaces a column, or appends one after as many empty ones as it takes.\<close>

definition set_col :: "bytes list \<Rightarrow> nat \<times> bytes \<Rightarrow> bytes list" where
  "set_col cs ch = (if fst ch < length cs then cs[fst ch := snd ch]
     else cs @ replicate (fst ch - length cs) [] @ [snd ch])"

definition upd_cols :: "bytes list \<Rightarrow> (nat \<times> bytes) list \<Rightarrow> bytes list" where
  "upd_cols cs chs = foldl set_col cs chs"

fun increasing :: "nat \<Rightarrow> (nat \<times> bytes) list \<Rightarrow> bool" where
  "increasing lo [] = True"
| "increasing lo ((idx, v) # chs) = (lo \<le> idx \<and> increasing (Suc idx) chs)"

definition new_col :: "bytes list \<Rightarrow> (nat \<times> bytes) list \<Rightarrow> nat \<Rightarrow> bytes" where
  "new_col cs chs i = (case map_of chs i of Some v \<Rightarrow> v | None \<Rightarrow> if i < length cs then cs ! i else [])"

lemma increasing_none: "increasing lo chs \<Longrightarrow> i < lo \<Longrightarrow> map_of chs i = None"
  by (induction lo chs rule: increasing.induct) auto

lemma increasing_mono: "increasing lo chs \<Longrightarrow> lo' \<le> lo \<Longrightarrow> increasing lo' chs"
  by (cases chs) auto

lemma upd_cols_Cons [simp]: "upd_cols cs (ch # chs) = upd_cols (set_col cs ch) chs"
  by (simp add: upd_cols_def)

lemma upd_cols_Nil [simp]: "upd_cols cs [] = cs"
  by (simp add: upd_cols_def)

lemma length_set_col: "length (set_col cs ch) = max (length cs) (Suc (fst ch))"
  by (simp add: set_col_def)

lemma nth_set_col:
  "i < length (set_col cs ch) \<Longrightarrow>
   set_col cs ch ! i = (if i = fst ch then snd ch else if i < length cs then cs ! i else [])"
  by (auto simp: set_col_def nth_append not_less le_Suc_eq nth_Cons' split: if_splits)

lemma length_upd_cols: "length cs \<le> length (upd_cols cs chs)"
proof (induction chs arbitrary: cs)
  case (Cons ch chs)
  have "length cs \<le> length (set_col cs ch)" by (simp add: length_set_col)
  then show ?case using Cons [of "set_col cs ch"] by simp
qed simp

lemma upd_cols_covers: "ch \<in> set chs \<Longrightarrow> fst ch < length (upd_cols cs chs)"
proof (induction chs arbitrary: cs)
  case (Cons a chs)
  then show ?case
    using length_upd_cols [of "set_col cs a" chs] by (auto simp: length_set_col)
qed simp

lemma nth_upd_cols:
  assumes "increasing lo chs" "i < length (upd_cols cs chs)"
  shows "upd_cols cs chs ! i = new_col cs chs i"
  using assms
proof (induction chs arbitrary: cs lo)
  case (Cons ch chs)
  obtain idx v where ch [simp]: "ch = (idx, v)" by (cases ch)
  from Cons.prems have inc: "increasing (Suc idx) chs" by simp
  have "upd_cols cs (ch # chs) ! i = new_col (set_col cs ch) chs i"
    using Cons.IH [OF inc] Cons.prems by simp
  also have "\<dots> = new_col cs (ch # chs) i"
    using increasing_none [OF inc, of i]
    by (auto simp: new_col_def nth_set_col length_set_col split: option.split)
  finally show ?case .
qed (simp add: new_col_def)

lemma upd_cols_map:
  "increasing lo chs \<Longrightarrow> upd_cols cs chs = map (new_col cs chs) [0..<length (upd_cols cs chs)]"
  by (rule nth_equalityI) (auto simp: nth_upd_cols)

lemma new_col_skip:
  "increasing lo ((idx, v) # chs) \<Longrightarrow> idx < i \<Longrightarrow> new_col cs ((idx, v) # chs) i = new_col cs chs i"
  by (simp add: new_col_def)


section \<open>Copying\<close>

text \<open>\<open>memcpy\<close> into memory at an offset, and out of it.\<close>

definition put_bytes :: "bytes \<Rightarrow> nat \<Rightarrow> bytes \<Rightarrow> bytes option" where
  "put_bytes m off bs = (if off + length bs \<le> length m then Some (take off m @ bs @ drop (off + length bs) m) else None)"

definition get_bytes :: "bytes \<Rightarrow> nat \<Rightarrow> nat \<Rightarrow> bytes option" where
  "get_bytes m off n = (if off + n \<le> length m then Some (take n (drop off m)) else None)"

lemma put_bytes_Some:
  "off + length bs \<le> length m \<Longrightarrow> put_bytes m off bs = Some (take off m @ bs @ drop (off + length bs) m)"
  by (simp add: put_bytes_def)

lemma put_over: "length m = length bs \<Longrightarrow> put_bytes m 0 bs = Some bs"
  by (simp add: put_bytes_def)

section \<open>The operations of a row type\<close>

text \<open>
  \<open>'s\<close> is the memory the rows live in.  Each operation may fail (\<open>None\<close>): an assertion, or an access
  outside of the row.
\<close>

record ('r, 's) row_class =
  rc_ts :: "'r \<Rightarrow> u64"
  rc_create :: "changes \<Rightarrow> u64 \<Rightarrow> 's \<Rightarrow> ('r \<times> 's) option"
  rc_create1 :: "bytes \<Rightarrow> u64 \<Rightarrow> 's \<Rightarrow> ('r \<times> 's) option"
  rc_update :: "'r \<Rightarrow> changes \<Rightarrow> u64 \<Rightarrow> 's \<Rightarrow> ('r \<times> 's) option"

text \<open>
  The contract: \<open>inv\<close> holds of the memory, \<open>ok s r\<close> of a row that is whole in memory \<open>s\<close>; \<open>cols s r\<close>
  are its columns, and \<open>fits\<close> bounds the rows the type can hold.  New rows carry the timestamp
  they are given, and no operation touches the rows that exist.
\<close>

locale row_impl =
  fixes C :: "('r, 's) row_class"
    and inv :: "'s \<Rightarrow> bool"
    and ok :: "'s \<Rightarrow> 'r \<Rightarrow> bool"
    and cols :: "'s \<Rightarrow> 'r \<Rightarrow> bytes list"
    and fits :: "bytes list \<Rightarrow> bool"
  assumes create1_law: "inv s \<Longrightarrow> fits [v] \<Longrightarrow>
      \<exists>r s'. rc_create1 C v ts s = Some (r, s') \<and> inv s' \<and> ok s' r \<and> cols s' r = [v] \<and> rc_ts C r = ts \<and>
        (\<forall>r0. ok s r0 \<longrightarrow> ok s' r0 \<and> cols s' r0 = cols s r0)"
    and create_law: "inv s \<Longrightarrow> increasing 0 chs \<Longrightarrow> chs \<noteq> [] \<Longrightarrow> fits (upd_cols [] chs) \<Longrightarrow>
      \<exists>r s'. rc_create C chs ts s = Some (r, s') \<and> inv s' \<and> ok s' r \<and> cols s' r = upd_cols [] chs \<and>
        rc_ts C r = ts \<and> (\<forall>r0. ok s r0 \<longrightarrow> ok s' r0 \<and> cols s' r0 = cols s r0)"
    and update_law: "inv s \<Longrightarrow> ok s r \<Longrightarrow> increasing 0 chs \<Longrightarrow> chs \<noteq> [] \<Longrightarrow> fits (upd_cols (cols s r) chs) \<Longrightarrow>
      rc_ts C r \<le> ts \<Longrightarrow>
      \<exists>r' s'. rc_update C r chs ts s = Some (r', s') \<and> inv s' \<and> ok s' r' \<and>
        cols s' r' = upd_cols (cols s r) chs \<and> rc_ts C r' = ts \<and>
        (\<forall>r0. ok s r0 \<longrightarrow> ok s' r0 \<and> cols s' r0 = cols s r0)"

end
