(* ===== verification/Value_Bag.thy ===== *)
theory Value_Bag
  imports Value_Row
begin

text \<open>
  \<^verbatim>\<open>value_bag.hh\<close>, the rows of the server by default: the columns of a row in one piece of memory,
  after a table of 16-bit offsets.  A row is its timestamp and the bytes of \<open>d_\<close>, with the union
  read as the code reads it: the number of columns in the first two bytes, then the offsets,
  one more than there are columns, then the data.  Allocation returns memory with arbitrary
  contents; writing or reading outside of it is \<open>None\<close>.
\<close>

section \<open>Rows\<close>

record bag =
  bag_ts :: u64
  bag_s :: bytes

text \<open>\<open>sizeof(offset_type)\<close> is 2 and \<open>sizeof(bagdata)\<close> is 4.\<close>

definition load16 :: "bytes \<Rightarrow> nat \<Rightarrow> 16 word" where
  "load16 m off = load_le (take 2 (drop off m))"

definition bag_ncol :: "bytes \<Rightarrow> nat" where "bag_ncol m = unat (load16 m 0)"

definition bag_pos :: "bytes \<Rightarrow> nat \<Rightarrow> 16 word" where "bag_pos m i = load16 m (2 + 2 * i)"

definition bag_empty :: bag where
  "bag_empty = \<lparr>bag_ts = 0, bag_s = store_le 2 (0 :: 16 word) @ store_le 2 (4 :: 16 word)\<rparr>"

definition bag_size :: "bag \<Rightarrow> nat" where
  "bag_size b = 8 + unat (bag_pos (bag_s b) (bag_ncol (bag_s b)))"

definition bag_column_length :: "bag \<Rightarrow> nat \<Rightarrow> nat" where
  "bag_column_length b i = unat (bag_pos (bag_s b) (i + 1) - bag_pos (bag_s b) i)"

definition bag_col :: "bag \<Rightarrow> nat \<Rightarrow> bytes" where
  "bag_col b i =
     (if i < bag_ncol (bag_s b)
      then take (bag_column_length b i) (drop (unat (bag_pos (bag_s b) i)) (bag_s b)) else [])"

definition bag_row_string :: "bag \<Rightarrow> bytes" where
  "bag_row_string b = take (unat (bag_pos (bag_s b) (bag_ncol (bag_s b)))) (bag_s b)"

section \<open>Updating\<close>

definition bag_set_pos :: "bytes \<Rightarrow> nat \<Rightarrow> nat \<Rightarrow> bytes option" where
  "bag_set_pos m i sz = put_bytes m (2 + 2 * i) (store_le 2 (of_nat sz :: 16 word))"

text \<open>The first loop: the size of the new row and its number of columns.\<close>

fun bag_update_size :: "bag \<Rightarrow> (nat \<times> bytes) list \<Rightarrow> nat \<Rightarrow> nat \<Rightarrow> nat \<times> nat" where
  "bag_update_size b [] sz ncol = (sz, ncol)"
| "bag_update_size b ((idx, v) # chs) sz ncol =
     (let sz = sz + length v
      in if idx < bag_ncol (bag_s b) then bag_update_size b chs (sz - bag_column_length b idx) ncol
         else bag_update_size b chs sz (idx + 1))"

text \<open>Copying the columns \<open>[col, end_col)\<close> of the old row to offset \<open>sz\<close>: their offsets move by
  \<open>delta\<close>, whether by \<open>memcpy\<close> when it is 0 or one by one.\<close>

fun bag_copy_pos :: "bytes \<Rightarrow> nat \<Rightarrow> int \<Rightarrow> nat \<Rightarrow> bytes \<Rightarrow> bytes option" where
  "bag_copy_pos old i delta 0 m = Some m"
| "bag_copy_pos old i delta (Suc n) m = do {
     m \<leftarrow> put_bytes m (2 + 2 * i) (store_le 2 (of_int (int (unat (bag_pos old i)) + delta) :: 16 word));
     bag_copy_pos old (i + 1) delta n m }"

fun bag_mark_empty :: "nat \<Rightarrow> nat \<Rightarrow> nat \<Rightarrow> bytes \<Rightarrow> bytes option" where
  "bag_mark_empty col sz 0 m = Some m"
| "bag_mark_empty col sz (Suc n) m = do {
     m \<leftarrow> bag_set_pos m col sz;
     bag_mark_empty (col + 1) sz n m }"

text \<open>One round up to the test for the end: the columns before \<open>this_col\<close>.\<close>

definition bag_fill :: "bytes \<Rightarrow> nat \<Rightarrow> nat \<Rightarrow> nat \<Rightarrow> bytes \<Rightarrow> (bytes \<times> nat) option" where
  "bag_fill old this_col col sz m = do {
     (m, col, sz) \<leftarrow>
       (if col \<noteq> this_col \<and> col < bag_ncol old then do {
          let end_col = min this_col (bag_ncol old);
          let delta = int sz - int (unat (bag_pos old col));
          m \<leftarrow> bag_copy_pos old col delta (end_col - col) m;
          let amt = unat (bag_pos old end_col) - unat (bag_pos old col);
          bs \<leftarrow> get_bytes old (unat (bag_pos old col)) amt;
          m \<leftarrow> put_bytes m sz bs;
          Some (m, end_col, sz + amt) }
        else Some (m, col, sz));
     if this_col < col then None
     else do {
       m \<leftarrow> bag_mark_empty col sz (this_col - col) m;
       Some (m, sz) } }"

fun bag_loop :: "bytes \<Rightarrow> nat \<Rightarrow> (nat \<times> bytes) list \<Rightarrow> nat \<Rightarrow> nat \<Rightarrow> bytes \<Rightarrow> bytes option" where
  "bag_loop old ncol [] col sz m = do {
     (m, sz) \<leftarrow> bag_fill old ncol col sz m;
     bag_set_pos m ncol sz }"
| "bag_loop old ncol ((idx, v) # chs) col sz m = do {
     (m, sz) \<leftarrow> bag_fill old idx col sz m;
     if idx = ncol then bag_set_pos m ncol sz
     else do {
       m \<leftarrow> bag_set_pos m idx sz;
       m \<leftarrow> put_bytes m sz v;
       bag_loop old ncol chs (idx + 1) (sz + length v) m } }"

text \<open>\<open>fresh n\<close> is what the allocated memory of \<open>n\<close> bytes of data holds.\<close>

definition bag_update :: "(nat \<Rightarrow> bytes) \<Rightarrow> bag \<Rightarrow> (nat \<times> bytes) list \<Rightarrow> u64 \<Rightarrow> bag option" where
  "bag_update fresh b chs ts =
     (let old = bag_s b; ncol0 = bag_ncol old;
          (sz, ncol) = bag_update_size b chs (bag_size b) ncol0;
          sz = (if ncol > ncol0 then sz + (ncol - ncol0) * 2 else sz);
          m = fresh (sz - 8)
      in if ncol = ncol0 \<and> sz = bag_size b \<and> length chs = 1 \<and> length (snd (hd chs)) \<le> 16
         then do {
           bs \<leftarrow> get_bytes old 0 (sz - 8);
           m \<leftarrow> put_bytes m 0 bs;
           m \<leftarrow> put_bytes m (unat (bag_pos old (fst (hd chs)))) (snd (hd chs));
           Some \<lparr>bag_ts = ts, bag_s = m\<rparr> }
         else do {
           m \<leftarrow> put_bytes m 0 (store_le 2 (of_nat ncol :: 16 word));
           m \<leftarrow> bag_loop old ncol chs 0 (4 + ncol * 2) m;
           Some \<lparr>bag_ts = ts, bag_s = m\<rparr> })"

definition bag_create :: "(nat \<Rightarrow> bytes) \<Rightarrow> (nat \<times> bytes) list \<Rightarrow> u64 \<Rightarrow> bag option" where
  "bag_create fresh chs ts = bag_update fresh bag_empty chs ts"

definition bag_create1 :: "(nat \<Rightarrow> bytes) \<Rightarrow> bytes \<Rightarrow> u64 \<Rightarrow> bag option" where
  "bag_create1 fresh v ts = do {
     m \<leftarrow> put_bytes (fresh (4 + 2 + length v)) 0 (store_le 2 (1 :: 16 word));
     m \<leftarrow> bag_set_pos m 0 (4 + 2);
     m \<leftarrow> bag_set_pos m 1 (4 + 2 + length v);
     m \<leftarrow> put_bytes m (unat (bag_pos m 0)) v;
     Some \<lparr>bag_ts = ts, bag_s = m\<rparr> }"

text \<open>Checkpoints hold the bytes of the row.\<close>

definition bag_checkpoint_read :: "(nat \<Rightarrow> bytes) \<Rightarrow> bytes \<Rightarrow> u64 \<Rightarrow> bag option" where
  "bag_checkpoint_read fresh v ts = do {
     m \<leftarrow> put_bytes (fresh (length v)) 0 v; Some \<lparr>bag_ts = ts, bag_s = m\<rparr> }"

section \<open>The image of a row\<close>

text \<open>The memory image of a row whose columns are \<open>cs\<close>.\<close>

fun offsets :: "nat \<Rightarrow> bytes list \<Rightarrow> nat list" where
  "offsets p [] = [p]"
| "offsets p (c # cs) = p # offsets (p + length c) cs"

definition pos_bytes :: "nat list \<Rightarrow> bytes" where
  "pos_bytes ps = concat (map (\<lambda>p. store_le 2 (of_nat p :: 16 word)) ps)"

definition bag_image :: "bytes list \<Rightarrow> bytes" where
  "bag_image cs = store_le 2 (of_nat (length cs) :: 16 word) @
     pos_bytes (offsets (4 + 2 * length cs) cs) @ concat cs"

definition image_size :: "bytes list \<Rightarrow> nat" where
  "image_size cs = 4 + 2 * length cs + length (concat cs)"

lemma length_offsets [simp]: "length (offsets p cs) = Suc (length cs)"
  by (induction cs arbitrary: p) auto

lemma nth_offsets: "i \<le> length cs \<Longrightarrow> offsets p cs ! i = p + length (concat (take i cs))"
  by (induction cs arbitrary: p i) (auto simp: nth_Cons' take_Cons' gr0_conv_Suc)

lemma take_offsets_append: "k \<le> Suc (length xs) \<Longrightarrow> take k (offsets p (xs @ ys)) = take k (offsets p xs)"
proof (induction xs arbitrary: p k)
  case Nil
  then show ?case by (cases k; cases ys) auto
next
  case (Cons x xs)
  then show ?case by (cases k) auto
qed

lemma length_pos_bytes [simp]: "length (pos_bytes ps) = 2 * length ps"
  by (induction ps) (auto simp: pos_bytes_def)

lemma pos_bytes_append [simp]: "pos_bytes (ps @ qs) = pos_bytes ps @ pos_bytes qs"
  by (simp add: pos_bytes_def)

lemma pos_bytes_single [simp]: "pos_bytes [p] = store_le 2 (of_nat p :: 16 word)"
  by (simp add: pos_bytes_def)

lemma pos_bytes_nth: "i < length ps \<Longrightarrow> take 2 (drop (2 * i) (pos_bytes ps)) = store_le 2 (of_nat (ps ! i) :: 16 word)"
proof (induction ps arbitrary: i)
  case (Cons p ps)
  then show ?case by (cases i) (auto simp: pos_bytes_def)
qed simp

lemma length_bag_image [simp]: "length (bag_image cs) = image_size cs"
  by (simp add: bag_image_def image_size_def)

lemma bag_ncol_image:
  assumes "image_size cs < 65536"
  shows "bag_ncol (bag_image cs) = length cs"
  using assms by (simp add: bag_ncol_def load16_def bag_image_def load_store unat_of_nat image_size_def)

lemma bag_pos_image_word:
  assumes "i \<le> length cs"
  shows "bag_pos (bag_image cs) i = of_nat (4 + 2 * length cs + length (concat (take i cs)))"
proof -
  have "take 2 (drop (2 + 2 * i) (bag_image cs)) =
      take 2 (drop (2 * i) (pos_bytes (offsets (4 + 2 * length cs) cs)))"
    using assms by (simp add: bag_image_def)
  also have "\<dots> = store_le 2 (of_nat (offsets (4 + 2 * length cs) cs ! i) :: 16 word)"
    using assms by (simp add: pos_bytes_nth)
  finally show ?thesis
    using assms by (simp add: bag_pos_def load16_def load_store nth_offsets)
qed

lemma concat_take_le: "length (concat (take i cs)) \<le> length (concat cs)"
  by (metis append_take_drop_id concat_append le_add1 length_append)

lemma bag_pos_image:
  assumes "i \<le> length cs" "image_size cs < 65536"
  shows "unat (bag_pos (bag_image cs) i) = 4 + 2 * length cs + length (concat (take i cs))"
  using assms concat_take_le [of i cs]
  by (simp only: bag_pos_image_word unat_of_nat) (simp add: image_size_def)

lemma bag_size_image:
  assumes "image_size cs < 65536"
  shows "bag_size \<lparr>bag_ts = ts, bag_s = bag_image cs\<rparr> = 8 + image_size cs"
  using assms by (simp add: bag_size_def bag_ncol_image bag_pos_image image_size_def)

lemma column_length_image:
  assumes "image_size cs < 65536" "i < length cs"
  shows "bag_column_length \<lparr>bag_ts = ts, bag_s = bag_image cs\<rparr> i = length (cs ! i)"
proof -
  have "bag_pos (bag_image cs) (i + 1) - bag_pos (bag_image cs) i = of_nat (length (cs ! i))"
    using assms by (simp add: bag_pos_image_word take_Suc_conv_app_nth)
  moreover have "length (cs ! i) < 65536"
    using assms nth_mem [of i cs] concat_take_le [of "Suc i" cs]
    by (simp add: image_size_def take_Suc_conv_app_nth)
  ultimately show ?thesis by (simp add: bag_column_length_def unat_of_nat)
qed

lemma drop_image:
  assumes "i \<le> length cs"
  shows "drop (4 + 2 * length cs + length (concat (take i cs))) (bag_image cs) = concat (drop i cs)"
proof -
  have "drop (length (concat (take i cs))) (concat cs) = concat (drop i cs)"
    by (metis append_eq_conv_conj append_take_drop_id concat_append)
  then show ?thesis by (simp add: bag_image_def)
qed

lemma bag_col_image:
  assumes "image_size cs < 65536"
  shows "bag_col \<lparr>bag_ts = ts, bag_s = bag_image cs\<rparr> i = (if i < length cs then cs ! i else [])"
proof (cases "i < length cs")
  case True
  then show ?thesis
    using assms drop_image [of i cs]
    by (simp add: bag_col_def bag_ncol_image column_length_image bag_pos_image flip: Cons_nth_drop_Suc)
qed (use assms in \<open>simp add: bag_col_def bag_ncol_image\<close>)

section \<open>The size of the new row\<close>

text \<open>The first loop computes the size of the new row.\<close>

lemma length_concat_update:
  "i < length cs \<Longrightarrow> length (concat (cs[i := v])) + length (cs ! i) = length (concat cs) + length v"
proof (induction cs arbitrary: i)
  case (Cons c cs)
  then show ?case by (cases i) auto
qed simp

lemma concat_replicate_Nil [simp]: "concat (replicate n []) = []"
  by (induction n) auto

lemma update_size_image:
  assumes "image_size cs < 65536" "increasing lo chs"
    and "\<forall>i<length cs. lo \<le> i \<longrightarrow> cs' ! i = cs ! i" "length cs \<le> length cs'"
    and "length cs < length cs' \<Longrightarrow> length cs' \<le> lo"
  shows "bag_update_size \<lparr>bag_ts = ts, bag_s = bag_image cs\<rparr> chs (12 + 2 * length cs + length (concat cs')) (length cs')
    = (12 + 2 * length cs + length (concat (upd_cols cs' chs)), length (upd_cols cs' chs))"
  using assms
proof (induction chs arbitrary: lo cs')
  case (Cons ch chs)
  obtain idx v where ch [simp]: "ch = (idx, v)" by (cases ch)
  let ?b = "\<lparr>bag_ts = ts, bag_s = bag_image cs\<rparr>" and ?cs = "set_col cs' ch"
  from Cons.prems(2) have lo: "lo \<le> idx" and inc: "increasing (Suc idx) chs" by auto
  have "length cs < length ?cs \<Longrightarrow> length ?cs \<le> Suc idx"
    using Cons.prems(4,5) lo by (cases "length cs < length cs'") (auto simp: length_set_col)
  then have IH: "bag_update_size ?b chs (12 + 2 * length cs + length (concat ?cs)) (length ?cs)
    = (12 + 2 * length cs + length (concat (upd_cols ?cs chs)), length (upd_cols ?cs chs))"
    using Cons.prems lo by (intro Cons.IH [OF _ inc]) (auto simp: nth_set_col length_set_col)
  show ?case
  proof (cases "idx < length cs")
    case True
    then have same: "cs' ! idx = cs ! idx" and len: "idx < length cs'" "length ?cs = length cs'"
      using Cons.prems lo by (auto simp: length_set_col)
    then have "length (concat ?cs) + length (cs ! idx) = length (concat cs') + length v"
      using length_concat_update [of idx cs' v] by (simp add: set_col_def)
    then have "12 + 2 * length cs + length (concat cs') + length v - length (cs ! idx)
        = 12 + 2 * length cs + length (concat ?cs)" by simp
    then show ?thesis
      using True Cons.prems(1) IH len by (simp add: bag_ncol_image column_length_image)
  next
    case False
    then have "length cs' \<le> idx" using Cons.prems lo by (cases "length cs < length cs'") auto
    then have "concat ?cs = concat cs' @ v" "length ?cs = Suc idx" by (simp_all add: set_col_def)
    then show ?thesis
      using False Cons.prems(1) IH by (simp add: bag_ncol_image add.assoc)
  qed
qed simp

section \<open>The row under construction\<close>

text \<open>\<open>part n k xs d m\<close>: of the image of a row with \<open>n\<close> columns, whose first are \<open>xs\<close>, memory
  \<open>m\<close> holds the header, the first \<open>k\<close> offsets and the data \<open>d\<close>.\<close>

definition part :: "nat \<Rightarrow> nat \<Rightarrow> bytes list \<Rightarrow> bytes \<Rightarrow> bytes \<Rightarrow> bool" where
  "part n k xs d m = (
     take (2 + 2 * k) m = store_le 2 (of_nat n :: 16 word) @ pos_bytes (take k (offsets (4 + 2 * n) xs)) \<and>
     take (length d) (drop (4 + 2 * n) m) = d \<and> k \<le> Suc (length xs) \<and> k \<le> Suc n)"

lemma part_set_pos:
  assumes "part n k xs d m" "k \<le> n" "k \<le> length xs" "4 + 2 * n + length d \<le> length m"
    and "p = 4 + 2 * n + length (concat (take k xs))"
  obtains m' where "put_bytes m (2 + 2 * k) (store_le 2 (of_nat p :: 16 word)) = Some m'"
    "part n (Suc k) xs d m'" "length m' = length m"
proof -
  let ?m = "take (2 + 2 * k) m @ store_le 2 (of_nat p :: 16 word) @ drop (2 + 2 * k + 2) m"
  have hd: "take (2 + 2 * k) m = store_le 2 (of_nat n :: 16 word) @ pos_bytes (take k (offsets (4 + 2 * n) xs))"
    and d: "take (length d) (drop (4 + 2 * n) m) = d"
    using assms(1) by (auto simp: part_def)
  have off: "take (Suc k) (offsets (4 + 2 * n) xs) = take k (offsets (4 + 2 * n) xs) @ [p]"
    using assms by (simp add: take_Suc_conv_app_nth nth_offsets)
  have "take (2 + 2 * Suc k) ?m = take (2 + 2 * k) m @ store_le 2 (of_nat p :: 16 word)"
    using assms(2,4) by simp
  moreover have "drop (4 + 2 * n) ?m = drop (4 + 2 * n) m"
    using assms(2,4) by (simp add: numeral_eq_Suc)
  ultimately have "part n (Suc k) xs d ?m"
    unfolding part_def off hd using assms(2,3) d by (simp only:) simp
  then show thesis
    using assms by (intro that [of ?m]) (auto simp: put_bytes_Some)
qed

lemma part_extend:
  assumes "part n k xs d m" "k \<le> Suc (length xs)"
  shows "part n k (xs @ ys) d m"
  using assms by (simp add: part_def take_offsets_append)

lemma part_put_data:
  assumes "part n k xs d m" "4 + 2 * n + length d + length v \<le> length m" "p = 4 + 2 * n + length d"
  obtains m' where "put_bytes m p v = Some m'" "part n k xs (d @ v) m'" "length m' = length m"
proof -
  let ?m = "take p m @ v @ drop (p + length v) m"
  have "take (2 + 2 * k) ?m = take (2 + 2 * k) m"
    using assms by (simp add: part_def min_def)
  moreover have "drop (4 + 2 * n) ?m = take (length d) (drop (4 + 2 * n) m) @ v @ drop (p + length v) m"
    using assms by (simp add: take_drop add.commute)
  ultimately have "part n k xs (d @ v) ?m"
    using assms by (simp add: part_def)
  then show thesis using assms by (intro that [of ?m]) (auto simp: put_bytes_Some)
qed

lemma part_image:
  assumes "part n (Suc n) xs (concat xs) m" "length xs = n" "length m = image_size xs"
  shows "m = bag_image xs"
proof -
  have "m = take (2 + 2 * Suc n) m @ drop (4 + 2 * n) m"
    using append_take_drop_id [of "4 + 2 * n" m] by (simp add: numeral_eq_Suc)
  moreover have "take (length (concat xs)) (drop (4 + 2 * n) m) = drop (4 + 2 * n) m"
    using assms by (simp add: image_size_def)
  ultimately show ?thesis
    using assms by (metis append_assoc bag_image_def length_offsets part_def take_all_iff order_refl)
qed

lemma copy_pos_part:
  assumes "part n i xs d m" "i + cnt \<le> length xs" "i + cnt \<le> n" "4 + 2 * n + length d \<le> length m"
    and "\<forall>j. i \<le> j \<and> j < i + cnt \<longrightarrow>
      int (unat (bag_pos old j)) + delta = int (4 + 2 * n + length (concat (take j xs)))"
  shows "\<exists>m'. bag_copy_pos old i delta cnt m = Some m' \<and> part n (i + cnt) xs d m' \<and> length m' = length m"
  using assms
proof (induction cnt arbitrary: i m)
  case (Suc cnt)
  have "of_int (int (unat (bag_pos old i)) + delta) =
      (of_nat (4 + 2 * n + length (concat (take i xs))) :: 16 word)"
    using Suc.prems(5) by (metis add_Suc_right lessI of_int_of_nat_eq order_refl le_add1 le_imp_less_Suc)
  moreover obtain m1 where "put_bytes m (2 + 2 * i) (store_le 2 (of_nat (4 + 2 * n + length (concat (take i xs))) :: 16 word)) = Some m1"
    and m1: "part n (Suc i) xs d m1" "length m1 = length m"
    using part_set_pos [OF Suc.prems(1) _ _ Suc.prems(4) refl] Suc.prems(2,3) by auto
  moreover have "\<exists>m'. bag_copy_pos old (Suc i) delta cnt m1 = Some m' \<and>
      part n (Suc i + cnt) xs d m' \<and> length m' = length m1"
    by (rule Suc.IH [OF m1(1)]) (use Suc.prems m1 in auto)
  ultimately show ?case by auto
qed simp

lemma mark_empty_part:
  assumes "part n i xs d m" "i + cnt \<le> length xs" "i + cnt \<le> n" "4 + 2 * n + length d \<le> length m"
    and "\<forall>j. i \<le> j \<and> j < i + cnt \<longrightarrow> p = 4 + 2 * n + length (concat (take j xs))"
  shows "\<exists>m'. bag_mark_empty i p cnt m = Some m' \<and> part n (i + cnt) xs d m' \<and> length m' = length m"
  using assms
proof (induction cnt arbitrary: i m)
  case (Suc cnt)
  have "p = 4 + 2 * n + length (concat (take i xs))" using Suc.prems(5) by simp
  then obtain m1 where m1: "bag_set_pos m i p = Some m1" "part n (Suc i) xs d m1" "length m1 = length m"
    using part_set_pos [OF Suc.prems(1) _ _ Suc.prems(4), of p] Suc.prems(2,3)
    unfolding bag_set_pos_def by auto
  have "\<exists>m'. bag_mark_empty (Suc i) p cnt m1 = Some m' \<and>
      part n (Suc i + cnt) xs d m' \<and> length m' = length m1"
    by (rule Suc.IH [OF m1(2)]) (use Suc.prems m1 in auto)
  with m1 show ?case by auto
qed simp

abbreviation old_col :: "bytes list \<Rightarrow> nat \<Rightarrow> bytes" where
  "old_col cs i \<equiv> (if i < length cs then cs ! i else [])"

lemma old_cols_split:
  assumes "c \<le> t" "c \<le> length cs"
  shows "map (old_col cs) [c..<t] = take (min t (length cs) - c) (drop c cs) @ replicate (t - max c (length cs)) []"
  using assms by (auto intro!: nth_equalityI simp: nth_append min_def max_def)

lemma get_image:
  assumes "i \<le> j" "j \<le> length cs" "image_size cs < 65536"
  shows "get_bytes (bag_image cs) (unat (bag_pos (bag_image cs) i))
      (unat (bag_pos (bag_image cs) j) - unat (bag_pos (bag_image cs) i))
    = Some (concat (take (j - i) (drop i cs)))"
    and "length (concat (take (j - i) (drop i cs))) =
      unat (bag_pos (bag_image cs) j) - unat (bag_pos (bag_image cs) i)"
proof -
  have j: "take j cs = take i cs @ take (j - i) (drop i cs)"
    using assms(1) by (metis le_add_diff_inverse take_add)
  have "concat (drop i cs) = concat (take (j - i) (drop i cs)) @ concat (drop (j - i) (drop i cs))"
    by (metis append_take_drop_id concat_append)
  moreover have "image_size cs \<ge> 4 + 2 * length cs + length (concat (take j cs))"
    using concat_take_le [of j cs] by (simp add: image_size_def)
  ultimately show "get_bytes (bag_image cs) (unat (bag_pos (bag_image cs) i))
      (unat (bag_pos (bag_image cs) j) - unat (bag_pos (bag_image cs) i))
    = Some (concat (take (j - i) (drop i cs)))"
    using assms drop_image [of i cs] by (simp add: get_bytes_def bag_pos_image j)
  show "length (concat (take (j - i) (drop i cs))) =
      unat (bag_pos (bag_image cs) j) - unat (bag_pos (bag_image cs) i)"
    using assms by (simp add: bag_pos_image j)
qed

lemma copy_old_part:
  assumes "part n (length xs) xs (concat xs) m" "length xs < e" "e \<le> n" "e \<le> length cs"
    and "image_size cs < 65536" "ys = take (e - length xs) (drop (length xs) cs)"
    and "4 + 2 * n + length (concat (xs @ ys)) \<le> length m" "p = 4 + 2 * n + length (concat xs)"
  shows "\<exists>m1 m2. bag_copy_pos (bag_image cs) (length xs) (int p - int (unat (bag_pos (bag_image cs) (length xs))))
      (e - length xs) m = Some m1 \<and> put_bytes m1 p (concat ys) = Some m2 \<and>
      part n e (xs @ ys) (concat (xs @ ys)) m2 \<and> length m2 = length m"
proof -
  let ?c = "length xs"
  have ly: "length (xs @ ys) = e" using assms by simp
  have pos: "int (unat (bag_pos (bag_image cs) j)) + (int p - int (unat (bag_pos (bag_image cs) ?c))) =
      int (4 + 2 * n + length (concat (take j (xs @ ys))))" if "?c \<le> j" "j < e" for j
  proof -
    have "take j cs = take ?c cs @ take (j - ?c) (drop ?c cs)"
      using that by (metis le_add_diff_inverse take_add)
    moreover have "take j (xs @ ys) = xs @ take (j - ?c) (drop ?c cs)"
      using that assms(6) by (simp add: min_def)
    ultimately show ?thesis using that assms by (simp add: bag_pos_image)
  qed
  have "part n ?c (xs @ ys) (concat xs) m" using assms(1) by (simp add: part_extend)
  then have "\<exists>m1. bag_copy_pos (bag_image cs) ?c (int p - int (unat (bag_pos (bag_image cs) ?c))) (e - ?c) m = Some m1 \<and>
      part n (?c + (e - ?c)) (xs @ ys) (concat xs) m1 \<and> length m1 = length m"
    by (rule copy_pos_part) (use assms(2,3,7) ly in simp_all, use pos in \<open>intro allI impI, simp\<close>)
  then obtain m1 where m1: "bag_copy_pos (bag_image cs) ?c (int p - int (unat (bag_pos (bag_image cs) ?c))) (e - ?c) m = Some m1"
    "part n e (xs @ ys) (concat xs) m1" "length m1 = length m"
    using assms(2) by auto
  obtain m2 where "put_bytes m1 p (concat ys) = Some m2" "part n e (xs @ ys) (concat xs @ concat ys) m2"
    "length m2 = length m1"
    by (rule part_put_data [OF m1(2), of "concat ys" p]) (use m1 assms in auto)
  with m1 show ?thesis by auto
qed

lemma bag_fill_part:
  assumes "part n (length xs) xs (concat xs) m" "length xs \<le> t" "t \<le> n"
    and "image_size cs < 65536" "ys = map (old_col cs) [length xs..<t]"
    and "4 + 2 * n + length (concat (xs @ ys)) \<le> length m" "p = 4 + 2 * n + length (concat xs)"
  shows "\<exists>m'. bag_fill (bag_image cs) t (length xs) p m = Some (m', 4 + 2 * n + length (concat (xs @ ys))) \<and>
      part n t (xs @ ys) (concat (xs @ ys)) m' \<and> length m' = length m"
proof -
  have mark: "\<exists>m'. bag_mark_empty c q (t - c) m1 = Some m' \<and>
      part n t (zs @ replicate (t - c) []) (concat zs) m' \<and> length m' = length m1"
    if "part n c zs (concat zs) m1" "length zs = c" "c \<le> t" "4 + 2 * n + length (concat zs) \<le> length m1"
      "q = 4 + 2 * n + length (concat zs)" for c q zs m1
    using mark_empty_part [of n c "zs @ replicate (t - c) []" "concat zs" m1 "t - c" q]
      part_extend [OF that(1), of "replicate (t - c) []"] that assms(3) by auto
  show ?thesis
  proof (cases "length xs \<noteq> t \<and> length xs < length cs")
    case True
    let ?e = "min t (length cs)"
    let ?ys = "take (?e - length xs) (drop (length xs) cs)"
    have split: "ys = ?ys @ replicate (t - ?e) []"
      using True assms(2,5) by (simp add: old_cols_split min_def max_def)
    have "?e \<le> n" using assms(3) by simp
    then obtain m1 m2 where m2: "bag_copy_pos (bag_image cs) (length xs)
        (int p - int (unat (bag_pos (bag_image cs) (length xs)))) (?e - length xs) m = Some m1"
      "put_bytes m1 p (concat ?ys) = Some m2"
      "part n ?e (xs @ ?ys) (concat (xs @ ?ys)) m2" "length m2 = length m"
      using copy_old_part [OF assms(1) _ _ _ assms(4) refl _ assms(7), of ?e] True assms(2,3,6) split by auto
    obtain m3 where "bag_mark_empty ?e (4 + 2 * n + length (concat (xs @ ?ys))) (t - ?e) m2 = Some m3"
      "part n t ((xs @ ?ys) @ replicate (t - ?e) []) (concat (xs @ ?ys)) m3" "length m3 = length m2"
      using mark [OF m2(3), of "4 + 2 * n + length (concat (xs @ ?ys))"] m2 True assms(2,6) split by auto
    then show ?thesis
      using True m2 assms(2,4,7) get_image [of "length xs" ?e cs] split
      by (auto simp: bag_fill_def Let_def bag_ncol_image add.assoc)
  next
    case False
    then have "ys = replicate (t - length xs) []"
      using assms(2,5) by (auto intro!: nth_equalityI)
    then show ?thesis
      using False mark [OF assms(1) refl assms(2) _ assms(7)] assms(2,4,6,7)
      by (auto simp: bag_fill_def bag_ncol_image)
  qed
qed

section \<open>The main loop\<close>

lemma old_cols_before:
  "increasing lo ((idx, v) # chs) \<Longrightarrow> map (new_col cs ((idx, v) # chs)) [c..<idx] = map (old_col cs) [c..<idx]"
  using increasing_none [of "Suc idx" chs] by (auto simp: new_col_def split: option.split)

lemma new_cols_step:
  assumes "increasing lo ((idx, v) # chs)" "c \<le> idx" "idx < n"
  shows "map (new_col cs ((idx, v) # chs)) [c..<n] =
    map (old_col cs) [c..<idx] @ v # map (new_col cs chs) [Suc idx..<n]"
proof -
  have "[c..<n] = [c..<idx] @ idx # [Suc idx..<n]"
    using assms(2,3) upt_add_eq_append [of c idx "n - idx"] upt_conv_Cons [of idx n] by simp
  moreover have "map (new_col cs ((idx, v) # chs)) [Suc idx..<n] = map (new_col cs chs) [Suc idx..<n]"
    using new_col_skip [OF assms(1)] by auto
  moreover have "new_col cs ((idx, v) # chs) idx = v" by (simp add: new_col_def)
  ultimately show ?thesis
    by (simp only: map_append list.map old_cols_before [OF assms(1)])
qed

lemma bag_loop_part:
  assumes "part n (length xs) xs (concat xs) m" "length xs \<le> n" "increasing (length xs) chs"
    and "\<forall>ch \<in> set chs. fst ch < n" "image_size cs < 65536"
    and "ys = map (new_col cs chs) [length xs..<n]" "length m = image_size (xs @ ys)"
    and "p = 4 + 2 * n + length (concat xs)"
  shows "bag_loop (bag_image cs) n chs (length xs) p m = Some (bag_image (xs @ ys))"
  using assms
proof (induction chs arbitrary: xs m p ys)
  case Nil
  have ly: "length (xs @ ys) = n" using Nil.prems(2,6) by simp
  have ys: "ys = map (old_col cs) [length xs..<n]" using Nil.prems(6) by (simp add: new_col_def)
  obtain m1 where m1: "bag_fill (bag_image cs) n (length xs) p m = Some (m1, 4 + 2 * n + length (concat (xs @ ys)))"
    "part n n (xs @ ys) (concat (xs @ ys)) m1" "length m1 = length m"
    using bag_fill_part [OF Nil.prems(1,2) order_refl Nil.prems(5) ys _ Nil.prems(8)] Nil.prems(7) ly
    by (auto simp: image_size_def)
  obtain m2 where m2: "bag_set_pos m1 n (4 + 2 * n + length (concat (xs @ ys))) = Some m2"
    "part n (Suc n) (xs @ ys) (concat (xs @ ys)) m2" "length m2 = length m1"
    unfolding bag_set_pos_def
    by (rule part_set_pos [OF m1(2), of "4 + 2 * n + length (concat (xs @ ys))"])
      (use m1 ly Nil.prems(7) in \<open>auto simp: image_size_def simp del: concat_append\<close>)
  have "m2 = bag_image (xs @ ys)"
    using part_image [OF m2(2) ly] m1(3) m2(3) Nil.prems(7) by simp
  then show ?case using m1(1) m2(1) by simp
next
  case (Cons ch chs)
  obtain idx v where ch [simp]: "ch = (idx, v)" by (cases ch)
  let ?old = "map (old_col cs) [length xs..<idx]" and ?new = "map (new_col cs chs) [Suc idx..<n]"
  have inc: "increasing (length xs) ((idx, v) # chs)" and idx: "length xs \<le> idx" "idx < n"
    using Cons.prems(3,4) by auto
  have ys: "xs @ ys = (xs @ ?old @ [v]) @ ?new"
    using new_cols_step [OF inc idx] Cons.prems(6) by simp
  have room: "4 + 2 * n + length (concat (xs @ ?old @ [v])) \<le> length m"
    using Cons.prems(2,6,7) idx unfolding ys by (simp add: image_size_def)
  obtain m1 where m1: "bag_fill (bag_image cs) idx (length xs) p m = Some (m1, 4 + 2 * n + length (concat (xs @ ?old)))"
    "part n idx (xs @ ?old) (concat (xs @ ?old)) m1" "length m1 = length m"
    using bag_fill_part [OF Cons.prems(1) idx(1) _ Cons.prems(5) refl _ Cons.prems(8)] idx(2) room by auto
  have lo: "length (xs @ ?old @ [v]) = Suc idx" using idx by simp
  obtain m2 where m2: "bag_set_pos m1 idx (4 + 2 * n + length (concat (xs @ ?old))) = Some m2"
    "part n (Suc idx) (xs @ ?old @ [v]) (concat (xs @ ?old)) m2" "length m2 = length m1"
    unfolding bag_set_pos_def
    by (rule part_set_pos [of n idx "xs @ ?old @ [v]" "concat (xs @ ?old)" m1])
      (use m1 lo idx room part_extend [OF m1(2), of "[v]"] in auto)
  obtain m3 where m3: "put_bytes m2 (4 + 2 * n + length (concat (xs @ ?old))) v = Some m3"
    "part n (Suc idx) (xs @ ?old @ [v]) (concat (xs @ ?old) @ v) m3" "length m3 = length m2"
    by (rule part_put_data [OF m2(2), of v]) (use m1 m2 room in auto)
  have "bag_loop (bag_image cs) n chs (length (xs @ ?old @ [v])) (4 + 2 * n + length (concat (xs @ ?old @ [v]))) m3 =
      Some (bag_image ((xs @ ?old @ [v]) @ ?new))"
  proof (rule Cons.IH)
    show "part n (length (xs @ ?old @ [v])) (xs @ ?old @ [v]) (concat (xs @ ?old @ [v])) m3"
      using m3(2) unfolding lo by simp
    show "increasing (length (xs @ ?old @ [v])) chs" using Cons.prems(3) unfolding lo by simp
    show "length m3 = image_size ((xs @ ?old @ [v]) @ ?new)"
      using Cons.prems(7) m1(3) m2(3) m3(3) unfolding ys by simp
  qed (use Cons.prems(4,5) idx lo in auto)
  then show ?case
    using m1(1) m2(1) m3(1) idx ys by (simp add: lo add.assoc)
qed

section \<open>An update is an update of the columns\<close>

lemma bag_update_size_correct:
  assumes "image_size cs < 65536" "increasing 0 chs"
  shows "bag_update_size \<lparr>bag_ts = ts, bag_s = bag_image cs\<rparr> chs (8 + image_size cs) (length cs)
    = (12 + 2 * length cs + length (concat (upd_cols cs chs)), length (upd_cols cs chs))"
  using update_size_image [OF assms, of cs] by (simp add: image_size_def add.assoc)

lemma image_small_update:
  assumes "i < length cs" "length v = length (cs ! i)"
  shows "put_bytes (bag_image cs) (4 + 2 * length cs + length (concat (take i cs))) v = Some (bag_image (cs[i := v]))"
proof -
  have cs: "concat cs = concat (take i cs) @ cs ! i @ concat (drop (Suc i) cs)"
    by (metis assms(1) concat.simps(2) concat_append id_take_nth_drop)
  have offs: "offsets p (cs[i := v]) = offsets p cs" for p
    using assms by (induction cs arbitrary: p i) (auto split: nat.splits)
  have "concat (cs[i := v]) = concat (take i cs) @ v @ concat (drop (Suc i) cs)"
    by (simp add: assms(1) upd_conv_take_nth_drop)
  then have "bag_image (cs[i := v]) = (store_le 2 (of_nat (length cs) :: 16 word) @
      pos_bytes (offsets (4 + 2 * length cs) cs)) @ concat (take i cs) @ v @ concat (drop (Suc i) cs)"
    by (simp add: bag_image_def offs)
  then show ?thesis
    using assms(2) cs by (simp add: put_bytes_def bag_image_def image_size_def)
qed

lemma bag_update_image:
  assumes "image_size cs < 65536" "increasing 0 chs" "\<And>n. length (fresh n) = n"
  shows "bag_update fresh \<lparr>bag_ts = ts0, bag_s = bag_image cs\<rparr> chs ts =
    Some \<lparr>bag_ts = ts, bag_s = bag_image (upd_cols cs chs)\<rparr>"
proof -
  let ?b = "\<lparr>bag_ts = ts0, bag_s = bag_image cs\<rparr>" and ?R = "upd_cols cs chs"
  let ?n = "length ?R" and ?sz = "12 + 2 * length cs + length (concat ?R)"
  have size: "bag_update_size ?b chs (8 + image_size cs) (length cs) = (?sz, ?n)"
    by (rule bag_update_size_correct [OF assms(1,2)])
  have total: "(if ?n > length cs then ?sz + (?n - length cs) * 2 else ?sz) = 8 + image_size ?R"
    using length_upd_cols [of cs chs] by (auto simp: image_size_def)
  let ?fast = "?n = length cs \<and> image_size ?R = image_size cs \<and> length chs = 1 \<and> length (snd (hd chs)) \<le> 16"
  have loop: "bag_update fresh ?b chs ts = (
      if ?fast
      then do {
        bs \<leftarrow> get_bytes (bag_image cs) 0 (image_size ?R);
        m \<leftarrow> put_bytes (fresh (image_size ?R)) 0 bs;
        m \<leftarrow> put_bytes m (unat (bag_pos (bag_image cs) (fst (hd chs)))) (snd (hd chs));
        Some \<lparr>bag_ts = ts, bag_s = m\<rparr> }
      else do {
        m \<leftarrow> put_bytes (fresh (image_size ?R)) 0 (store_le 2 (of_nat ?n :: 16 word));
        m \<leftarrow> bag_loop (bag_image cs) ?n chs 0 (4 + ?n * 2) m;
        Some \<lparr>bag_ts = ts, bag_s = m\<rparr> })"
    unfolding bag_update_def bag.simps bag_ncol_image [OF assms(1)] bag_size_image [OF assms(1)]
      Let_def size case_prod_conv total by simp
  show ?thesis
  proof (cases ?fast)
    case True
    then obtain i v where chs: "chs = [(i, v)]" by (cases chs) auto
    with True have i: "i < length cs" by (auto simp: length_set_col max_def split: if_splits)
    with chs have R: "?R = cs[i := v]" by (simp add: set_col_def)
    then have "length v = length (cs ! i)"
      using True i length_concat_update [of i cs v] by (simp add: image_size_def)
    moreover have "get_bytes (bag_image cs) 0 (image_size ?R) = Some (bag_image cs)"
      using True by (simp add: get_bytes_def)
    moreover have "put_bytes (fresh (image_size ?R)) 0 (bag_image cs) = Some (bag_image cs)"
      using True assms(3) by (simp add: put_over)
    ultimately show ?thesis
      using image_small_update [of i cs v] i unfolding loop if_P [OF True]
      by (simp add: chs set_col_def bag_pos_image [OF _ assms(1)])
  next
    case False
    let ?m = "fresh (image_size ?R)"
    let ?m1 = "take 0 ?m @ store_le 2 (of_nat ?n :: 16 word) @ drop (0 + 2) ?m"
    have put: "put_bytes ?m 0 (store_le 2 (of_nat ?n :: 16 word)) = Some ?m1"
      using assms(3) by (simp add: put_bytes_def image_size_def)
    have "part ?n 0 [] [] ?m1"
      by (simp add: part_def pos_bytes_def)
    moreover have "?R = [] @ map (new_col cs chs) [0..<?n]"
      using upd_cols_map [OF assms(2), of cs] by simp
    ultimately have "bag_loop (bag_image cs) ?n chs (length ([] :: bytes list)) (4 + ?n * 2) ?m1 =
        Some (bag_image ([] @ map (new_col cs chs) [0..<?n]))"
      using assms(1,2,3) upd_cols_covers
      by (intro bag_loop_part) (auto simp: image_size_def mult.commute simp flip: upd_cols_map)
    then show ?thesis
      using put upd_cols_map [OF assms(2), of cs] unfolding loop if_not_P [OF False] by simp
  qed
qed

lemma bag_create_image:
  assumes "increasing 0 chs" "\<And>n. length (fresh n) = n"
  shows "bag_create fresh chs ts = Some \<lparr>bag_ts = ts, bag_s = bag_image (upd_cols [] chs)\<rparr>"
proof -
  have "bag_empty = \<lparr>bag_ts = 0, bag_s = bag_image []\<rparr>"
    by (simp add: bag_empty_def bag_image_def)
  then show ?thesis
    using bag_update_image [of "[]" chs fresh 0 ts] assms by (simp only: bag_create_def) (simp add: image_size_def)
qed

lemma bag_create1_image:
  assumes "length (fresh (6 + length v)) = 6 + length v"
  shows "bag_create1 fresh v ts = Some \<lparr>bag_ts = ts, bag_s = bag_image [v]\<rparr>"
proof -
  obtain x where f: "fresh (6 + length v) = x" "length x = 6 + length v" using assms by simp
  have "bag_pos (store_le 2 (1 :: 16 word) @ store_le 2 (6 :: 16 word) @ r) 0 = 6" for r
    by (simp add: bag_pos_def load16_def load_store)
  moreover have "drop 4 x = drop (2 + 2) x" by simp
  ultimately show ?thesis
    using f by (simp add: bag_create1_def Let_def bag_set_pos_def put_bytes_def bag_image_def pos_bytes_def)
qed

lemma bag_checkpoint_read_image:
  assumes "length (fresh (length v)) = length v"
  shows "bag_checkpoint_read fresh v ts = Some \<lparr>bag_ts = ts, bag_s = v\<rparr>"
  using assms by (simp add: bag_checkpoint_read_def put_over)

text \<open>\<open>ok\<close> for bags: the row is the image of columns that the 16-bit offsets can address.\<close>

definition bag_ok :: "bag \<Rightarrow> bool" where
  "bag_ok b \<longleftrightarrow> (\<exists>cs. bag_s b = bag_image cs \<and> image_size cs < 65536)"

definition bag_cols :: "bag \<Rightarrow> bytes list" where
  "bag_cols b = map (bag_col b) [0..<bag_ncol (bag_s b)]"

lemma bag_cols_image:
  assumes "image_size cs < 65536"
  shows "bag_cols \<lparr>bag_ts = ts, bag_s = bag_image cs\<rparr> = cs"
  using assms by (auto simp: bag_cols_def bag_ncol_image bag_col_image intro: nth_equalityI)

lemma bag_okE:
  assumes "bag_ok b"
  obtains cs where "b = \<lparr>bag_ts = bag_ts b, bag_s = bag_image cs\<rparr>" "image_size cs < 65536" "bag_cols b = cs"
proof -
  obtain cs where cs: "bag_s b = bag_image cs" "image_size cs < 65536"
    using assms by (auto simp: bag_ok_def)
  then have "b = \<lparr>bag_ts = bag_ts b, bag_s = bag_image cs\<rparr>" by (cases b) simp
  with cs that show thesis by (metis bag_cols_image)
qed

lemma bag_ok_image:
  "image_size cs < 65536 \<Longrightarrow> bag_ok \<lparr>bag_ts = ts, bag_s = bag_image cs\<rparr>"
  by (auto simp: bag_ok_def)

section \<open>Bags are rows\<close>

text \<open>
  The memory of a bag is what its allocator returns: the contents of a fresh block of each size.
\<close>

definition bag_class :: "(bag, nat \<Rightarrow> bytes) row_class" where
  "bag_class = \<lparr>rc_ts = bag_ts,
     rc_create = (\<lambda>chs ts s. map_option (\<lambda>r. (r, s)) (bag_create s chs ts)),
     rc_create1 = (\<lambda>v ts s. map_option (\<lambda>r. (r, s)) (bag_create1 s v ts)),
     rc_update = (\<lambda>r chs ts s. map_option (\<lambda>r. (r, s)) (bag_update s r chs ts))\<rparr>"

interpretation bag_row: row_impl bag_class "\<lambda>s. \<forall>n. length (s n) = n" "\<lambda>_. bag_ok" "\<lambda>_. bag_cols"
  "\<lambda>cs. image_size cs < 65536"
proof unfold_locales
  fix v :: bytes and ts :: u64 and s :: "nat \<Rightarrow> bytes"
  assume "\<forall>n. length (s n) = n" "image_size [v] < 65536"
  then show "\<exists>r s'. rc_create1 bag_class v ts s = Some (r, s') \<and> (\<forall>n. length (s' n) = n) \<and>
      bag_ok r \<and> bag_cols r = [v] \<and> rc_ts bag_class r = ts \<and>
      (\<forall>r0. bag_ok r0 \<longrightarrow> bag_ok r0 \<and> bag_cols r0 = bag_cols r0)"
    by (simp add: bag_class_def bag_create1_image bag_ok_image bag_cols_image)
next
  fix chs :: changes and ts :: u64 and s :: "nat \<Rightarrow> bytes"
  assume "\<forall>n. length (s n) = n" "increasing 0 chs" "image_size (upd_cols [] chs) < 65536"
  then show "\<exists>r s'. rc_create bag_class chs ts s = Some (r, s') \<and> (\<forall>n. length (s' n) = n) \<and>
      bag_ok r \<and> bag_cols r = upd_cols [] chs \<and> rc_ts bag_class r = ts \<and>
      (\<forall>r0. bag_ok r0 \<longrightarrow> bag_ok r0 \<and> bag_cols r0 = bag_cols r0)"
    by (simp add: bag_class_def bag_create_image bag_ok_image bag_cols_image)
next
  fix r :: bag and chs :: changes and ts :: u64 and s :: "nat \<Rightarrow> bytes"
  assume a: "bag_ok r" "increasing 0 chs" "image_size (upd_cols (bag_cols r) chs) < 65536"
    and fresh: "\<forall>n. length (s n) = n"
  obtain cs where r: "r = \<lparr>bag_ts = bag_ts r, bag_s = bag_image cs\<rparr>" "image_size cs < 65536" "bag_cols r = cs"
    by (rule bag_okE [OF a(1)])
  have "bag_update s r chs ts = Some \<lparr>bag_ts = ts, bag_s = bag_image (upd_cols cs chs)\<rparr>"
    using fresh by (subst r(1), intro bag_update_image [OF r(2) a(2)]) simp
  then show "\<exists>r' s'. rc_update bag_class r chs ts s = Some (r', s') \<and> (\<forall>n. length (s' n) = n) \<and> bag_ok r' \<and>
      bag_cols r' = upd_cols (bag_cols r) chs \<and> rc_ts bag_class r' = ts \<and>
      (\<forall>r0. bag_ok r0 \<longrightarrow> bag_ok r0 \<and> bag_cols r0 = bag_cols r0)"
    using a(3) fresh by (simp add: bag_class_def r(3) bag_ok_image bag_cols_image)
qed

section \<open>Properties\<close>

text \<open>C17: an update of a bag, by the copying loop or by the short cut for one small column, yields a
  row whose columns are the old ones with the changes applied, whose bytes are exactly the
  image of these columns (nothing of the allocated memory shows through) and whose \<open>size\<close>,
  by which it is freed, is the size that was allocated.\<close>

theorem bag_update_correct:
  assumes "bag_ok b" "increasing 0 chs" "\<And>n. length (fresh n) = n"
    and "image_size (upd_cols (bag_cols b) chs) < 65536"
  shows "\<exists>b'. bag_update fresh b chs ts = Some b' \<and> bag_ok b' \<and> bag_ts b' = ts \<and>
    bag_cols b' = upd_cols (bag_cols b) chs \<and>
    bag_row_string b' = bag_image (upd_cols (bag_cols b) chs) \<and> bag_size b' = 8 + length (bag_s b')"
proof -
  obtain cs where r: "b = \<lparr>bag_ts = bag_ts b, bag_s = bag_image cs\<rparr>" "image_size cs < 65536" "bag_cols b = cs"
    by (rule bag_okE [OF assms(1)])
  have "bag_update fresh b chs ts = Some \<lparr>bag_ts = ts, bag_s = bag_image (upd_cols cs chs)\<rparr>"
    by (subst r(1), rule bag_update_image [OF r(2) assms(2,3)])
  then show ?thesis
    using assms(4) unfolding r(3)
    by (simp add: bag_ok_image bag_cols_image bag_size_image bag_row_string_def bag_ncol_image bag_pos_image
        flip: image_size_def)
qed

lemma bag_update_correct_witness:
  "\<exists>b'. bag_update (\<lambda>n. replicate n 7) bag_empty [(1, [65, 66])] 4 = Some b' \<and> bag_ok b' \<and> bag_ts b' = 4 \<and>
    bag_cols b' = [[], [65, 66]] \<and> bag_row_string b' = bag_image [[], [65, 66]] \<and> bag_size b' = 8 + length (bag_s b')"
proof -
  have e: "bag_empty = \<lparr>bag_ts = 0, bag_s = bag_image []\<rparr>"
    by (simp add: bag_empty_def bag_image_def)
  have "bag_ok bag_empty" "bag_cols bag_empty = []"
    unfolding e by (simp_all add: bag_ok_image bag_cols_image image_size_def)
  then show ?thesis
    using bag_update_correct [of bag_empty "[(1, [65, 66])]" "\<lambda>n. replicate n 7" 4]
    by (simp add: image_size_def set_col_def)
qed

text \<open>A checkpoint of a bag is its bytes, and reading them back gives the row.\<close>

theorem bag_checkpoint_roundtrip:
  assumes "bag_ok b" "\<And>n. length (fresh n) = n"
  shows "bag_checkpoint_read fresh (bag_row_string b) (bag_ts b) = Some b"
proof -
  obtain cs where r: "b = \<lparr>bag_ts = bag_ts b, bag_s = bag_image cs\<rparr>" "image_size cs < 65536" "bag_cols b = cs"
    by (rule bag_okE [OF assms(1)])
  have "bag_row_string b = bag_s b"
    by (subst (1 2) r(1)) (simp add: bag_row_string_def bag_ncol_image bag_pos_image r(2) flip: image_size_def)
  then show ?thesis using assms(2) by (simp add: bag_checkpoint_read_image)
qed

lemma bag_checkpoint_roundtrip_witness:
  "bag_checkpoint_read (\<lambda>n. replicate n 7) (bag_row_string bag_empty) 0 = Some bag_empty"
proof -
  have e: "bag_empty = \<lparr>bag_ts = 0, bag_s = bag_image []\<rparr>"
    by (simp add: bag_empty_def bag_image_def)
  have "bag_ok bag_empty" unfolding e by (simp add: bag_ok_image image_size_def)
  then show ?thesis
    using bag_checkpoint_roundtrip [of bag_empty "\<lambda>n. replicate n 7"] by (simp add: bag_empty_def)
qed

text \<open>The offsets wrap without a check.  A bag made from a value of 65530 bytes reports that it
  ends at offset 0: it is freed as if it were 8 bytes long, and its column is empty.\<close>

theorem bag_offsets_wrap:
  assumes "\<And>n. length (fresh n) = n" "length v = 65530"
  shows "\<exists>b. bag_create1 fresh v ts = Some b \<and> length (bag_s b) = 65536 \<and> bag_size b = 8 \<and>
    bag_row_string b = []"
proof -
  let ?b = "\<lparr>bag_ts = ts, bag_s = bag_image [v]\<rparr>"
  have n: "bag_ncol (bag_image [v]) = 1"
    by (simp add: bag_ncol_def load16_def bag_image_def load_store)
  have "bag_pos (bag_image [v]) 1 = of_nat 65536"
    using bag_pos_image_word [of 1 "[v]"] assms(2) by simp
  then have "bag_pos (bag_image [v]) 1 = 0" by simp
  with n show ?thesis
    using assms by (simp add: bag_create1_image bag_size_def bag_row_string_def image_size_def)
qed

lemma bag_offsets_wrap_witness:
  "\<exists>b. bag_create1 (\<lambda>n. replicate n 0) (replicate 65530 65) 2 = Some b \<and> length (bag_s b) = 65536 \<and>
    bag_size b = 8 \<and> bag_row_string b = []"
  by (rule bag_offsets_wrap) simp_all

end
