(* ===== verification/Value_Array.thy ===== *)
theory Value_Array
  imports Value_Row
begin

text \<open>
  \<^verbatim>\<open>value_array.hh\<close>, \<^verbatim>\<open>value_array.cc\<close>: rows as arrays of pointers to their columns, shared between the
  versions of a row; and \<^verbatim>\<open>value_string.hh\<close>: rows as one string, of which a column is a part.

  The columns of arrays live in a memory of strings.  An address is a number, 0 is the null
  pointer, and an address that has been freed is not given out again, so that a column that is
  used or freed after it was freed shows up as \<open>None\<close>.  \<open>deallocate_rcu\<close> hands a column to the
  limbo list; it stays readable.  The array of pointers itself is a value.
\<close>

section \<open>Columns\<close>

record col_mem =
  cm_next :: nat
  cm_str :: "nat \<rightharpoonup> bytes"
  cm_limbo :: "nat list"

definition make_column :: "bytes \<Rightarrow> col_mem \<Rightarrow> nat \<times> col_mem" where
  "make_column str m =
     (if str \<noteq> [] then (cm_next m, m\<lparr>cm_next := cm_next m + 1, cm_str := (cm_str m)(cm_next m \<mapsto> str)\<rparr>)
      else (0, m))"

definition deallocate_column :: "nat \<Rightarrow> col_mem \<Rightarrow> col_mem option" where
  "deallocate_column col m =
     (if col = 0 then Some m
      else if cm_str m col = None \<or> col \<in> set (cm_limbo m) then None
      else Some (m\<lparr>cm_str := (cm_str m)(col := None)\<rparr>))"

definition deallocate_column_rcu :: "nat \<Rightarrow> col_mem \<Rightarrow> col_mem option" where
  "deallocate_column_rcu col m =
     (if col = 0 then Some m
      else if cm_str m col = None \<or> col \<in> set (cm_limbo m) then None
      else Some (m\<lparr>cm_limbo := cm_limbo m @ [col]\<rparr>))"

fun each_column :: "(nat \<Rightarrow> col_mem \<Rightarrow> col_mem option) \<Rightarrow> nat list \<Rightarrow> col_mem \<Rightarrow> col_mem option" where
  "each_column f [] m = Some m"
| "each_column f (p # ps) m = do { m \<leftarrow> f p m; each_column f ps m }"

section \<open>Arrays\<close>

record value_array =
  va_ts :: u64
  va_ncol :: "16 word"
  va_cols :: "nat list"

definition va_empty :: value_array where
  "va_empty = \<lparr>va_ts = 0, va_ncol = 0, va_cols = []\<rparr>"

definition va_col :: "col_mem \<Rightarrow> value_array \<Rightarrow> nat \<Rightarrow> bytes option" where
  "va_col m r i =
     (if i < unat (scast (va_ncol r) :: u32)
      then if i < length (va_cols r)
           then if va_cols r ! i \<noteq> 0 then cm_str m (va_cols r ! i) else Some []
           else None
      else Some [])"

definition make_sized_row :: "nat \<Rightarrow> u64 \<Rightarrow> value_array" where
  "make_sized_row ncol ts = \<lparr>va_ts = ts, va_ncol = of_nat ncol, va_cols = replicate ncol 0\<rparr>"

fun va_set :: "nat list \<Rightarrow> changes \<Rightarrow> col_mem \<Rightarrow> (nat list \<times> col_mem) option" where
  "va_set ps [] m = Some (ps, m)"
| "va_set ps ((idx, v) # chs) m =
     (if idx < length ps then let (p, m) = make_column v m in va_set (ps[idx := p]) chs m else None)"

text \<open>The pointers \<open>cols_[0 .. ncol_)\<close>.\<close>

definition va_ptrs :: "value_array \<Rightarrow> nat list option" where
  "va_ptrs r = (let n = nat (sint (va_ncol r)) in if n \<le> length (va_cols r) then Some (take n (va_cols r)) else None)"

definition va_update :: "value_array \<Rightarrow> changes \<Rightarrow> u64 \<Rightarrow> col_mem \<Rightarrow> (value_array \<times> col_mem) option" where
  "va_update r chs ts m =
     (if ts < va_ts r \<or> chs = [] \<or> sint (va_ncol r) < 0 then None
      else do {
        ps \<leftarrow> va_ptrs r;
        let ncol = max (length ps) (fst (last chs) + 1);
        (ps, m) \<leftarrow> va_set (ps @ replicate (ncol - length ps) 0) chs m;
        Some (\<lparr>va_ts = ts, va_ncol = of_nat ncol, va_cols = ps\<rparr>, m) })"

definition va_create :: "changes \<Rightarrow> u64 \<Rightarrow> col_mem \<Rightarrow> (value_array \<times> col_mem) option" where
  "va_create chs ts m = va_update va_empty chs ts m"

definition va_create1 :: "bytes \<Rightarrow> u64 \<Rightarrow> col_mem \<Rightarrow> value_array \<times> col_mem" where
  "va_create1 v ts m = (let (p, m) = make_column v m in (\<lparr>va_ts = ts, va_ncol = 1, va_cols = [p]\<rparr>, m))"

definition va_deallocate :: "value_array \<Rightarrow> col_mem \<Rightarrow> col_mem option" where
  "va_deallocate r m = do { ps \<leftarrow> va_ptrs r; each_column deallocate_column ps m }"

definition va_deallocate_rcu :: "value_array \<Rightarrow> col_mem \<Rightarrow> col_mem option" where
  "va_deallocate_rcu r m = do { ps \<leftarrow> va_ptrs r; each_column deallocate_column_rcu ps m }"

fun va_deallocate_rcu_after_update :: "value_array \<Rightarrow> changes \<Rightarrow> col_mem \<Rightarrow> col_mem option" where
  "va_deallocate_rcu_after_update r [] m = Some m"
| "va_deallocate_rcu_after_update r ((idx, v) # chs) m =
     (if idx < unat (scast (va_ncol r) :: u32)
      then if idx < length (va_cols r)
           then do { m \<leftarrow> deallocate_column_rcu (va_cols r ! idx) m; va_deallocate_rcu_after_update r chs m }
           else None
      else Some m)"

fun va_deallocate_after_failed_update :: "value_array \<Rightarrow> changes \<Rightarrow> col_mem \<Rightarrow> col_mem option" where
  "va_deallocate_after_failed_update r [] m = Some m"
| "va_deallocate_after_failed_update r ((idx, v) # chs) m =
     (if idx < length (va_cols r)
      then do { m \<leftarrow> deallocate_column (va_cols r ! idx) m; va_deallocate_after_failed_update r chs m }
      else None)"

text \<open>Checkpoints: an array of the columns.\<close>

fun va_fill :: "bytes list \<Rightarrow> nat \<Rightarrow> nat list \<Rightarrow> col_mem \<Rightarrow> nat list \<times> col_mem" where
  "va_fill [] i ps m = (ps, m)"
| "va_fill (c # cs) i ps m =
     (if c \<noteq> [] then let (p, m) = make_column c m in va_fill cs (i + 1) (ps[i := p]) m
      else va_fill cs (i + 1) ps m)"

definition va_checkpoint_read :: "bytes list \<Rightarrow> u64 \<Rightarrow> col_mem \<Rightarrow> value_array \<times> col_mem" where
  "va_checkpoint_read cs ts m =
     (let r = make_sized_row (length cs) ts; (ps, m) = va_fill cs 0 (va_cols r) m
      in (r\<lparr>va_cols := ps\<rparr>, m))"

definition va_checkpoint_write :: "col_mem \<Rightarrow> value_array \<Rightarrow> bytes list option" where
  "va_checkpoint_write m r = those (map (va_col m r) [0..<nat (sint (va_ncol r))])"

section \<open>Strings\<close>

record value_string =
  vs_ts :: u64
  vs_s :: bytes

definition make_index :: "u32 \<Rightarrow> u32 \<Rightarrow> u32" where
  "make_index offset len = offset + push_bit 16 len"

definition index_offset :: "u32 \<Rightarrow> nat" where "index_offset idx = unat (idx AND 0xFFFF)"

definition index_length :: "u32 \<Rightarrow> nat" where "index_length idx = unat (drop_bit 16 idx)"

definition vs_empty :: value_string where "vs_empty = \<lparr>vs_ts = 0, vs_s = []\<rparr>"

definition vs_col :: "value_string \<Rightarrow> u32 \<Rightarrow> bytes" where
  "vs_col r idx =
     (if idx = 0 then vs_s r
      else let vallen = length (vs_s r); off = min vallen (index_offset idx)
        in take (min (vallen - off) (index_length idx)) (drop off (vs_s r)))"

fun vs_sizes :: "(u32 \<times> bytes) list \<Rightarrow> nat \<Rightarrow> nat \<Rightarrow> nat \<times> nat" where
  "vs_sizes [] vallen c = (vallen, c)"
| "vs_sizes ((idx, v) # chs) vallen c =
     vs_sizes chs (max vallen (index_offset idx + length v)) (if idx = 0 then length v else c)"

fun vs_copy :: "(u32 \<times> bytes) list \<Rightarrow> bytes \<Rightarrow> bytes option" where
  "vs_copy [] m = Some m"
| "vs_copy ((idx, v) # chs) m = do { m \<leftarrow> put_bytes m (index_offset idx) v; vs_copy chs m }"

definition vs_update :: "(nat \<Rightarrow> bytes) \<Rightarrow> value_string \<Rightarrow> (u32 \<times> bytes) list \<Rightarrow> u64 \<Rightarrow> value_string option" where
  "vs_update fresh r chs ts =
     (let (vallen, c) = vs_sizes chs 0 (length (vs_s r)); vallen = max vallen c in do {
        bs \<leftarrow> get_bytes (vs_s r) 0 c;
        m \<leftarrow> put_bytes (fresh vallen) 0 bs;
        m \<leftarrow> vs_copy chs m;
        Some \<lparr>vs_ts = ts, vs_s = m\<rparr> })"

definition vs_create :: "(nat \<Rightarrow> bytes) \<Rightarrow> (u32 \<times> bytes) list \<Rightarrow> u64 \<Rightarrow> value_string option" where
  "vs_create fresh chs ts = vs_update fresh vs_empty chs ts"

definition vs_create1 :: "bytes \<Rightarrow> u64 \<Rightarrow> value_string" where
  "vs_create1 v ts = \<lparr>vs_ts = ts, vs_s = v\<rparr>"

section \<open>Arrays are rows\<close>

definition col_inv :: "col_mem \<Rightarrow> bool" where
  "col_inv m \<longleftrightarrow> 0 < cm_next m \<and> (\<forall>p \<in> dom (cm_str m). 0 < p \<and> p < cm_next m)"

definition col_value :: "col_mem \<Rightarrow> nat \<Rightarrow> bytes" where
  "col_value m p = (if p = 0 then [] else the (cm_str m p))"

definition owned :: "nat list \<Rightarrow> nat set" where "owned ps = set ps - {0}"

definition va_ok :: "col_mem \<Rightarrow> value_array \<Rightarrow> bool" where
  "va_ok m r \<longleftrightarrow> sint (va_ncol r) = int (length (va_cols r)) \<and> owned (va_cols r) \<subseteq> dom (cm_str m) \<and>
     distinct (filter (\<lambda>p. p \<noteq> 0) (va_cols r))"

definition va_view :: "col_mem \<Rightarrow> value_array \<Rightarrow> bytes list" where
  "va_view m r = map (col_value m) (va_cols r)"

text \<open>\<open>col_mem_ext m m'\<close>: nothing of \<open>m\<close> was freed or changed.\<close>

definition col_mem_ext :: "col_mem \<Rightarrow> col_mem \<Rightarrow> bool" where
  "col_mem_ext m m' \<longleftrightarrow> cm_str m \<subseteq>\<^sub>m cm_str m' \<and> cm_limbo m' = cm_limbo m"

lemma col_mem_ext_refl [simp]: "col_mem_ext m m"
  by (simp add: col_mem_ext_def)

lemma col_mem_ext_trans: "col_mem_ext a b \<Longrightarrow> col_mem_ext b c \<Longrightarrow> col_mem_ext a c"
  by (auto simp: col_mem_ext_def intro: map_le_trans)

lemma col_value_ext:
  assumes "col_mem_ext m m'" "p = 0 \<or> p \<in> dom (cm_str m)"
  shows "col_value m' p = col_value m p"
  using assms by (auto simp: col_mem_ext_def col_value_def map_le_def dom_def)

lemma va_view_ext:
  assumes "col_mem_ext m m'" "va_ok m r"
  shows "va_ok m' r \<and> va_view m' r = va_view m r"
proof -
  have "owned (va_cols r) \<subseteq> dom (cm_str m)" using assms(2) by (simp add: va_ok_def)
  then have "\<forall>p \<in> set (va_cols r). p = 0 \<or> p \<in> dom (cm_str m)" by (auto simp: owned_def)
  then have "va_view m' r = va_view m r"
    using col_value_ext [OF assms(1)] by (auto simp: va_view_def)
  moreover have "dom (cm_str m) \<subseteq> dom (cm_str m')"
    using assms(1) by (simp add: col_mem_ext_def map_le_implies_dom_le)
  ultimately show ?thesis
    using assms(2) unfolding va_ok_def by blast
qed

lemma va_col_view:
  assumes "va_ok m r"
  shows "va_col m r i = Some (if i < length (va_cols r) then va_view m r ! i else [])"
proof -
  have n: "sint (va_ncol r) = int (length (va_cols r))" using assms by (simp add: va_ok_def)
  have "(scast (va_ncol r) :: u32) = of_nat (length (va_cols r))"
    by (simp add: scast_eq n)
  moreover have "length (va_cols r) < 2 ^ 15"
    using sint_less [of "va_ncol r"] n by simp
  ultimately have "unat (scast (va_ncol r) :: u32) = length (va_cols r)"
    by (simp add: unat_of_nat)
  moreover have "va_cols r ! i \<in> dom (cm_str m)" if "i < length (va_cols r)" "va_cols r ! i \<noteq> 0"
  proof -
    have "va_cols r ! i \<in> owned (va_cols r)" using that by (simp add: owned_def)
    then show ?thesis using assms unfolding va_ok_def by blast
  qed
  ultimately show ?thesis by (auto simp: va_col_def va_view_def col_value_def)
qed

lemma make_columnE:
  assumes "col_inv m"
  obtains p m' where "make_column v m = (p, m')" "col_inv m'" "col_mem_ext m m'" "col_value m' p = v"
    "p = 0 \<or> p = cm_next m \<and> p \<in> dom (cm_str m')" "cm_next m \<le> cm_next m'"
    "dom (cm_str m') = dom (cm_str m) \<union> ({p} - {0})" "p < cm_next m'"
proof (cases "v = []")
  case True
  then show thesis
    using assms by (intro that [of 0 m]) (auto simp: make_column_def col_value_def col_inv_def)
next
  case False
  let ?m = "m\<lparr>cm_next := cm_next m + 1, cm_str := (cm_str m)(cm_next m \<mapsto> v)\<rparr>"
  have "cm_next m \<notin> dom (cm_str m)" "0 < cm_next m" using assms by (auto simp: col_inv_def)
  then show thesis
    using assms False
    by (intro that [of "cm_next m" ?m])
      (auto simp: make_column_def col_value_def col_inv_def col_mem_ext_def map_le_def dom_def)
qed

lemma distinct_filter_update:
  assumes "distinct (filter P ps)" "\<not> P p \<or> p \<notin> set ps"
  shows "distinct (filter P (ps[i := p]))"
  using assms
proof (induction ps arbitrary: i)
  case (Cons q ps)
  have "set (ps[j := p]) \<subseteq> insert p (set ps)" for j by (rule set_update_subset_insert)
  with Cons show ?case by (cases i) (auto split: if_splits)
qed simp

text \<open>Replacing columns of the new row: every replaced pointer is null or new.\<close>

lemma va_setE:
  assumes "col_inv m" "increasing lo chs" "\<forall>ch \<in> set chs. fst ch < length ps"
    and "owned ps \<subseteq> dom (cm_str m)" "distinct (filter (\<lambda>p. p \<noteq> 0) ps)"
  obtains ps' m' where "va_set ps chs m = Some (ps', m')" "col_inv m'" "col_mem_ext m m'"
    "length ps' = length ps" "map (col_value m') ps' = upd_cols (map (col_value m) ps) chs"
    "owned ps' \<subseteq> dom (cm_str m')" "distinct (filter (\<lambda>p. p \<noteq> 0) ps')" "cm_next m \<le> cm_next m'"
    "\<forall>i < length ps. i \<notin> fst ` set chs \<longrightarrow> ps' ! i = ps ! i"
    "\<forall>i \<in> fst ` set chs. ps' ! i = 0 \<or> cm_next m \<le> ps' ! i"
    "dom (cm_str m') = dom (cm_str m) \<union> owned (map (\<lambda>ch. ps' ! fst ch) chs)"
  using assms
proof (induction chs arbitrary: ps m lo thesis)
  case Nil
  show ?case by (rule Nil.prems(1) [of ps m]) (use Nil.prems(2,5,6) in \<open>simp_all add: owned_def\<close>)
next
  case (Cons ch chs)
  obtain idx v where ch [simp]: "ch = (idx, v)" by (cases ch)
  have idx: "idx < length ps" and inc: "increasing (Suc idx) chs" using Cons.prems by auto
  obtain p m1 where mk: "make_column v m = (p, m1)" "col_inv m1" "col_mem_ext m m1" "col_value m1 p = v"
    "p = 0 \<or> p = cm_next m \<and> p \<in> dom (cm_str m1)" "cm_next m \<le> cm_next m1"
    "dom (cm_str m1) = dom (cm_str m) \<union> ({p} - {0})" "p < cm_next m1"
    by (rule make_columnE [OF Cons.prems(2), of v]) blast
  let ?ps = "ps[idx := p]"
  have "cm_next m \<notin> dom (cm_str m)" using Cons.prems(2) unfolding col_inv_def by blast
  then have "cm_next m \<notin> owned ps" using Cons.prems(5) by blast
  then have fresh: "p = 0 \<or> p \<notin> set ps" using mk(5) by (auto simp: owned_def)
  have dist: "distinct (filter (\<lambda>p. p \<noteq> 0) ?ps)"
    using fresh by (intro distinct_filter_update [OF Cons.prems(6)]) auto
  have own: "owned ?ps \<subseteq> dom (cm_str m1)"
    using mk(7) Cons.prems(5) set_update_subset_insert [of ps idx p] by (auto simp: owned_def)
  obtain ps' m' where r: "va_set ?ps chs m1 = Some (ps', m')" "col_inv m'" "col_mem_ext m1 m'"
    "length ps' = length ?ps" "map (col_value m') ps' = upd_cols (map (col_value m1) ?ps) chs"
    "owned ps' \<subseteq> dom (cm_str m')" "distinct (filter (\<lambda>p. p \<noteq> 0) ps')" "cm_next m1 \<le> cm_next m'"
    "\<forall>i < length ?ps. i \<notin> fst ` set chs \<longrightarrow> ps' ! i = ?ps ! i"
    "\<forall>i \<in> fst ` set chs. ps' ! i = 0 \<or> cm_next m1 \<le> ps' ! i"
    "dom (cm_str m') = dom (cm_str m1) \<union> owned (map (\<lambda>ch. ps' ! fst ch) chs)"
    by (rule Cons.IH [OF _ mk(2) inc _ own dist]) (use Cons.prems in auto)
  have "map (col_value m1) ps = map (col_value m) ps"
    using col_value_ext [OF mk(3)] Cons.prems(5) by (auto simp: owned_def)
  then have step: "map (col_value m1) ?ps = set_col (map (col_value m) ps) ch"
    using idx mk(4) by (simp only: map_update) (simp add: set_col_def)
  have "idx \<notin> fst ` set chs" using increasing_none [OF inc, of idx] by (metis lessI map_of_eq_None_iff)
  then have "ps' ! idx = p" using r(9) idx by simp
  moreover have "owned (map (\<lambda>c. ps' ! fst c) (ch # chs)) = ({p} - {0}) \<union> owned (map (\<lambda>c. ps' ! fst c) chs)"
    using calculation by (auto simp: owned_def)
  moreover have "\<forall>i \<in> fst ` set (ch # chs). ps' ! i = 0 \<or> cm_next m \<le> ps' ! i"
    using calculation(1) r(10) mk(5,6) by fastforce
  ultimately show ?case
    by (intro Cons.prems(1) [OF _ r(2) col_mem_ext_trans [OF mk(3) r(3)] _ _ r(6,7)])
      (use r(1,4,5,8,9,11) mk(1,6,7) step idx in \<open>simp_all add: Un_assoc\<close>)
qed

lemma length_upd_cols_last:
  assumes "increasing lo chs" "chs \<noteq> []"
  shows "length (upd_cols cs chs) = max (length cs) (Suc (fst (last chs)))"
  using assms
proof (induction chs arbitrary: cs lo)
  case (Cons ch chs)
  obtain idx v where ch [simp]: "ch = (idx, v)" by (cases ch)
  show ?case
  proof (cases "chs = []")
    case False
    then have "map_of chs (fst (last chs)) \<noteq> None" by (simp add: map_of_eq_None_iff)
    then have "Suc idx \<le> fst (last chs)"
      using Cons.prems increasing_none [of "Suc idx" chs "fst (last chs)"] by (force simp: not_le)
    moreover have "length (upd_cols (set_col cs ch) chs) = max (length (set_col cs ch)) (Suc (fst (last chs)))"
      by (rule Cons.IH [of "Suc idx"]) (use Cons.prems False in simp_all)
    ultimately show ?thesis using False by (simp add: length_set_col)
  qed (simp add: length_set_col)
qed simp

lemma upd_cols_pad:
  assumes "increasing lo chs" "n = length (upd_cols cs chs)"
  shows "upd_cols (cs @ replicate (n - length cs) []) chs = upd_cols cs chs"
proof -
  let ?cs = "cs @ replicate (n - length cs) []"
  have "length cs \<le> n" using assms(2) length_upd_cols by simp
  then have "length (upd_cols ?cs chs) = n"
    using assms length_upd_cols_last [OF assms(1)] by (cases "chs = []") auto
  moreover have "new_col ?cs chs = new_col cs chs"
    by (auto simp: new_col_def nth_append fun_eq_iff split: option.split)
  ultimately show ?thesis
    using assms(2) upd_cols_map [OF assms(1), of ?cs] upd_cols_map [OF assms(1), of cs] by simp
qed

lemma va_ptrs_ok: "va_ok m r \<Longrightarrow> va_ptrs r = Some (va_cols r)"
  by (simp add: va_ptrs_def va_ok_def)

text \<open>What an update does to the columns, to the memory and to the pointers.\<close>

lemma va_updateE:
  assumes "col_inv m" "va_ok m r" "increasing 0 chs" "chs \<noteq> []" "va_ts r \<le> ts"
    and "length (upd_cols (va_view m r) chs) < 32768"
  obtains r' m' where "va_update r chs ts m = Some (r', m')" "col_inv m'" "col_mem_ext m m'" "va_ok m' r'"
    "va_view m' r' = upd_cols (va_view m r) chs" "va_ts r' = ts"
    "\<forall>i < length (va_cols r). i \<notin> fst ` set chs \<longrightarrow> va_cols r' ! i = va_cols r ! i"
    "\<forall>i. length (va_cols r) \<le> i \<and> i < length (va_cols r') \<and> i \<notin> fst ` set chs \<longrightarrow> va_cols r' ! i = 0"
    "\<forall>i \<in> fst ` set chs. va_cols r' ! i = 0 \<or> cm_next m \<le> va_cols r' ! i"
    "\<forall>i \<in> fst ` set chs. i < length (va_cols r')" "length (va_cols r) \<le> length (va_cols r')"
    "dom (cm_str m') = dom (cm_str m) \<union> owned (map (\<lambda>ch. va_cols r' ! fst ch) chs)"
proof -
  let ?ps = "va_cols r" and ?R = "upd_cols (va_view m r) chs"
  let ?n = "max (length ?ps) (fst (last chs) + 1)"
  let ?qs = "?ps @ replicate (?n - length ?ps) 0"
  have ok: "owned ?ps \<subseteq> dom (cm_str m)" "distinct (filter (\<lambda>p. p \<noteq> 0) ?ps)" "0 \<le> sint (va_ncol r)"
    using assms(2) by (auto simp: va_ok_def)
  have lenv: "length (va_view m r) = length ?ps" by (simp add: va_view_def)
  have n: "length ?R = ?n" using length_upd_cols_last [OF assms(3,4), of "va_view m r"] lenv by simp
  have idx: "\<forall>ch \<in> set chs. fst ch < length ?qs"
    using upd_cols_covers [of _ chs "va_view m r"] n by auto
  have own: "owned ?qs \<subseteq> dom (cm_str m)" "distinct (filter (\<lambda>p. p \<noteq> 0) ?qs)"
    using ok by (auto simp: owned_def)
  obtain ps' m' where r: "va_set ?qs chs m = Some (ps', m')" "col_inv m'" "col_mem_ext m m'"
    "length ps' = length ?qs" "map (col_value m') ps' = upd_cols (map (col_value m) ?qs) chs"
    "owned ps' \<subseteq> dom (cm_str m')" "distinct (filter (\<lambda>p. p \<noteq> 0) ps')"
    "\<forall>i < length ?qs. i \<notin> fst ` set chs \<longrightarrow> ps' ! i = ?qs ! i"
    "\<forall>i \<in> fst ` set chs. ps' ! i = 0 \<or> cm_next m \<le> ps' ! i"
    "dom (cm_str m') = dom (cm_str m) \<union> owned (map (\<lambda>ch. ps' ! fst ch) chs)"
    by (rule va_setE [OF assms(1,3) idx own]) blast
  have "map (col_value m) ?qs = va_view m r @ replicate (length ?R - length (va_view m r)) []"
    unfolding n lenv by (simp add: va_view_def col_value_def)
  then have view: "map (col_value m') ps' = ?R"
    using r(5) upd_cols_pad [OF assms(3) refl] by simp
  let ?r = "\<lparr>va_ts = ts, va_ncol = of_nat ?n, va_cols = ps'\<rparr>"
  have "sint (of_nat ?n :: 16 word) = int ?n"
    using assms(6) unfolding n
    by (simp add: signed_of_nat signed_take_bit_int_eq_self)
  then have "va_ok m' ?r" using r(4,6,7) by (simp add: va_ok_def)
  moreover have "va_update r chs ts m = Some (?r, m')"
    using assms(2,4,5) ok(3) r(1) by (simp add: va_update_def va_ptrs_ok Let_def)
  ultimately show thesis
    using r view idx by (intro that [of ?r m']) (auto simp: va_view_def nth_append)
qed

definition va_class :: "(value_array, col_mem) row_class" where
  "va_class = \<lparr>rc_ts = va_ts, rc_create = va_create,
     rc_create1 = (\<lambda>v ts m. Some (va_create1 v ts m)), rc_update = va_update\<rparr>"

interpretation array_row: row_impl va_class col_inv va_ok va_view "\<lambda>cs. length cs < 32768"
proof unfold_locales
  fix m :: col_mem and v :: bytes and ts :: u64
  assume "col_inv m"
  then obtain p m' where mk: "make_column v m = (p, m')" "col_inv m'" "col_mem_ext m m'" "col_value m' p = v"
    "p = 0 \<or> p = cm_next m \<and> p \<in> dom (cm_str m')" by (rule make_columnE) blast
  then have "va_ok m' \<lparr>va_ts = ts, va_ncol = 1, va_cols = [p]\<rparr>"
    by (auto simp: va_ok_def owned_def)
  then show "\<exists>r s'. rc_create1 va_class v ts m = Some (r, s') \<and> col_inv s' \<and> va_ok s' r \<and> va_view s' r = [v] \<and>
      rc_ts va_class r = ts \<and> (\<forall>r0. va_ok m r0 \<longrightarrow> va_ok s' r0 \<and> va_view s' r0 = va_view m r0)"
    using mk va_view_ext [OF mk(3)] by (simp add: va_class_def va_create1_def va_view_def)
next
  fix m :: col_mem and r :: value_array and chs :: changes and ts :: u64
  assume a: "col_inv m" "va_ok m r" "increasing 0 chs" "chs \<noteq> []"
    "length (upd_cols (va_view m r) chs) < 32768" "rc_ts va_class r \<le> ts"
  then have ts: "va_ts r \<le> ts" by (simp add: va_class_def)
  obtain r' m' where "va_update r chs ts m = Some (r', m')" "col_inv m'" "col_mem_ext m m'" "va_ok m' r'"
    "va_view m' r' = upd_cols (va_view m r) chs" "va_ts r' = ts"
    by (rule va_updateE [OF a(1,2,3,4) ts a(5)]) blast
  then show "\<exists>r' s'. rc_update va_class r chs ts m = Some (r', s') \<and> col_inv s' \<and> va_ok s' r' \<and>
      va_view s' r' = upd_cols (va_view m r) chs \<and> rc_ts va_class r' = ts \<and>
      (\<forall>r0. va_ok m r0 \<longrightarrow> va_ok s' r0 \<and> va_view s' r0 = va_view m r0)"
    using va_view_ext by (simp add: va_class_def)
next
  fix m :: col_mem and chs :: changes and ts :: u64
  assume a: "col_inv m" "increasing 0 chs" "chs \<noteq> []" "length (upd_cols [] chs) < 32768"
  have e: "va_ok m va_empty" "va_view m va_empty = []" "va_ts va_empty \<le> ts"
    by (simp_all add: va_ok_def va_empty_def owned_def va_view_def)
  obtain r' m' where "va_update va_empty chs ts m = Some (r', m')" "col_inv m'" "col_mem_ext m m'" "va_ok m' r'"
    "va_view m' r' = upd_cols (va_view m va_empty) chs" "va_ts r' = ts"
    by (rule va_updateE [OF a(1) e(1) a(2,3) e(3) a(4) [folded e(2)]]) blast
  then show "\<exists>r s'. rc_create va_class chs ts m = Some (r, s') \<and> col_inv s' \<and> va_ok s' r \<and>
      va_view s' r = upd_cols [] chs \<and> rc_ts va_class r = ts \<and>
      (\<forall>r0. va_ok m r0 \<longrightarrow> va_ok s' r0 \<and> va_view s' r0 = va_view m r0)"
    using va_view_ext e(2) by (simp add: va_class_def va_create_def)
qed

section \<open>Who owns the columns\<close>

lemma owned_nth: "i < length ps \<Longrightarrow> ps ! i \<noteq> 0 \<Longrightarrow> ps ! i \<in> owned ps"
  by (simp add: owned_def)

lemma distinct_filter_nth:
  assumes "distinct (filter P xs)" "i < length xs" "j < length xs" "P (xs ! i)" "xs ! i = xs ! j"
  shows "i = j"
  using assms
proof (induction xs arbitrary: i j)
  case (Cons x xs)
  have "P y \<Longrightarrow> y \<in> set xs \<Longrightarrow> y \<in> set (filter P xs)" for y by simp
  then show ?case
    using Cons.prems Cons.IH by (cases i; cases j) (auto split: if_splits)
qed simp

lemma va_ok_nth:
  assumes "va_ok m r" "i < length (va_cols r)" "j < length (va_cols r)" "va_cols r ! i \<noteq> 0"
    and "va_cols r ! i = va_cols r ! j"
  shows "i = j"
  by (rule distinct_filter_nth [of "\<lambda>p. p \<noteq> 0" "va_cols r"]) (use assms in \<open>auto simp: va_ok_def\<close>)

text \<open>The pointers that \<open>deallocate_rcu_after_update\<close> hands to the limbo list.\<close>

definition replaced :: "value_array \<Rightarrow> changes \<Rightarrow> nat list" where
  "replaced r chs = filter (\<lambda>p. p \<noteq> 0) (map (\<lambda>ch. va_cols r ! fst ch) (filter (\<lambda>ch. fst ch < length (va_cols r)) chs))"

lemma va_ncol_ok:
  assumes "va_ok m r"
  shows "unat (scast (va_ncol r) :: u32) = length (va_cols r)"
proof -
  have n: "sint (va_ncol r) = int (length (va_cols r))" using assms by (simp add: va_ok_def)
  moreover have "length (va_cols r) < 2 ^ 15" using sint_less [of "va_ncol r"] n by simp
  ultimately show ?thesis by (simp add: scast_eq unat_of_nat)
qed

lemma increasing_above: "increasing lo chs \<Longrightarrow> ch \<in> set chs \<Longrightarrow> lo \<le> fst ch"
  by (induction lo chs rule: increasing.induct) auto

lemma deallocate_rcu_after_update_limbo:
  assumes "va_ok m0 r" "increasing lo chs" "owned (va_cols r) \<subseteq> dom (cm_str m)"
    and "\<forall>i. lo \<le> i \<and> i < length (va_cols r) \<longrightarrow> va_cols r ! i \<notin> set (cm_limbo m) - {0}"
  shows "va_deallocate_rcu_after_update r chs m = Some (m\<lparr>cm_limbo := cm_limbo m @ replaced r chs\<rparr>)"
  using assms(2-)
proof (induction chs arbitrary: lo m)
  case (Cons ch chs)
  obtain idx v where ch [simp]: "ch = (idx, v)" by (cases ch)
  show ?case
  proof (cases "idx < length (va_cols r)")
    case True
    let ?p = "va_cols r ! idx"
    let ?m = "if ?p = 0 then m else m\<lparr>cm_limbo := cm_limbo m @ [?p]\<rparr>"
    have own: "?p = 0 \<or> ?p \<in> dom (cm_str m)" using owned_nth [OF True] Cons.prems(2) by blast
    moreover have "?p \<notin> set (cm_limbo m) - {0}" using True Cons.prems(1,3) by simp
    ultimately have "deallocate_column_rcu ?p m = Some ?m"
      by (cases "?p = 0") (auto simp: deallocate_column_rcu_def)
    moreover have "va_deallocate_rcu_after_update r chs ?m = Some (?m\<lparr>cm_limbo := cm_limbo ?m @ replaced r chs\<rparr>)"
    proof (rule Cons.IH)
      show "increasing (Suc idx) chs" using Cons.prems(1) by simp
      have "va_cols r ! i \<noteq> ?p \<or> ?p = 0" if "idx < i" "i < length (va_cols r)" for i
        using va_ok_nth [OF assms(1) True that(2)] that(1) by (metis less_irrefl)
      then show "\<forall>i. Suc idx \<le> i \<and> i < length (va_cols r) \<longrightarrow> va_cols r ! i \<notin> set (cm_limbo ?m) - {0}"
        using Cons.prems(1,3) by auto
    qed (use Cons.prems(2) in simp)
    ultimately show ?thesis
      using True by (auto simp: va_ncol_ok [OF assms(1)] replaced_def)
  next
    case False
    then have "\<forall>c \<in> set (ch # chs). \<not> fst c < length (va_cols r)"
      using increasing_above [of "Suc idx" chs] Cons.prems(1) by fastforce
    then have "replaced r (ch # chs) = []" by (simp add: replaced_def)
    then show ?thesis using False by (simp add: va_ncol_ok [OF assms(1)])
  qed
qed (simp add: replaced_def)

lemma distinct_replaced:
  assumes "va_ok m r" "increasing lo chs"
  shows "distinct (replaced r chs)"
  using assms(2)
proof (induction chs arbitrary: lo)
  case (Cons ch chs)
  obtain idx v where ch [simp]: "ch = (idx, v)" by (cases ch)
  have "va_cols r ! idx \<noteq> va_cols r ! fst c"
    if "c \<in> set chs" "fst c < length (va_cols r)" "idx < length (va_cols r)" "va_cols r ! idx \<noteq> 0" for c
    using va_ok_nth [OF assms(1) that(3,2,4)] increasing_above [of "Suc idx" chs c] that(1) Cons.prems
    by (metis Suc_n_not_le_n ch increasing.simps(2))
  then show ?case using Cons by (auto simp: replaced_def)
qed (simp add: replaced_def)

lemma replaced_set:
  assumes "col_inv m" "va_ok m r"
    and "\<forall>i < length (va_cols r). i \<notin> fst ` set chs \<longrightarrow> va_cols r' ! i = va_cols r ! i"
    and "\<forall>i. length (va_cols r) \<le> i \<and> i < length (va_cols r') \<and> i \<notin> fst ` set chs \<longrightarrow> va_cols r' ! i = 0"
    and "\<forall>i \<in> fst ` set chs. va_cols r' ! i = 0 \<or> cm_next m \<le> va_cols r' ! i"
    and "length (va_cols r) \<le> length (va_cols r')"
  shows "set (replaced r chs) = owned (va_cols r) - owned (va_cols r')"
proof (intro equalityI subsetI)
  fix p assume "p \<in> set (replaced r chs)"
  then obtain i where i: "i \<in> fst ` set chs" "i < length (va_cols r)" "p = (va_cols r) ! i" "p \<noteq> 0"
    by (auto simp: replaced_def)
  then have "p \<in> dom (cm_str m)" using owned_nth [of i "va_cols r"] assms(2) unfolding va_ok_def by blast
  then have lt: "p < cm_next m" using assms(1) unfolding col_inv_def by blast
  have "p \<notin> owned (va_cols r')"
  proof
    assume "p \<in> owned (va_cols r')"
    then obtain j where j: "j < length (va_cols r')" "p = va_cols r' ! j"
      by (auto simp: owned_def in_set_conv_nth)
    with lt i(4) assms(5) have "j \<notin> fst ` set chs" by (metis leD)
    with j i(4) assms(3,4) have jl: "j < length (va_cols r)" and jp: "va_cols r ! j = p" by (metis not_less)+
    have "i = j" using va_ok_nth [OF assms(2) i(2) jl] i(3,4) jp by metis
    with i(1) \<open>j \<notin> fst ` set chs\<close> show False by simp
  qed
  with i show "p \<in> owned (va_cols r) - owned (va_cols r')" by (simp add: owned_def)
next
  fix p assume p: "p \<in> owned (va_cols r) - owned (va_cols r')"
  then obtain i where i: "i < length (va_cols r)" "p = (va_cols r) ! i" "p \<noteq> 0" by (auto simp: owned_def in_set_conv_nth)
  have "i \<in> fst ` set chs"
  proof (rule ccontr)
    assume "i \<notin> fst ` set chs"
    with i assms(3,6) have "va_cols r' ! i = p" "i < length (va_cols r')" by auto
    then have "p \<in> owned (va_cols r')" using i(3) nth_mem [of i "va_cols r'"] by (simp add: owned_def)
    with p show False by simp
  qed
  with i show "p \<in> set (replaced r chs)" by (auto simp: replaced_def)
qed

text \<open>C18: an update of an array row shares the columns it does not change.  After
  \<open>deallocate_rcu_after_update\<close> exactly the columns of the old row that are not in the new one
  are in limbo, each once, everything stays readable for the readers of the old row, and the
  only new objects are columns of the new row: nothing leaks and nothing is freed twice.\<close>

theorem va_update_ownership:
  assumes "col_inv m" "va_ok m r" "set (cm_limbo m) \<inter> owned (va_cols r) = {}"
    and "increasing 0 chs" "chs \<noteq> []" "va_ts r \<le> ts" "length (upd_cols (va_view m r) chs) < 32768"
  shows "\<exists>r' m' m'' freed. va_update r chs ts m = Some (r', m') \<and>
    va_deallocate_rcu_after_update r chs m' = Some m'' \<and> va_view m'' r' = upd_cols (va_view m r) chs \<and>
    va_view m'' r = va_view m r \<and> cm_limbo m'' = cm_limbo m @ freed \<and> distinct freed \<and>
    set freed = owned (va_cols r) - owned (va_cols r') \<and>
    dom (cm_str m'') = dom (cm_str m) \<union> owned (va_cols r')"
proof -
  let ?ps = "va_cols r"
  obtain r' m' where r: "va_update r chs ts m = Some (r', m')" "col_mem_ext m m'" "va_ok m' r'"
    "va_view m' r' = upd_cols (va_view m r) chs"
    "\<forall>i < length ?ps. i \<notin> fst ` set chs \<longrightarrow> va_cols r' ! i = ?ps ! i"
    "\<forall>i. length ?ps \<le> i \<and> i < length (va_cols r') \<and> i \<notin> fst ` set chs \<longrightarrow> va_cols r' ! i = 0"
    "\<forall>i \<in> fst ` set chs. va_cols r' ! i = 0 \<or> cm_next m \<le> va_cols r' ! i"
    "\<forall>i \<in> fst ` set chs. i < length (va_cols r')" "length ?ps \<le> length (va_cols r')"
    "dom (cm_str m') = dom (cm_str m) \<union> owned (map (\<lambda>ch. va_cols r' ! fst ch) chs)"
    by (rule va_updateE [OF assms(1,2,4,5,6,7)]) blast
  have old: "owned ?ps \<subseteq> dom (cm_str m)" using assms(2) by (simp add: va_ok_def)
  have limbo: "cm_limbo m' = cm_limbo m" using r(2) by (simp add: col_mem_ext_def)
  let ?m = "m'\<lparr>cm_limbo := cm_limbo m' @ replaced r chs\<rparr>"
  have "va_deallocate_rcu_after_update r chs m' = Some ?m"
  proof (rule deallocate_rcu_after_update_limbo [OF assms(2,4)])
    show "owned ?ps \<subseteq> dom (cm_str m')" using old r(10) by blast
    show "\<forall>i. 0 \<le> i \<and> i < length ?ps \<longrightarrow> ?ps ! i \<notin> set (cm_limbo m') - {0}"
      using assms(3) limbo nth_mem [of _ ?ps] unfolding owned_def by (metis Diff_iff IntI empty_iff)
  qed
  moreover have "set (replaced r chs) = owned ?ps - owned (va_cols r')"
    by (rule replaced_set [OF assms(1,2) r(5,6,7,9)])
  moreover have "dom (cm_str m') = dom (cm_str m) \<union> owned (va_cols r')"
  proof -
    have "owned (map (\<lambda>ch. va_cols r' ! fst ch) chs) \<subseteq> owned (va_cols r')"
      using r(8) by (auto simp: owned_def)
    moreover have "owned (va_cols r') \<subseteq> dom (cm_str m')" using r(3) by (simp add: va_ok_def)
    ultimately show ?thesis using r(10) by blast
  qed
  moreover have "va_view ?m x = va_view m' x" for x
    by (simp add: va_view_def col_value_def)
  ultimately show ?thesis
    using r(1,4) limbo distinct_replaced [OF assms(2,4)] va_view_ext [OF r(2) assms(2)]
    by (intro exI [of _ r'] exI [of _ m'] exI [of _ ?m] exI [of _ "replaced r chs"]) simp
qed

lemma va_update_ownership_witness:
  "\<exists>r' m' m'' freed.
    va_update \<lparr>va_ts = 2, va_ncol = 1, va_cols = [1]\<rparr> [(0, [66])] 4 \<lparr>cm_next = 2, cm_str = [1 \<mapsto> [65]], cm_limbo = []\<rparr>
      = Some (r', m') \<and>
    va_deallocate_rcu_after_update \<lparr>va_ts = 2, va_ncol = 1, va_cols = [1]\<rparr> [(0, [66])] m' = Some m'' \<and>
    va_view m'' r' = [[66]] \<and> cm_limbo m'' = freed \<and> set freed = {1} - owned (va_cols r')"
proof -
  let ?r = "\<lparr>va_ts = 2, va_ncol = 1, va_cols = [1]\<rparr>"
  let ?m = "\<lparr>cm_next = 2, cm_str = [1 \<mapsto> [65]], cm_limbo = []\<rparr>"
  have "col_inv ?m" "va_ok ?m ?r" "set (cm_limbo ?m) \<inter> owned (va_cols ?r) = {}"
    "va_view ?m ?r = [[65]]" "owned [1] = {1}"
    by (simp_all add: col_inv_def va_ok_def owned_def va_view_def col_value_def)
  then show ?thesis
    using va_update_ownership [of ?m ?r "[(0, [66])]" 4] by (auto simp: set_col_def)
qed

text \<open>\<open>deallocate_after_failed_update\<close> takes the new columns back: the strings are what they were.\<close>

lemma deallocate_after_failed_update_drops:
  assumes "increasing lo chs" "\<forall>ch \<in> set chs. fst ch < length (va_cols r)"
    and "\<forall>ch \<in> set chs. va_cols r ! fst ch = 0 \<or>
      va_cols r ! fst ch \<in> dom (cm_str m) \<and> va_cols r ! fst ch \<notin> set (cm_limbo m)"
    and "va_ok m0 r"
  shows "va_deallocate_after_failed_update r chs m =
    Some (m\<lparr>cm_str := cm_str m |` (- owned (map (\<lambda>ch. va_cols r ! fst ch) chs))\<rparr>)"
  using assms(1-3)
proof (induction chs arbitrary: lo m)
  case (Cons ch chs)
  obtain idx v where ch [simp]: "ch = (idx, v)" by (cases ch)
  let ?p = "va_cols r ! idx"
  let ?m = "if ?p = 0 then m else m\<lparr>cm_str := (cm_str m)(?p := None)\<rparr>"
  have "deallocate_column ?p m = Some ?m"
    using Cons.prems(3) by (cases "?p = 0") (auto simp: deallocate_column_def)
  moreover have "va_deallocate_after_failed_update r chs ?m =
      Some (?m\<lparr>cm_str := cm_str ?m |` (- owned (map (\<lambda>ch. va_cols r ! fst ch) chs))\<rparr>)"
  proof (rule Cons.IH)
    show "increasing (Suc idx) chs" using Cons.prems(1) by simp
    have "va_cols r ! fst c \<noteq> ?p" if "c \<in> set chs" "?p \<noteq> 0" for c
    proof
      assume e: "va_cols r ! fst c = ?p"
      have "idx = fst c"
        by (rule va_ok_nth [OF assms(4) _ _ that(2) e [symmetric]]) (use Cons.prems(2) that(1) in auto)
      moreover have "Suc idx \<le> fst c" using increasing_above [OF _ that(1)] Cons.prems(1) by simp
      ultimately show False by simp
    qed
    then show "\<forall>c \<in> set chs. va_cols r ! fst c = 0 \<or>
        va_cols r ! fst c \<in> dom (cm_str ?m) \<and> va_cols r ! fst c \<notin> set (cm_limbo ?m)"
      using Cons.prems(3) by (cases "?p = 0") auto
  qed (use Cons.prems(2) in simp)
  moreover have "(cm_str m)(?p := None) |` A = cm_str m |` (A - {?p})" for A
    by (auto simp: restrict_map_def)
  moreover have "- owned (map (\<lambda>ch. va_cols r ! fst ch) (ch # chs)) =
      - owned (map (\<lambda>ch. va_cols r ! fst ch) chs) - (if ?p = 0 then {} else {?p})"
    by (auto simp: owned_def)
  ultimately show ?case
    using Cons.prems(2) by (cases "?p = 0") simp_all
qed (simp add: owned_def restrict_map_def)

lemma failed_update_undone:
  assumes "col_inv m" "va_ok m r" "cm_limbo m = []"
    and "increasing 0 chs" "chs \<noteq> []" "va_ts r \<le> ts" "length (upd_cols (va_view m r) chs) < 32768"
  shows "\<exists>r' m' m''. va_update r chs ts m = Some (r', m') \<and>
    va_deallocate_after_failed_update r' chs m' = Some m'' \<and> cm_str m'' = cm_str m"
proof -
  obtain r' m' where r: "va_update r chs ts m = Some (r', m')" "col_mem_ext m m'" "va_ok m' r'"
    "\<forall>i \<in> fst ` set chs. va_cols r' ! i = 0 \<or> cm_next m \<le> va_cols r' ! i"
    "\<forall>i \<in> fst ` set chs. i < length (va_cols r')"
    "dom (cm_str m') = dom (cm_str m) \<union> owned (map (\<lambda>ch. va_cols r' ! fst ch) chs)"
    by (rule va_updateE [OF assms(1,2,4,5,6,7)]) blast
  let ?new = "owned (map (\<lambda>ch. va_cols r' ! fst ch) chs)"
  have new: "\<forall>p \<in> ?new. p \<notin> dom (cm_str m)"
  proof
    fix p assume "p \<in> ?new"
    then have "cm_next m \<le> p" using r(4) by (auto simp: owned_def)
    then show "p \<notin> dom (cm_str m)" using assms(1) unfolding col_inv_def by (meson leD)
  qed
  have sub: "cm_str m \<subseteq>\<^sub>m cm_str m'" "cm_limbo m' = []"
    using r(2) assms(3) by (simp_all add: col_mem_ext_def)
  have "cm_str m' |` (- ?new) = cm_str m"
  proof
    fix p
    show "(cm_str m' |` (- ?new)) p = cm_str m p"
      using new r(6) sub(1) by (cases "p \<in> dom (cm_str m)") (auto simp: restrict_map_def map_le_def)
  qed
  moreover have "va_deallocate_after_failed_update r' chs m' = Some (m'\<lparr>cm_str := cm_str m' |` (- ?new)\<rparr>)"
  proof (rule deallocate_after_failed_update_drops [OF assms(4) _ _ r(3)])
    show "\<forall>ch \<in> set chs. va_cols r' ! fst ch = 0 \<or>
        va_cols r' ! fst ch \<in> dom (cm_str m') \<and> va_cols r' ! fst ch \<notin> set (cm_limbo m')"
      unfolding r(6) sub(2) by (auto simp: owned_def)
  qed (use r(5) in simp)
  ultimately show ?thesis using r(1) by auto
qed

section \<open>Strings\<close>

lemma vs_sizes_last:
  "vs_sizes [(idx, v)] n c = (max n (index_offset idx + length v), if idx = 0 then length v else c)"
  by simp

text \<open>An update of one column that lies within a string or extends it.\<close>

lemma vs_update_one:
  assumes "idx \<noteq> 0" "index_length idx = length v" "\<And>n. length (fresh n) = n"
  shows "\<exists>r'. vs_update fresh r [(idx, v)] ts = Some r' \<and> vs_col r' idx = v \<and>
    length (vs_s r') = max (length (vs_s r)) (index_offset idx + length v) \<and>
    take (min (index_offset idx) (length (vs_s r))) (vs_s r') = take (index_offset idx) (vs_s r)"
proof -
  let ?o = "index_offset idx" and ?s = "vs_s r"
  let ?n = "max (?o + length v) (length ?s)"
  obtain m where m: "put_bytes (fresh ?n) 0 ?s = Some m" "length m = ?n" "take (length ?s) m = ?s"
    using assms(3) [of ?n] by (simp add: put_bytes_def)
  let ?m = "take ?o m @ v @ drop (?o + length v) m"
  have "put_bytes m ?o v = Some ?m" using m(2) by (simp add: put_bytes_def)
  then have up: "vs_update fresh r [(idx, v)] ts = Some \<lparr>vs_ts = ts, vs_s = ?m\<rparr>"
    using assms(1) m(1) by (simp add: vs_update_def get_bytes_def)
  have o: "?o \<le> length m" "?o + length v \<le> length m" using m(2) by simp_all
  then have "length ?m = ?n" "vs_col \<lparr>vs_ts = ts, vs_s = ?m\<rparr> idx = v"
    using assms(1,2) m(2) by (simp_all add: vs_col_def Let_def)
  moreover have "take (min ?o (length ?s)) ?m = take ?o ?s"
  proof -
    have "take (min ?o (length ?s)) ?m = take (min ?o (length ?s)) m" using o(1) by (simp add: min_def)
    also have "\<dots> = take ?o (take (length ?s) m)" by (simp add: min.commute)
    finally show ?thesis unfolding m(3) .
  qed
  ultimately show ?thesis using up by (simp add: max.commute)
qed



end
