(* ===== verification/Log_Record.thy ===== *)
theory Log_Record
  imports Value_Row Circular_Int
begin

text \<open>
  \<^verbatim>\<open>log.hh\<close> and \<^verbatim>\<open>log.cc\<close>: the records of the log, the buffer in which a log thread collects them and
  the file to which it writes them, and the loop that reads the file back.

  The four record structures are written through casts of the buffer; the character array of
  \<open>logrec_kv\<close> starts at offset 20 of 24 bytes and that of \<open>logrec_kvdelta\<close> at 28 of 32, so that the
  last four bytes of such a record are whatever the buffer held before.  Reading outside of the
  file is \<open>None\<close>, as is writing outside of the buffer and a failed assertion.
\<close>

section \<open>Records\<close>

type_synonym kvepoch = u64

definition logcmd_none :: u32 where "logcmd_none = 0"
definition logcmd_put :: u32 where "logcmd_put = 0x5455506B"
definition logcmd_replace :: u32 where "logcmd_replace = 0x3155506B"
definition logcmd_modify :: u32 where "logcmd_modify = 0x444F4D6B"
definition logcmd_remove :: u32 where "logcmd_remove = 0x4D45526B"
definition logcmd_epoch :: u32 where "logcmd_epoch = 0x4F50456B"
definition logcmd_quiesce :: u32 where "logcmd_quiesce = 0x4955516B"
definition logcmd_wake :: u32 where "logcmd_wake = 0x4B41576B"

definition logrec_base_store :: "bytes \<Rightarrow> nat \<Rightarrow> u32 \<Rightarrow> (bytes \<times> nat) option" where
  "logrec_base_store buf off command = do {
     buf \<leftarrow> put_bytes buf off (store_le 4 command @ store_le 4 (8 :: u32));
     Some (buf, 8) }"

definition logrec_epoch_store :: "bytes \<Rightarrow> nat \<Rightarrow> u32 \<Rightarrow> kvepoch \<Rightarrow> (bytes \<times> nat) option" where
  "logrec_epoch_store buf off command epoch = do {
     buf \<leftarrow> put_bytes buf off (store_le 4 command @ store_le 4 (16 :: u32) @ store_le 8 epoch);
     Some (buf, 16) }"

definition logrec_kv_store :: "bytes \<Rightarrow> nat \<Rightarrow> u32 \<Rightarrow> bytes \<Rightarrow> bytes \<Rightarrow> u64 \<Rightarrow> (bytes \<times> nat) option" where
  "logrec_kv_store buf off command key val ts = do {
     let size = 24 + length key + length val;
     buf \<leftarrow> put_bytes buf off (store_le 4 command @ store_le 4 (of_nat size :: u32) @ store_le 8 ts @
       store_le 4 (of_nat (length key) :: u32));
     buf \<leftarrow> put_bytes buf (off + 20) key;
     buf \<leftarrow> put_bytes buf (off + 20 + length key) val;
     Some (buf, size) }"

definition logrec_kvdelta_store ::
    "bytes \<Rightarrow> nat \<Rightarrow> u32 \<Rightarrow> bytes \<Rightarrow> bytes \<Rightarrow> u64 \<Rightarrow> u64 \<Rightarrow> (bytes \<times> nat) option" where
  "logrec_kvdelta_store buf off command key val prev_ts ts = do {
     let size = 32 + length key + length val;
     buf \<leftarrow> put_bytes buf off (store_le 4 command @ store_le 4 (of_nat size :: u32) @ store_le 8 ts @
       store_le 8 prev_ts @ store_le 4 (of_nat (length key) :: u32));
     buf \<leftarrow> put_bytes buf (off + 28) key;
     buf \<leftarrow> put_bytes buf (off + 28 + length key) val;
     Some (buf, size) }"

section \<open>Reading a record\<close>

record logrecord =
  lr_command :: u32
  lr_key :: bytes
  lr_val :: bytes
  lr_ts :: u64
  lr_prev_ts :: u64
  lr_epoch :: kvepoch

text \<open>The fields of a new \<open>logrecord\<close> that no constructor sets are read only after they are set.\<close>

definition logrecord_make :: logrecord where
  "logrecord_make = \<lparr>lr_command = 0, lr_key = [], lr_val = [], lr_ts = 0, lr_prev_ts = 0, lr_epoch = 0\<rparr>"

definition field :: "bytes \<Rightarrow> nat \<Rightarrow> nat \<Rightarrow> 'a::len word option" where
  "field bs off n = map_option load_le (get_bytes bs off n)"

text \<open>\<open>bs\<close> is the file from the current position to the end; the result says how far to move.\<close>

definition lr_extract :: "nat \<Rightarrow> logrecord \<Rightarrow> bytes \<Rightarrow> (logrecord \<times> nat) option" where
  "lr_extract maxkeylen lr bs =
     (let fail = (\<lambda>lr. Some (lr\<lparr>lr_command := logcmd_none\<rparr>, length bs)) in
      if length bs < 8 then fail lr
      else do {
        command \<leftarrow> field bs 0 4;
        size \<leftarrow> field bs 4 4;
        let n = unat (size :: u32);
        if n < 8 \<or> length bs < n \<or> command = logcmd_none then fail lr
        else let lr = lr\<lparr>lr_command := command\<rparr> in
        if command = logcmd_put \<or> command = logcmd_replace \<or> command = logcmd_remove then
          if n < 24 then fail lr
          else do {
            keylen \<leftarrow> field bs 16 4;
            let k = unat (keylen :: u32);
            if maxkeylen < k \<or> n < 24 + k then fail lr
            else do {
              ts \<leftarrow> field bs 8 8;
              key \<leftarrow> get_bytes bs 20 k;
              val \<leftarrow> get_bytes bs (20 + k) (n - 24 - k);
              Some (lr\<lparr>lr_key := key, lr_val := val, lr_ts := ts\<rparr>, n) } }
        else if command = logcmd_modify then do {
          keylen \<leftarrow> field bs 24 4;
          let k = unat (keylen :: u32);
          if maxkeylen < k \<or> n < 32 + k then fail lr
          else do {
            ts \<leftarrow> field bs 8 8;
            prev_ts \<leftarrow> field bs 16 8;
            key \<leftarrow> get_bytes bs 28 k;
            val \<leftarrow> get_bytes bs (28 + k) (n - 32 - k);
            Some (lr\<lparr>lr_key := key, lr_val := val, lr_ts := ts, lr_prev_ts := prev_ts\<rparr>, n) } }
        else if command = logcmd_epoch then
          if n < 16 then fail lr
          else do {
            epoch \<leftarrow> field bs 8 8;
            Some (lr\<lparr>lr_epoch := epoch\<rparr>, n) }
        else Some (lr, n) })"

section \<open>The buffer of a log\<close>

record query_times =
  qt_epoch :: kvepoch
  qt_ts :: u64
  qt_prev_ts :: u64

record loginfo =
  li_log_epoch :: kvepoch
  li_quiescent_epoch :: kvepoch
  li_wake_epoch :: kvepoch
  li_flushed_epoch :: kvepoch
  li_buf :: bytes
  li_pos :: nat
  li_waiting :: "nat list"

text \<open>\<open>len_\<close> is the length of the buffer; \<open>malloc\<close> leaves its contents open.\<close>

definition loginfo_make :: "bytes \<Rightarrow> loginfo" where
  "loginfo_make buf = \<lparr>li_log_epoch = 0, li_quiescent_epoch = 0, li_wake_epoch = 0, li_flushed_epoch = 0,
     li_buf = buf, li_pos = 0, li_waiting = []\<rparr>"

definition li_store :: "(bytes \<Rightarrow> nat \<Rightarrow> (bytes \<times> nat) option) \<Rightarrow> loginfo \<Rightarrow> loginfo option" where
  "li_store f li = do {
     (buf, n) \<leftarrow> f (li_buf li) (li_pos li);
     Some (li\<lparr>li_buf := buf, li_pos := li_pos li + n\<rparr>) }"

text \<open>The part of \<open>record\<close> that runs when there is room; \<open>gwe\<close> is the global wake epoch.  Without
  interference the compare-and-swap loop raises it to the epoch of the query.\<close>

definition record_epoch :: "query_times \<Rightarrow> loginfo \<Rightarrow> loginfo option" where
  "record_epoch qt li =
     (if qt_epoch qt \<noteq> li_log_epoch li
      then li_store (\<lambda>b p. logrec_epoch_store b p logcmd_epoch (qt_epoch qt)) (li\<lparr>li_log_epoch := qt_epoch qt\<rparr>)
      else Some li)"

definition record_unquiesce :: "query_times \<Rightarrow> kvepoch \<Rightarrow> loginfo \<Rightarrow> loginfo \<times> kvepoch" where
  "record_unquiesce qt gwe li =
     (if li_quiescent_epoch li \<noteq> 0
      then ((if li_flushed_epoch li = li_quiescent_epoch li then li\<lparr>li_flushed_epoch := qt_epoch qt\<rparr> else li)
              \<lparr>li_quiescent_epoch := 0\<rparr>,
            if ci_lt gwe (qt_epoch qt) then qt_epoch qt else gwe)
      else (li, gwe))"

definition record_wake :: "query_times \<Rightarrow> kvepoch \<Rightarrow> loginfo \<Rightarrow> loginfo option" where
  "record_wake qt we li =
     (let we = (if we \<noteq> li_wake_epoch li \<and> ci_lt (qt_epoch qt) we then qt_epoch qt else we)
      in if we \<noteq> li_wake_epoch li
         then li_store (\<lambda>b p. logrec_base_store b p logcmd_wake) (li\<lparr>li_wake_epoch := we\<rparr>)
         else Some li)"

definition record_data :: "u32 \<Rightarrow> query_times \<Rightarrow> bytes \<Rightarrow> bytes \<Rightarrow> loginfo \<Rightarrow> loginfo option" where
  "record_data command qt key val li =
     (if command = logcmd_put \<and> qt_prev_ts qt \<noteq> 0 \<and> qt_prev_ts qt AND 1 = 0
      then li_store (\<lambda>b p. logrec_kvdelta_store b p logcmd_modify key val (qt_prev_ts qt) (qt_ts qt)) li
      else li_store (\<lambda>b p. logrec_kv_store b p command key val (qt_ts qt)) li)"

text \<open>One round of the loop of \<open>record\<close> by caller \<open>w\<close>: either the record is written, or the caller
  waits in line.  The result says whether \<open>record\<close> returned.\<close>

definition record_step ::
    "nat \<Rightarrow> u32 \<Rightarrow> query_times \<Rightarrow> bytes \<Rightarrow> bytes \<Rightarrow> kvepoch \<Rightarrow> loginfo \<Rightarrow> (loginfo \<times> kvepoch \<times> bool) option" where
  "record_step w command qt key val gwe li =
     (if 32 + length key + length val + 16 + 8 \<le> length (li_buf li) - li_pos li \<and>
         (w \<notin> set (li_waiting li) \<or> hd (li_waiting li) = w)
      then do {
        li \<leftarrow> record_epoch qt li;
        let (li, gwe) = record_unquiesce qt gwe li;
        li \<leftarrow> record_wake qt gwe li;
        li \<leftarrow> record_data command qt key val li;
        Some (if li_waiting li \<noteq> [] \<and> hd (li_waiting li) = w then li\<lparr>li_waiting := tl (li_waiting li)\<rparr> else li,
          gwe, True) }
      else Some (if w \<notin> set (li_waiting li) then li\<lparr>li_waiting := li_waiting li @ [w]\<rparr> else li, gwe, False))"

text \<open>One round of the loop of \<open>run\<close>, while it holds the lock: the quiescence notice, then the swap of
  the buffers.  The result has the bytes to write and their epoch.\<close>

definition run_quiesce :: "bool \<Rightarrow> kvepoch \<Rightarrow> kvepoch \<Rightarrow> loginfo \<Rightarrow> loginfo option" where
  "run_quiesce recovering ge we li =
     (let li = (if li_wake_epoch li \<noteq> we then li\<lparr>li_quiescent_epoch := 0, li_wake_epoch := we\<rparr> else li)
      in if \<not> recovering \<and> li_pos li = 0 \<and> li_quiescent_epoch li = 0 \<and> ge \<noteq> li_log_epoch li \<and> ge \<noteq> we \<and>
            li_waiting li = []
         then do {
           let li = li\<lparr>li_log_epoch := ge, li_quiescent_epoch := ge\<rparr>;
           li \<leftarrow> li_store (\<lambda>b p. logrec_epoch_store b p logcmd_epoch ge) li;
           li \<leftarrow> (if li_log_epoch li = li_wake_epoch li then li_store (\<lambda>b p. logrec_base_store b p logcmd_wake) li
                  else Some li);
           li_store (\<lambda>b p. logrec_base_store b p logcmd_quiesce) li }
         else Some li)"

definition run_swap :: "bool \<Rightarrow> bytes \<Rightarrow> loginfo \<Rightarrow> loginfo \<times> bytes \<times> (bytes \<times> kvepoch) option" where
  "run_swap recovering x_buf li =
     (if \<not> recovering \<and> 0 < li_pos li
      then (li\<lparr>li_buf := x_buf, li_pos := 0\<rparr>, li_buf li, Some (take (li_pos li) (li_buf li), li_log_epoch li))
      else (li, x_buf, None))"

definition loginfo_quiescent :: "loginfo \<Rightarrow> bool" where
  "loginfo_quiescent li \<longleftrightarrow> li_quiescent_epoch li \<noteq> 0 \<and> li_quiescent_epoch li = li_flushed_epoch li"

section \<open>The image of a log\<close>

text \<open>What a log holds: records of data with their four bytes of padding, epochs, and the two
  notices without contents.\<close>

datatype item =
    It_kv u32 bytes bytes u64 bytes
  | It_delta bytes bytes u64 u64 bytes
  | It_epoch kvepoch
  | It_base u32

fun item_image :: "item \<Rightarrow> bytes" where
  "item_image (It_kv c key val ts pad) = store_le 4 c @ store_le 4 (of_nat (24 + length key + length val) :: u32) @
     store_le 8 ts @ store_le 4 (of_nat (length key) :: u32) @ key @ val @ pad"
| "item_image (It_delta key val prev_ts ts pad) = store_le 4 logcmd_modify @
     store_le 4 (of_nat (32 + length key + length val) :: u32) @ store_le 8 ts @ store_le 8 prev_ts @
     store_le 4 (of_nat (length key) :: u32) @ key @ val @ pad"
| "item_image (It_epoch e) = store_le 4 logcmd_epoch @ store_le 4 (16 :: u32) @ store_le 8 e"
| "item_image (It_base c) = store_le 4 c @ store_le 4 (8 :: u32)"

fun item_ok :: "nat \<Rightarrow> (kvepoch \<Rightarrow> bool) \<Rightarrow> item \<Rightarrow> bool" where
  "item_ok mk P (It_kv c key val ts pad) \<longleftrightarrow>
     (c = logcmd_put \<or> c = logcmd_replace \<or> c = logcmd_remove) \<and> length pad = 4 \<and> length key \<le> mk \<and>
     24 + length key + length val < 2 ^ 32"
| "item_ok mk P (It_delta key val prev_ts ts pad) \<longleftrightarrow>
     length pad = 4 \<and> length key \<le> mk \<and> 32 + length key + length val < 2 ^ 32"
| "item_ok mk P (It_epoch e) \<longleftrightarrow> P e"
| "item_ok mk P (It_base c) \<longleftrightarrow> c = logcmd_wake \<or> c = logcmd_quiesce"

text \<open>What reading an item leaves in the \<open>logrecord\<close>: it keeps the fields that the item does not set.\<close>

fun lr_read :: "logrecord \<Rightarrow> item \<Rightarrow> logrecord" where
  "lr_read lr (It_kv c key val ts pad) = lr\<lparr>lr_command := c, lr_key := key, lr_val := val, lr_ts := ts\<rparr>"
| "lr_read lr (It_delta key val prev_ts ts pad) =
     lr\<lparr>lr_command := logcmd_modify, lr_key := key, lr_val := val, lr_ts := ts, lr_prev_ts := prev_ts\<rparr>"
| "lr_read lr (It_epoch e) = lr\<lparr>lr_command := logcmd_epoch, lr_epoch := e\<rparr>"
| "lr_read lr (It_base c) = lr\<lparr>lr_command := c\<rparr>"

lemmas logcmd_defs = logcmd_none_def logcmd_put_def logcmd_replace_def logcmd_modify_def logcmd_remove_def
  logcmd_epoch_def logcmd_quiesce_def logcmd_wake_def

lemma get_bytes_at:
  "length xs = off \<Longrightarrow> length ys = n \<Longrightarrow> get_bytes (xs @ ys @ zs) off n = Some ys"
  by (simp add: get_bytes_def)

lemma field_at:
  fixes w :: "'a::len word"
  assumes "length xs = off" "LENGTH('a) = 8 * n"
  shows "field (xs @ store_le n w @ zs) off n = Some w"
  using assms by (simp add: field_def get_bytes_at load_store)

lemma field_first:
  fixes w :: "'a::len word"
  assumes "LENGTH('a) = 8 * n"
  shows "field (store_le n w @ zs) 0 n = Some w"
  using field_at [of "[]" 0 n w zs] assms by simp

lemma unat_u32: "n < 2 ^ 32 \<Longrightarrow> unat (of_nat n :: u32) = n"
  by (simp add: unat_of_nat)

lemma length_image:
  "item_ok mk P it \<Longrightarrow> length (item_image it) = (case it of It_kv c k v ts pad \<Rightarrow> 24 + length k + length v
     | It_delta k v p ts pad \<Rightarrow> 32 + length k + length v | It_epoch e \<Rightarrow> 16 | It_base c \<Rightarrow> 8)"
  by (cases it) auto

lemma lr_extract_head:
  assumes "bs = store_le 4 (c :: u32) @ store_le 4 (of_nat n :: u32) @ r" "8 \<le> n" "n \<le> length bs" "n < 2 ^ 32"
  shows "field bs 0 4 = Some c" "field bs 4 4 = Some (of_nat n :: u32)" "8 \<le> length bs"
    "unat (of_nat n :: u32) = n"
  using assms field_first [of 4 c] field_at [of "store_le 4 c" 4 4 "of_nat n :: u32" r] by (simp_all add: unat_u32)

lemma lr_extract_kv:
  assumes "item_ok mk P (It_kv c k v ts pad)"
  shows "lr_extract mk lr (item_image (It_kv c k v ts pad) @ r) =
    Some (lr_read lr (It_kv c k v ts pad), 24 + length k + length v)"
proof -
  let ?n = "24 + length k + length v" and ?k = "of_nat (length k) :: u32"
  let ?h = "store_le 4 c @ store_le 4 (of_nat ?n :: u32)"
  let ?bs = "item_image (It_kv c k v ts pad) @ r"
  have lt: "?n < 2 ^ 32" and pad: "length pad = 4" using assms by auto
  have b: "?bs = store_le 4 c @ store_le 4 (of_nat ?n :: u32) @
      (store_le 8 ts @ store_le 4 ?k @ k @ v @ pad @ r)" by simp
  have len: "?n \<le> length ?bs" using pad by simp
  have h: "field ?bs 0 4 = Some c" "field ?bs 4 4 = Some (of_nat ?n :: u32)" "8 \<le> length ?bs"
    "unat (of_nat ?n :: u32) = ?n"
    using lr_extract_head [OF b _ len lt] by simp_all
  have "field ?bs 8 8 = Some ts"
    using field_at [of ?h 8 8 ts "store_le 4 ?k @ k @ v @ pad @ r"] by simp
  moreover have "field ?bs 16 4 = Some ?k"
    using field_at [of "?h @ store_le 8 ts" 16 4 ?k "k @ v @ pad @ r"] by simp
  moreover have "get_bytes ?bs 20 (length k) = Some k"
    using get_bytes_at [of "?h @ store_le 8 ts @ store_le 4 ?k" 20 k "length k" "v @ pad @ r"] by simp
  moreover have "get_bytes ?bs (20 + length k) (length v) = Some v"
    using get_bytes_at [of "?h @ store_le 8 ts @ store_le 4 ?k @ k" "20 + length k" v "length v" "pad @ r"]
    by simp
  moreover have "unat ?k = length k" using lt by (intro unat_u32) simp
  moreover have "c \<noteq> logcmd_none" using assms by (auto simp: logcmd_defs)
  ultimately show ?thesis
    using assms h len unfolding lr_extract_def Let_def by (simp del: item_image.simps of_nat_add of_nat_numeral add: not_less)
qed

lemma lr_extract_delta:
  assumes "item_ok mk P (It_delta k v p ts pad)"
  shows "lr_extract mk lr (item_image (It_delta k v p ts pad) @ r) =
    Some (lr_read lr (It_delta k v p ts pad), 32 + length k + length v)"
proof -
  let ?n = "32 + length k + length v" and ?k = "of_nat (length k) :: u32"
  let ?h = "store_le 4 logcmd_modify @ store_le 4 (of_nat ?n :: u32)"
  let ?bs = "item_image (It_delta k v p ts pad) @ r"
  have lt: "?n < 2 ^ 32" and pad: "length pad = 4" using assms by auto
  have b: "?bs = store_le 4 logcmd_modify @ store_le 4 (of_nat ?n :: u32) @
      (store_le 8 ts @ store_le 8 p @ store_le 4 ?k @ k @ v @ pad @ r)" by simp
  have len: "?n \<le> length ?bs" using pad by simp
  have h: "field ?bs 0 4 = Some logcmd_modify" "field ?bs 4 4 = Some (of_nat ?n :: u32)" "8 \<le> length ?bs"
    "unat (of_nat ?n :: u32) = ?n"
    using lr_extract_head [OF b _ len lt] by simp_all
  have "field ?bs 8 8 = Some ts"
    using field_at [of ?h 8 8 ts "store_le 8 p @ store_le 4 ?k @ k @ v @ pad @ r"] by simp
  moreover have "field ?bs 16 8 = Some p"
    using field_at [of "?h @ store_le 8 ts" 16 8 p "store_le 4 ?k @ k @ v @ pad @ r"] by simp
  moreover have "field ?bs 24 4 = Some ?k"
    using field_at [of "?h @ store_le 8 ts @ store_le 8 p" 24 4 ?k "k @ v @ pad @ r"] by simp
  moreover have "get_bytes ?bs 28 (length k) = Some k"
    using get_bytes_at [of "?h @ store_le 8 ts @ store_le 8 p @ store_le 4 ?k" 28 k "length k" "v @ pad @ r"]
    by simp
  moreover have "get_bytes ?bs (28 + length k) (length v) = Some v"
    using get_bytes_at [of "?h @ store_le 8 ts @ store_le 8 p @ store_le 4 ?k @ k" "28 + length k" v "length v"
        "pad @ r"] by simp
  moreover have "unat ?k = length k" using lt by (intro unat_u32) simp
  moreover have "logcmd_modify \<noteq> logcmd_none" "logcmd_modify \<noteq> logcmd_put" "logcmd_modify \<noteq> logcmd_replace"
    "logcmd_modify \<noteq> logcmd_remove" by (simp_all add: logcmd_defs)
  ultimately show ?thesis
    using assms h len unfolding lr_extract_def Let_def by (simp del: item_image.simps of_nat_add of_nat_numeral add: not_less)
qed

lemma lr_extract_image:
  assumes "item_ok mk P it"
  shows "lr_extract mk lr (item_image it @ r) = Some (lr_read lr it, length (item_image it))"
proof (cases it)
  case (It_kv c k v ts pad)
  then show ?thesis using assms lr_extract_kv [of mk P c k v ts pad lr r] length_image [OF assms] by simp
next
  case (It_delta k v p ts pad)
  then show ?thesis using assms lr_extract_delta [of mk P k v p ts pad lr r] length_image [OF assms] by simp
next
  case (It_epoch e)
  have "field (item_image it @ r) 8 8 = Some e"
    using It_epoch field_at [of "store_le 4 logcmd_epoch @ store_le 4 (16 :: u32)" 8 8 e r] by simp
  moreover have "field (item_image it @ r) 0 4 = Some logcmd_epoch" "field (item_image it @ r) 4 4 = Some (of_nat 16 :: u32)"
    using It_epoch lr_extract_head [of "item_image it @ r" logcmd_epoch 16] by simp_all
  ultimately show ?thesis
    using It_epoch unfolding lr_extract_def Let_def by (simp del: item_image.simps) (simp add: logcmd_defs)
next
  case (It_base c)
  then have "field (item_image it @ r) 0 4 = Some c" "field (item_image it @ r) 4 4 = Some (of_nat 8 :: u32)"
    using lr_extract_head [of "item_image it @ r" c 8] by simp_all
  then show ?thesis
    using It_base assms unfolding lr_extract_def Let_def by (simp del: item_image.simps) (auto simp: logcmd_defs)
qed

section \<open>A log and its file\<close>

text \<open>
  The threads that call \<open>record\<close>, the log thread and the other logs run interleaved.  The log thread
  holds the lock while it swaps the buffers and then writes the old one to the file; other logs
  raise the global wake epoch.  \<open>recovering\<close> is false (\<open>record\<close> asserts it).  The result of a step
  says which record it completed.
\<close>

record logger =
  lg_li :: loginfo
  lg_xbuf :: bytes
  lg_out :: "(bytes \<times> kvepoch) option"
  lg_file :: bytes
  lg_gwe :: kvepoch

datatype log_event = Ev_record nat u32 query_times bytes bytes | Ev_run kvepoch | Ev_write | Ev_wake kvepoch

type_synonym datum = "kvepoch \<times> u32 \<times> bytes \<times> bytes \<times> u64 \<times> u64 option"

text \<open>What a call of \<open>record\<close> means.\<close>

definition query_datum :: "u32 \<Rightarrow> query_times \<Rightarrow> bytes \<Rightarrow> bytes \<Rightarrow> datum" where
  "query_datum command qt key val =
     (if command = logcmd_put \<and> qt_prev_ts qt \<noteq> 0 \<and> qt_prev_ts qt AND 1 = 0
      then (qt_epoch qt, logcmd_modify, key, val, qt_ts qt, Some (qt_prev_ts qt))
      else (qt_epoch qt, command, key, val, qt_ts qt, None))"

fun log_step :: "log_event \<Rightarrow> logger \<Rightarrow> (logger \<times> datum list) option" where
  "log_step (Ev_record w command qt key val) lg = do {
     (li, gwe, done) \<leftarrow> record_step w command qt key val (lg_gwe lg) (lg_li lg);
     Some (lg\<lparr>lg_li := li, lg_gwe := gwe\<rparr>, if done then [query_datum command qt key val] else []) }"
| "log_step (Ev_run ge) lg =
     (if lg_out lg \<noteq> None then Some (lg, [])
      else do {
        li \<leftarrow> run_quiesce False ge (lg_gwe lg) (lg_li lg);
        let (li, xbuf, out) = run_swap False (lg_xbuf lg) li;
        Some (lg\<lparr>lg_li := li, lg_xbuf := xbuf, lg_out := out\<rparr>, []) })"
| "log_step Ev_write lg =
     (case lg_out lg of
        None \<Rightarrow> Some (lg, [])
      | Some (bs, x_epoch) \<Rightarrow>
          Some (lg\<lparr>lg_li := (lg_li lg)\<lparr>li_flushed_epoch := x_epoch\<rparr>, lg_out := None, lg_file := lg_file lg @ bs\<rparr>, []))"
| "log_step (Ev_wake e) lg = Some (lg\<lparr>lg_gwe := e\<rparr>, [])"

fun log_run :: "log_event list \<Rightarrow> logger \<Rightarrow> (logger \<times> datum list) option" where
  "log_run [] lg = Some (lg, [])"
| "log_run (ev # evs) lg = do {
     (lg, ds) \<leftarrow> log_step ev lg;
     (lg, ds') \<leftarrow> log_run evs lg;
     Some (lg, ds @ ds') }"

definition logger_make :: "bytes \<Rightarrow> bytes \<Rightarrow> logger" where
  "logger_make buf x_buf = \<lparr>lg_li = loginfo_make buf, lg_xbuf = x_buf, lg_out = None, lg_file = [], lg_gwe = 0\<rparr>"

text \<open>The data of a list of items, each under the epoch that precedes it.\<close>

fun item_data :: "kvepoch \<Rightarrow> item list \<Rightarrow> datum list" where
  "item_data e [] = []"
| "item_data e (It_epoch e' # its) = item_data e' its"
| "item_data e (It_base c # its) = item_data e its"
| "item_data e (It_kv c key val ts pad # its) = (e, c, key, val, ts, None) # item_data e its"
| "item_data e (It_delta key val prev_ts ts pad # its) =
     (e, logcmd_modify, key, val, ts, Some prev_ts) # item_data e its"

fun last_epoch :: "kvepoch \<Rightarrow> item list \<Rightarrow> kvepoch" where
  "last_epoch e [] = e"
| "last_epoch e (It_epoch e' # its) = last_epoch e' its"
| "last_epoch e (it # its) = last_epoch e its"

lemma item_data_append: "item_data e (xs @ ys) = item_data e xs @ item_data (last_epoch e xs) ys"
  by (induction e xs rule: item_data.induct) auto

lemma items_epoch_append: "last_epoch e (xs @ ys) = last_epoch (last_epoch e xs) ys"
  by (induction e xs rule: item_data.induct) auto

section \<open>Nothing is lost on the way to the file\<close>

definition images :: "item list \<Rightarrow> bytes" where "images its = concat (map item_image its)"

lemma images_append [simp]: "images (xs @ ys) = images xs @ images ys"
  by (simp add: images_def)

lemma images_Nil [simp]: "images [] = []"
  by (simp add: images_def)

lemma images_single [simp]: "images [it] = item_image it"
  by (simp add: images_def)

definition li_content :: "loginfo \<Rightarrow> bytes" where "li_content li = take (li_pos li) (li_buf li)"

text \<open>Between the steps of an operation on the buffer: \<open>its\<close> were added to what the log held when the
  operation began, and \<open>n\<close> bytes are left.\<close>

definition li_adds :: "nat \<Rightarrow> (kvepoch \<Rightarrow> bool) \<Rightarrow> loginfo \<Rightarrow> item list \<Rightarrow> nat \<Rightarrow> loginfo \<Rightarrow> bool" where
  "li_adds mk P li0 its n li \<longleftrightarrow>
     li_content li = li_content li0 @ images its \<and> (\<forall>it \<in> set its. item_ok mk P it) \<and>
     li_pos li + n \<le> length (li_buf li) \<and> length (li_buf li) = length (li_buf li0) \<and>
     li_waiting li = li_waiting li0"

lemma put_bytes_fill:
  assumes "off + length bs \<le> length m"
  obtains m' where "put_bytes m off bs = Some m'" "take (off + length bs) m' = take off m @ bs"
    "length m' = length m"
  using assms by (intro that [of "take off m @ bs @ drop (off + length bs) m"]) (auto simp: put_bytes_def)

lemma store_parts:
  assumes "p + (length h + 4 + length k + length v) \<le> length b"
  obtains b1 b2 b3 pad where "put_bytes b p h = Some b1" "put_bytes b1 (p + length h) k = Some b2"
    "put_bytes b2 (p + length h + length k) v = Some b3" "length pad = 4" "length b3 = length b"
    "take (p + (length h + 4 + length k + length v)) b3 = take p b @ h @ k @ v @ pad"
proof -
  obtain b1 where b1: "put_bytes b p h = Some b1" "take (p + length h) b1 = take p b @ h" "length b1 = length b"
    using put_bytes_fill [of p h b] assms by auto
  obtain b2 where b2: "put_bytes b1 (p + length h) k = Some b2"
    "take (p + length h + length k) b2 = take (p + length h) b1 @ k" "length b2 = length b1"
    using put_bytes_fill [of "p + length h" k b1] assms b1(3) by auto
  obtain b3 where b3: "put_bytes b2 (p + length h + length k) v = Some b3"
    "take (p + length h + length k + length v) b3 = take (p + length h + length k) b2 @ v" "length b3 = length b2"
    using put_bytes_fill [of "p + length h + length k" v b2] assms b1(3) b2(3) by auto
  let ?pad = "take 4 (drop (p + length h + length k + length v) b3)"
  have "take (p + (length h + 4 + length k + length v)) b3 = take (p + length h + length k + length v) b3 @ ?pad"
    using take_add [of "p + length h + length k + length v" 4 b3] by (simp add: ac_simps)
  then show thesis using b1 b2 b3 assms by (intro that [of b1 b2 b3 ?pad]) auto
qed

lemma kv_store_image:
  assumes "p + (24 + length k + length v) \<le> length b"
  obtains b' pad where "logrec_kv_store b p c k v ts = Some (b', 24 + length k + length v)" "length pad = 4"
    "take (p + (24 + length k + length v)) b' = take p b @ item_image (It_kv c k v ts pad)" "length b' = length b"
proof -
  let ?h = "store_le 4 c @ store_le 4 (of_nat (24 + length k + length v) :: u32) @ store_le 8 ts @
    store_le 4 (of_nat (length k) :: u32)"
  obtain b1 b2 b3 pad where "put_bytes b p ?h = Some b1" "put_bytes b1 (p + length ?h) k = Some b2"
    "put_bytes b2 (p + length ?h + length k) v = Some b3" "length pad = 4" "length b3 = length b"
    "take (p + (length ?h + 4 + length k + length v)) b3 = take p b @ ?h @ k @ v @ pad"
    by (rule store_parts [of p ?h k v b]) (use assms in auto)
  then show thesis by (intro that [of b3 pad]) (auto simp: logrec_kv_store_def Let_def)
qed

lemma kvdelta_store_image:
  assumes "p + (32 + length k + length v) \<le> length b"
  obtains b' pad where "logrec_kvdelta_store b p logcmd_modify k v prev ts = Some (b', 32 + length k + length v)"
    "length pad = 4"
    "take (p + (32 + length k + length v)) b' = take p b @ item_image (It_delta k v prev ts pad)" "length b' = length b"
proof -
  let ?h = "store_le 4 logcmd_modify @ store_le 4 (of_nat (32 + length k + length v) :: u32) @ store_le 8 ts @
    store_le 8 prev @ store_le 4 (of_nat (length k) :: u32)"
  obtain b1 b2 b3 pad where "put_bytes b p ?h = Some b1" "put_bytes b1 (p + length ?h) k = Some b2"
    "put_bytes b2 (p + length ?h + length k) v = Some b3" "length pad = 4" "length b3 = length b"
    "take (p + (length ?h + 4 + length k + length v)) b3 = take p b @ ?h @ k @ v @ pad"
    by (rule store_parts [of p ?h k v b]) (use assms in auto)
  then show thesis by (intro that [of b3 pad]) (auto simp: logrec_kvdelta_store_def Let_def)
qed

lemma base_store_image:
  assumes "p + 8 \<le> length b"
  obtains b' where "logrec_base_store b p c = Some (b', 8)" "take (p + 8) b' = take p b @ item_image (It_base c)"
    "length b' = length b"
proof -
  let ?h = "store_le 4 c @ store_le 4 (8 :: u32)"
  obtain b' where "put_bytes b p ?h = Some b'" "take (p + length ?h) b' = take p b @ ?h" "length b' = length b"
    by (rule put_bytes_fill [of p ?h b]) (use assms in simp)
  then show thesis by (intro that [of b']) (simp_all add: logrec_base_store_def)
qed

lemma epoch_store_image:
  assumes "p + 16 \<le> length b"
  obtains b' where "logrec_epoch_store b p logcmd_epoch e = Some (b', 16)"
    "take (p + 16) b' = take p b @ item_image (It_epoch e)" "length b' = length b"
proof -
  let ?h = "store_le 4 logcmd_epoch @ store_le 4 (16 :: u32) @ store_le 8 e"
  obtain b' where "put_bytes b p ?h = Some b'" "take (p + length ?h) b' = take p b @ ?h" "length b' = length b"
    by (rule put_bytes_fill [of p ?h b]) (use assms in simp)
  then show thesis by (intro that [of b']) (simp_all add: logrec_epoch_store_def)
qed

text \<open>One store, in terms of \<open>li_adds\<close>.\<close>

lemma li_adds_store:
  assumes "li_adds mk P li0 its n li" "item_ok mk P it" "m \<le> n"
    and "f (li_buf li) (li_pos li) = Some (b', m)" "take (li_pos li + m) b' = take (li_pos li) (li_buf li) @ item_image it"
    and "length b' = length (li_buf li)"
  shows "li_store f li = Some (li\<lparr>li_buf := b', li_pos := li_pos li + m\<rparr>) \<and>
    li_adds mk P li0 (its @ [it]) (n - m) (li\<lparr>li_buf := b', li_pos := li_pos li + m\<rparr>)"
  using assms by (auto simp: li_store_def li_adds_def li_content_def)

lemma li_adds_room:
  assumes "li_adds mk P li0 its n li"
  shows "li_pos li + n \<le> length (li_buf li)"
  using assms by (simp add: li_adds_def)

lemma li_adds_base:
  assumes "li_adds mk P li0 its n li" "c = logcmd_wake \<or> c = logcmd_quiesce" "8 \<le> n"
  shows "\<exists>li'. li_store (\<lambda>b p. logrec_base_store b p c) li = Some li' \<and>
    li_adds mk P li0 (its @ [It_base c]) (n - 8) li' \<and> li_log_epoch li' = li_log_epoch li"
proof -
  have room: "li_pos li + 8 \<le> length (li_buf li)" using li_adds_room [OF assms(1)] assms(3) by linarith
  obtain b' where b: "logrec_base_store (li_buf li) (li_pos li) c = Some (b', 8)"
    "take (li_pos li + 8) b' = take (li_pos li) (li_buf li) @ item_image (It_base c)" "length b' = length (li_buf li)"
    by (rule base_store_image [OF room])
  show ?thesis
    using li_adds_store [where f = "\<lambda>b p. logrec_base_store b p c", OF assms(1) _ assms(3) b] assms(2) by auto
qed

lemma li_adds_epoch:
  assumes "li_adds mk P li0 its n li" "16 \<le> n" "P e"
  shows "\<exists>li'. li_store (\<lambda>b p. logrec_epoch_store b p logcmd_epoch e) li = Some li' \<and>
    li_adds mk P li0 (its @ [It_epoch e]) (n - 16) li' \<and> li_log_epoch li' = li_log_epoch li"
proof -
  have room: "li_pos li + 16 \<le> length (li_buf li)" using li_adds_room [OF assms(1)] assms(2) by linarith
  obtain b' where b: "logrec_epoch_store (li_buf li) (li_pos li) logcmd_epoch e = Some (b', 16)"
    "take (li_pos li + 16) b' = take (li_pos li) (li_buf li) @ item_image (It_epoch e)" "length b' = length (li_buf li)"
    by (rule epoch_store_image [OF room])
  show ?thesis
    using li_adds_store [where f = "\<lambda>b p. logrec_epoch_store b p logcmd_epoch e", OF assms(1) _ assms(2) b] assms(3) by auto
qed

text \<open>Fields that \<open>li_adds\<close> does not mention.\<close>

lemma li_adds_fields [simp]:
  "li_adds mk P li0 its n (li\<lparr>li_log_epoch := e\<rparr>) = li_adds mk P li0 its n li"
  "li_adds mk P li0 its n (li\<lparr>li_quiescent_epoch := e\<rparr>) = li_adds mk P li0 its n li"
  "li_adds mk P li0 its n (li\<lparr>li_wake_epoch := e\<rparr>) = li_adds mk P li0 its n li"
  "li_adds mk P li0 its n (li\<lparr>li_flushed_epoch := e\<rparr>) = li_adds mk P li0 its n li"
  by (simp_all add: li_adds_def li_content_def)

lemma li_adds_start:
  "li_pos li + n \<le> length (li_buf li) \<Longrightarrow> li_adds mk P li [] n li"
  by (simp add: li_adds_def)

lemma li_adds_less: "li_adds mk P li0 its n li \<Longrightarrow> m \<le> n \<Longrightarrow> li_adds mk P li0 its m li"
  by (auto simp: li_adds_def)

lemma record_epoch_adds:
  assumes "li_adds mk P li0 its n li" "16 \<le> n" "P (qt_epoch qt)"
  shows "\<exists>li' its'. record_epoch qt li = Some li' \<and> li_adds mk P li0 (its @ its') (n - 16) li' \<and>
    item_data e its' = [] \<and> last_epoch (li_log_epoch li) its' = qt_epoch qt \<and> li_log_epoch li' = qt_epoch qt"
proof (cases "qt_epoch qt = li_log_epoch li")
  case True
  then show ?thesis
    using assms by (intro exI [of _ li] exI [of _ "[]"]) (auto simp: record_epoch_def intro: li_adds_less)
next
  case False
  obtain li' where "li_store (\<lambda>b p. logrec_epoch_store b p logcmd_epoch (qt_epoch qt)) (li\<lparr>li_log_epoch := qt_epoch qt\<rparr>) = Some li'"
    "li_adds mk P li0 (its @ [It_epoch (qt_epoch qt)]) (n - 16) li'" "li_log_epoch li' = qt_epoch qt"
    using li_adds_epoch [of mk P li0 its n "li\<lparr>li_log_epoch := qt_epoch qt\<rparr>" "qt_epoch qt"] assms by auto
  then show ?thesis
    using False by (intro exI [of _ li'] exI [of _ "[It_epoch (qt_epoch qt)]"]) (auto simp: record_epoch_def)
qed

lemma record_unquiesce_adds:
  assumes "li_adds mk P li0 its n li" "record_unquiesce qt gwe li = (li', gwe')"
  shows "li_adds mk P li0 its n li' \<and> li_log_epoch li' = li_log_epoch li"
  using assms by (auto simp: record_unquiesce_def split: if_splits)

lemma record_wake_adds:
  assumes "li_adds mk P li0 its n li" "8 \<le> n"
  shows "\<exists>li' its'. record_wake qt we li = Some li' \<and> li_adds mk P li0 (its @ its') (n - 8) li' \<and>
    item_data e its' = [] \<and> last_epoch e its' = e \<and> li_log_epoch li' = li_log_epoch li"
proof -
  let ?we = "if we \<noteq> li_wake_epoch li \<and> ci_lt (qt_epoch qt) we then qt_epoch qt else we"
  show ?thesis
  proof (cases "?we = li_wake_epoch li")
    case True
    then show ?thesis
      using assms by (intro exI [of _ li] exI [of _ "[]"]) (auto simp: record_wake_def Let_def intro: li_adds_less)
  next
    case False
    obtain li' where "li_store (\<lambda>b p. logrec_base_store b p logcmd_wake) (li\<lparr>li_wake_epoch := ?we\<rparr>) = Some li'"
      "li_adds mk P li0 (its @ [It_base logcmd_wake]) (n - 8) li'" "li_log_epoch li' = li_log_epoch li"
      using li_adds_base [of mk P li0 its n "li\<lparr>li_wake_epoch := ?we\<rparr>" logcmd_wake] assms by auto
    then show ?thesis
      using False unfolding record_wake_def Let_def
      by (intro exI [of _ li'] exI [of _ "[It_base logcmd_wake]"]) (simp add: if_not_P)
  qed
qed

definition record_ok :: "nat \<Rightarrow> u32 \<Rightarrow> bytes \<Rightarrow> bytes \<Rightarrow> bool" where
  "record_ok mk command key val \<longleftrightarrow>
     (command = logcmd_put \<or> command = logcmd_replace \<or> command = logcmd_remove) \<and> length key \<le> mk \<and>
     32 + length key + length val < 2 ^ 32"

lemma record_data_adds:
  assumes "li_adds mk P li0 its n li" "32 + length key + length val \<le> n" "record_ok mk command key val"
    and "e = qt_epoch qt"
  shows "\<exists>li' it. record_data command qt key val li = Some li' \<and> li_adds mk P li0 (its @ [it]) 0 li' \<and>
    item_data e [it] = [query_datum command qt key val] \<and> last_epoch e [it] = e \<and> li_log_epoch li' = li_log_epoch li"
proof (cases "command = logcmd_put \<and> qt_prev_ts qt \<noteq> 0 \<and> qt_prev_ts qt AND 1 = 0")
  case True
  have room: "li_pos li + (32 + length key + length val) \<le> length (li_buf li)"
    using li_adds_room [OF assms(1)] assms(2) by linarith
  obtain b' pad where b: "logrec_kvdelta_store (li_buf li) (li_pos li) logcmd_modify key val (qt_prev_ts qt) (qt_ts qt) =
      Some (b', 32 + length key + length val)" "length pad = 4"
    "take (li_pos li + (32 + length key + length val)) b' =
      take (li_pos li) (li_buf li) @ item_image (It_delta key val (qt_prev_ts qt) (qt_ts qt) pad)"
    "length b' = length (li_buf li)"
    by (rule kvdelta_store_image [OF room])
  let ?it = "It_delta key val (qt_prev_ts qt) (qt_ts qt) pad"
  have "item_ok mk P ?it" using assms(3) b(2) by (simp add: record_ok_def)
  from li_adds_store [where f = "\<lambda>b p. logrec_kvdelta_store b p logcmd_modify key val (qt_prev_ts qt) (qt_ts qt)",
      OF assms(1) this assms(2) b(1,3,4)] show ?thesis
    using True assms(4) by (intro exI exI [of _ ?it])
      (auto simp: record_data_def query_datum_def intro: li_adds_less)
next
  case False
  have le: "24 + length key + length val \<le> n" using assms(2) by simp
  have room: "li_pos li + (24 + length key + length val) \<le> length (li_buf li)"
    using li_adds_room [OF assms(1)] le by linarith
  obtain b' pad where b: "logrec_kv_store (li_buf li) (li_pos li) command key val (qt_ts qt) =
      Some (b', 24 + length key + length val)" "length pad = 4"
    "take (li_pos li + (24 + length key + length val)) b' =
      take (li_pos li) (li_buf li) @ item_image (It_kv command key val (qt_ts qt) pad)"
    "length b' = length (li_buf li)"
    by (rule kv_store_image [OF room])
  let ?it = "It_kv command key val (qt_ts qt) pad"
  have "item_ok mk P ?it" using assms(3) b(2) by (simp add: record_ok_def)
  from li_adds_store [where f = "\<lambda>b p. logrec_kv_store b p command key val (qt_ts qt)",
      OF assms(1) this le b(1,3,4)] show ?thesis
    using False assms(4) unfolding record_data_def query_datum_def if_not_P [OF False]
    by (intro exI exI [of _ ?it]) (auto intro: li_adds_less)
qed

text \<open>\<open>log_adds mk P li its li'\<close>: an operation took \<open>li\<close> to \<open>li'\<close> and added the items \<open>its\<close>.\<close>

definition log_adds :: "nat \<Rightarrow> (kvepoch \<Rightarrow> bool) \<Rightarrow> loginfo \<Rightarrow> item list \<Rightarrow> loginfo \<Rightarrow> bool" where
  "log_adds mk P li its li' \<longleftrightarrow>
     li_content li' = li_content li @ images its \<and> (\<forall>it \<in> set its. item_ok mk P it) \<and>
     li_pos li' \<le> length (li_buf li') \<and> length (li_buf li') = length (li_buf li) \<and>
     li_log_epoch li' = last_epoch (li_log_epoch li) its"

lemma log_addsI:
  "li_adds mk P li its n li' \<Longrightarrow> li_log_epoch li' = last_epoch (li_log_epoch li) its \<Longrightarrow> log_adds mk P li its li'"
  by (simp add: li_adds_def log_adds_def)

lemma record_step_adds:
  assumes "record_ok mk command key val" "li_pos li \<le> length (li_buf li)" "P (qt_epoch qt)"
  shows "\<exists>li' gwe' done its. record_step w command qt key val gwe li = Some (li', gwe', done) \<and>
    log_adds mk P li its li' \<and>
    item_data (li_log_epoch li) its = (if done then [query_datum command qt key val] else [])"
proof (cases "32 + length key + length val + 16 + 8 \<le> length (li_buf li) - li_pos li \<and>
    (w \<notin> set (li_waiting li) \<or> hd (li_waiting li) = w)")
  case True
  let ?n = "32 + length key + length val + 16 + 8"
  have s: "li_adds mk P li [] ?n li" using conjunct1 [OF True] assms(2) by (intro li_adds_start) linarith
  obtain l1 i1 where 1: "record_epoch qt li = Some l1" "li_adds mk P li i1 (?n - 16) l1"
    "item_data (li_log_epoch li) i1 = []" "last_epoch (li_log_epoch li) i1 = qt_epoch qt" "li_log_epoch l1 = qt_epoch qt"
    using record_epoch_adds [OF s _ assms(3), of "li_log_epoch li"] by auto
  obtain l2 g where 2: "record_unquiesce qt gwe l1 = (l2, g)" by (cases "record_unquiesce qt gwe l1")
  have a2: "li_adds mk P li i1 (?n - 16) l2" "li_log_epoch l2 = qt_epoch qt"
    using record_unquiesce_adds [OF 1(2) 2] 1(5) by simp_all
  obtain l3 i3 where 3: "record_wake qt g l2 = Some l3" "li_adds mk P li (i1 @ i3) (?n - 16 - 8) l3"
    "item_data (qt_epoch qt) i3 = []" "last_epoch (qt_epoch qt) i3 = qt_epoch qt" "li_log_epoch l3 = qt_epoch qt"
    using record_wake_adds [OF a2(1), of qt g "qt_epoch qt"] a2(2) by auto
  obtain l4 it where 4: "record_data command qt key val l3 = Some l4" "li_adds mk P li ((i1 @ i3) @ [it]) 0 l4"
    "item_data (qt_epoch qt) [it] = [query_datum command qt key val]" "last_epoch (qt_epoch qt) [it] = qt_epoch qt"
    "li_log_epoch l4 = qt_epoch qt"
    using record_data_adds [OF 3(2) _ assms(1) refl, of qt] 3(5) by auto
  let ?its = "(i1 @ i3) @ [it]"
  have "log_adds mk P li ?its l4"
    using 4 1(4) 3(4) by (intro log_addsI) (simp_all add: items_epoch_append)
  moreover have "item_data (li_log_epoch li) ?its = [query_datum command qt key val]"
    using 1(3,4) 3(3,4) 4(3) by (simp add: item_data_append items_epoch_append)
  moreover have "log_adds mk P li ?its (l4\<lparr>li_waiting := ws\<rparr>) = log_adds mk P li ?its l4" for ws
    by (simp add: log_adds_def li_content_def)
  ultimately show ?thesis
    using True 1(1) 2 3(1) 4(1) unfolding record_step_def if_P [OF True] by auto
next
  case False
  let ?li = "if w \<notin> set (li_waiting li) then li\<lparr>li_waiting := li_waiting li @ [w]\<rparr> else li"
  have "log_adds mk P li [] ?li" using assms(2) by (simp add: log_adds_def li_content_def)
  then show ?thesis
    unfolding record_step_def if_not_P [OF False]
    by (intro exI [of _ ?li] exI [of _ gwe] exI [of _ False] exI [of _ "[]"]) simp
qed

lemma run_quiesce_adds:
  assumes "li_pos li \<le> length (li_buf li)" "32 \<le> length (li_buf li)" "P ge"
  shows "\<exists>li' its. run_quiesce recovering ge we li = Some li' \<and> log_adds mk P li its li' \<and>
    item_data (li_log_epoch li) its = []"
proof -
  let ?li = "if li_wake_epoch li \<noteq> we then li\<lparr>li_quiescent_epoch := 0, li_wake_epoch := we\<rparr> else li"
  let ?c = "\<not> recovering \<and> li_pos ?li = 0 \<and> li_quiescent_epoch ?li = 0 \<and> ge \<noteq> li_log_epoch ?li \<and> ge \<noteq> we \<and>
    li_waiting ?li = []"
  show ?thesis
  proof (cases ?c)
    case True
    let ?l = "?li\<lparr>li_log_epoch := ge, li_quiescent_epoch := ge\<rparr>"
    have "li_adds mk P li [] 32 li" using True assms by (intro li_adds_start) (auto split: if_splits)
    then have "li_adds mk P li [] 32 ?l" by simp
    then obtain l1 where 1: "li_store (\<lambda>b p. logrec_epoch_store b p logcmd_epoch ge) ?l = Some l1"
      "li_adds mk P li ([] @ [It_epoch ge]) (32 - 16) l1" "li_log_epoch l1 = ge"
      using li_adds_epoch [of mk P li "[]" 32 ?l ge] assms(3) by auto
    obtain l2 i2 where 2: "(if li_log_epoch l1 = li_wake_epoch l1
        then li_store (\<lambda>b p. logrec_base_store b p logcmd_wake) l1 else Some l1) = Some l2"
      "li_adds mk P li ([It_epoch ge] @ i2) 8 l2" "item_data ge i2 = []" "last_epoch ge i2 = ge" "li_log_epoch l2 = ge"
    proof (cases "li_log_epoch l1 = li_wake_epoch l1")
      case True
      obtain l2 where "li_store (\<lambda>b p. logrec_base_store b p logcmd_wake) l1 = Some l2"
        "li_adds mk P li (([] @ [It_epoch ge]) @ [It_base logcmd_wake]) (32 - 16 - 8) l2" "li_log_epoch l2 = li_log_epoch l1"
        using li_adds_base [OF 1(2), of logcmd_wake] by auto
      then show ?thesis using True 1(3) by (intro that [of l2 "[It_base logcmd_wake]"]) auto
    next
      case False
      then show ?thesis using 1 by (intro that [of l1 "[]"]) (auto intro: li_adds_less)
    qed
    obtain l3 where 3: "li_store (\<lambda>b p. logrec_base_store b p logcmd_quiesce) l2 = Some l3"
      "li_adds mk P li (([It_epoch ge] @ i2) @ [It_base logcmd_quiesce]) (8 - 8) l3" "li_log_epoch l3 = li_log_epoch l2"
      using li_adds_base [OF 2(2), of logcmd_quiesce] by auto
    have "log_adds mk P li (([It_epoch ge] @ i2) @ [It_base logcmd_quiesce]) l3"
      using 3(2,3) 2(4,5) by (intro log_addsI) (simp_all add: items_epoch_append)
    moreover have "item_data (li_log_epoch li) (([It_epoch ge] @ i2) @ [It_base logcmd_quiesce]) = []"
      using 2(3) by (simp add: item_data_append)
    ultimately show ?thesis
      using 1(1) 2(1) 3(1) unfolding run_quiesce_def Let_def if_P [OF True] by auto
  next
    case False
    have "log_adds mk P li [] ?li" using assms(1) by (simp add: log_adds_def li_content_def)
    then show ?thesis
      unfolding run_quiesce_def Let_def if_not_P [OF False] by (intro exI conjI) auto
  qed
qed

text \<open>The invariant: the file, what is being written and the buffer hold \<open>its\<close>, in this order.\<close>

definition log_inv :: "nat \<Rightarrow> (kvepoch \<Rightarrow> bool) \<Rightarrow> logger \<Rightarrow> item list \<Rightarrow> bool" where
  "log_inv mk P lg its \<longleftrightarrow>
     lg_file lg @ (case lg_out lg of None \<Rightarrow> [] | Some (bs, e) \<Rightarrow> bs) @ li_content (lg_li lg) = images its \<and>
     (\<forall>it \<in> set its. item_ok mk P it) \<and> li_log_epoch (lg_li lg) = last_epoch 0 its \<and>
     li_pos (lg_li lg) \<le> length (li_buf (lg_li lg)) \<and> 32 \<le> length (li_buf (lg_li lg)) \<and>
     32 \<le> length (lg_xbuf lg)"

lemma log_inv_adds:
  assumes "log_inv mk P lg its" "log_adds mk P (lg_li lg) its' li'"
  shows "log_inv mk P (lg\<lparr>lg_li := li', lg_gwe := g\<rparr>) (its @ its')"
  using assms by (auto simp: log_inv_def log_adds_def items_epoch_append split: option.splits)

fun event_ok :: "nat \<Rightarrow> (kvepoch \<Rightarrow> bool) \<Rightarrow> log_event \<Rightarrow> bool" where
  "event_ok mk P (Ev_record w command qt key val) \<longleftrightarrow> record_ok mk command key val \<and> P (qt_epoch qt)"
| "event_ok mk P (Ev_run ge) \<longleftrightarrow> P ge"
| "event_ok mk P _ \<longleftrightarrow> True"

lemma log_step_inv:
  assumes "log_inv mk P lg its" "event_ok mk P ev"
  shows "\<exists>lg' ds its'. log_step ev lg = Some (lg', ds) \<and> log_inv mk P lg' (its @ its') \<and>
    item_data (last_epoch 0 its) its' = ds"
proof (cases ev)
  case (Ev_record w command qt key val)
  have "li_pos (lg_li lg) \<le> length (li_buf (lg_li lg))" "li_log_epoch (lg_li lg) = last_epoch 0 its"
    using assms(1) by (simp_all add: log_inv_def)
  then obtain li' g dn its' where r: "record_step w command qt key val (lg_gwe lg) (lg_li lg) = Some (li', g, dn)"
    "log_adds mk P (lg_li lg) its' li'"
    "item_data (last_epoch 0 its) its' = (if dn then [query_datum command qt key val] else [])"
    using record_step_adds [of mk command key val "lg_li lg" P qt w "lg_gwe lg"] assms(2) Ev_record by auto
  then show ?thesis
    using log_inv_adds [OF assms(1) r(2), of g] Ev_record
    by (intro exI [of _ "lg\<lparr>lg_li := li', lg_gwe := g\<rparr>"] exI [of _ its'] exI) auto
next
  case (Ev_run ge)
  show ?thesis
  proof (cases "lg_out lg")
    case None
    have "li_pos (lg_li lg) \<le> length (li_buf (lg_li lg))" "32 \<le> length (li_buf (lg_li lg))"
      "li_log_epoch (lg_li lg) = last_epoch 0 its"
      using assms(1) by (simp_all add: log_inv_def)
    then obtain li' its' where q: "run_quiesce False ge (lg_gwe lg) (lg_li lg) = Some li'"
      "log_adds mk P (lg_li lg) its' li'" "item_data (last_epoch 0 its) its' = []"
      using run_quiesce_adds [of "lg_li lg" P ge False "lg_gwe lg" mk] assms(2) Ev_run by auto
    have i: "log_inv mk P (lg\<lparr>lg_li := li', lg_gwe := lg_gwe lg\<rparr>) (its @ its')"
      by (rule log_inv_adds [OF assms(1) q(2)])
    then have "log_inv mk P (let (li, xbuf, out) = run_swap False (lg_xbuf lg) li'
        in lg\<lparr>lg_li := li, lg_xbuf := xbuf, lg_out := out\<rparr>) (its @ its')"
      using None by (auto simp: run_swap_def log_inv_def li_content_def)
    then show ?thesis using None Ev_run q(1,3) by (auto split: prod.splits)
  next
    case (Some a)
    then show ?thesis using assms(1) Ev_run by (intro exI [of _ lg] exI [of _ "[]"]) simp
  qed
next
  case Ev_write
  show ?thesis
  proof (cases "lg_out lg")
    case None
    then show ?thesis using assms(1) Ev_write by (intro exI [of _ lg] exI [of _ "[]"]) simp
  next
    case (Some a)
    obtain bs e where a: "a = (bs, e)" by (cases a)
    let ?lg = "lg\<lparr>lg_li := (lg_li lg)\<lparr>li_flushed_epoch := e\<rparr>, lg_out := None, lg_file := lg_file lg @ bs\<rparr>"
    have "log_inv mk P ?lg (its @ [])"
      using assms(1) Some a by (simp add: log_inv_def li_content_def)
    then show ?thesis using Some a Ev_write by (intro exI [of _ ?lg] exI [of _ "[]"]) simp
  qed
next
  case (Ev_wake e)
  have "log_inv mk P (lg\<lparr>lg_gwe := e\<rparr>) (its @ [])" using assms(1) by (simp add: log_inv_def)
  then show ?thesis using Ev_wake by (intro exI [of _ "lg\<lparr>lg_gwe := e\<rparr>"] exI [of _ "[]"]) simp
qed

lemma log_run_inv:
  assumes "log_inv mk P lg its" "\<forall>ev \<in> set evs. event_ok mk P ev"
  shows "\<exists>lg' ds its'. log_run evs lg = Some (lg', ds) \<and> log_inv mk P lg' (its @ its') \<and>
    item_data (last_epoch 0 its) its' = ds"
  using assms
proof (induction evs arbitrary: lg its)
  case Nil
  then show ?case by (intro exI [of _ lg] exI [of _ "[]"]) simp
next
  case (Cons ev evs)
  obtain lg1 d1 i1 where 1: "log_step ev lg = Some (lg1, d1)" "log_inv mk P lg1 (its @ i1)"
    "item_data (last_epoch 0 its) i1 = d1"
    using log_step_inv [OF Cons.prems(1), of ev] Cons.prems(2) by auto
  obtain lg2 d2 i2 where 2: "log_run evs lg1 = Some (lg2, d2)" "log_inv mk P lg2 ((its @ i1) @ i2)"
    "item_data (last_epoch 0 (its @ i1)) i2 = d2"
    using Cons.IH [OF 1(2)] Cons.prems(2) by auto
  show ?case
    using 1 2 by (intro exI [of _ lg2] exI [of _ "d1 @ d2"] exI [of _ "i1 @ i2"])
      (simp add: item_data_append items_epoch_append)
qed

lemma logger_make_inv:
  "32 \<le> length buf \<Longrightarrow> 32 \<le> length x_buf \<Longrightarrow> log_inv mk P (logger_make buf x_buf) []"
  by (simp add: log_inv_def logger_make_def loginfo_make_def li_content_def)

end
