(* ===== verification/Log_Replay.thy ===== *)
theory Log_Replay
  imports Log_Record
begin

text \<open>
  \<^verbatim>\<open>log.cc\<close>, reading logs back: the scan that finds the epochs of a log (\<open>info\<close>), the replay of the
  records whose epochs lie in a range (\<open>replayandclean1\<close>) with the part of the file it keeps, and
  the computation of the range in \<open>recover\<close> of \<^verbatim>\<open>mtd.cc\<close>.
\<close>

section \<open>Replaying a file\<close>

text \<open>\<open>rp_runs\<close> are the records that were run, in order; \<open>rp_begin\<close> and \<open>rp_end\<close> are offsets of the file.\<close>

record replay =
  rp_lr :: logrecord
  rp_begin :: "nat option"
  rp_end :: "nat option"
  rp_runs :: "logrecord list"
  rp_nr :: nat

definition replay_make :: replay where
  "replay_make = \<lparr>rp_lr = logrecord_make, rp_begin = None, rp_end = None, rp_runs = [], rp_nr = 0\<rparr>"

definition is_data_command :: "u32 \<Rightarrow> bool" where
  "is_data_command c \<longleftrightarrow> c = logcmd_put \<or> c = logcmd_replace \<or> c = logcmd_modify \<or> c = logcmd_remove"

text \<open>One record, from offset \<open>pos\<close> to \<open>nextpos\<close>; the second result is the \<open>break\<close>.\<close>

definition replay_one :: "kvepoch \<Rightarrow> kvepoch \<Rightarrow> nat \<Rightarrow> nat \<Rightarrow> replay \<Rightarrow> (replay \<times> bool) option" where
  "replay_one min_epoch max_epoch pos nextpos rp =
     (let lr = rp_lr rp; is_epoch = (lr_command lr = logcmd_epoch); e = lr_epoch lr;
          rp = (if is_epoch \<and> ((min_epoch \<noteq> 0 \<and> ci_lt e min_epoch) \<or> (min_epoch = 0 \<and> rp_begin rp = None))
                then rp\<lparr>rp_begin := Some pos\<rparr> else rp)
      in if is_epoch \<and> ci_ge e max_epoch
         then if rp_begin rp = None then None else Some (rp\<lparr>rp_end := Some nextpos\<rparr>, True)
         else if e = 0 \<or> (min_epoch \<noteq> 0 \<and> ci_lt e min_epoch)
         then Some (if rp_begin rp \<noteq> None then rp\<lparr>rp_end := Some nextpos\<rparr> else rp, False)
         else if rp_begin rp = None then None
         else let rp = rp\<lparr>rp_end := Some nextpos\<rparr>
           in Some (if lr_key lr \<noteq> []
                    then rp\<lparr>rp_runs := (if is_data_command (lr_command lr) then rp_runs rp @ [lr] else rp_runs rp),
                            rp_nr := rp_nr rp + 1\<rparr>
                    else rp, False))"

lemma lr_extract_progress:
  assumes "lr_extract mk lr bs = Some (lr', n)" "lr_command lr' \<noteq> logcmd_none"
  shows "8 \<le> n \<and> n \<le> length bs"
proof -
  have "n = length bs \<and> 8 \<le> n \<or> 8 \<le> n \<and> n \<le> length bs \<or> lr_command lr' = logcmd_none"
    using assms(1) unfolding lr_extract_def Let_def
    by (auto split: if_splits simp: bind_eq_Some_conv)
  with assms(2) show ?thesis by auto
qed

function replay_loop ::
    "nat \<Rightarrow> kvepoch \<Rightarrow> kvepoch \<Rightarrow> bytes \<Rightarrow> nat \<Rightarrow> replay \<Rightarrow> (replay \<times> nat) option" where
  "replay_loop mk mn mx bs pos rp =
     (if bs = [] then Some (rp, pos)
      else case lr_extract mk (rp_lr rp) bs of
        None \<Rightarrow> None
      | Some (lr, n) \<Rightarrow>
          if lr_command lr = logcmd_none then Some (rp\<lparr>rp_lr := lr\<rparr>, pos)
          else case replay_one mn mx pos (pos + n) (rp\<lparr>rp_lr := lr\<rparr>) of
            None \<Rightarrow> None
          | Some (rp, stop) \<Rightarrow>
              if stop then Some (rp, pos) else replay_loop mk mn mx (drop n bs) (pos + n) rp)"
  by pat_completeness auto

termination
  by (relation "measure (\<lambda>(mk, mn, mx, bs, pos, rp). length bs)") (auto dest: lr_extract_progress)

declare replay_loop.simps [simp del]

text \<open>The part of the file that is kept.\<close>

definition replay_kept :: "replay \<Rightarrow> nat \<Rightarrow> nat \<times> nat" where
  "replay_kept rp pos =
     (case rp_begin rp of None \<Rightarrow> (0, 0)
      | Some b \<Rightarrow> (b, case rp_end rp of None \<Rightarrow> pos | Some e \<Rightarrow> e))"

definition replayandclean1 ::
    "nat \<Rightarrow> kvepoch \<Rightarrow> kvepoch \<Rightarrow> bytes \<Rightarrow> (logrecord list \<times> bytes) option" where
  "replayandclean1 mk mn mx file = do {
     (rp, pos) \<leftarrow> replay_loop mk mn mx file 0 replay_make;
     let (b, e) = replay_kept rp pos;
     Some (rp_runs rp, take (e - b) (drop b file)) }"

section \<open>The epochs of a file\<close>

record info =
  in_first_epoch :: kvepoch
  in_last_epoch :: kvepoch
  in_wake_epoch :: kvepoch
  in_min_post_quiescent_wake_epoch :: kvepoch
  in_quiescent :: bool

definition info_make :: info where
  "info_make = \<lparr>in_first_epoch = 0, in_last_epoch = 0, in_wake_epoch = 0,
     in_min_post_quiescent_wake_epoch = 0, in_quiescent = True\<rparr>"

text \<open>One record of \<open>info\<close>, as compiled with assertions; \<open>None\<close> for a corrupt one.\<close>

definition info_one :: "u32 \<Rightarrow> bytes \<Rightarrow> nat \<Rightarrow> info \<Rightarrow> info option" where
  "info_one command bs n x =
     (let x = x\<lparr>in_quiescent := (command = logcmd_quiesce)\<rparr> in
      if command = logcmd_epoch then
        if n < 16 then None
        else do {
          e \<leftarrow> field bs 8 8;
          let x = (if in_first_epoch x = 0 then x\<lparr>in_first_epoch := e\<rparr> else x);
          let x = x\<lparr>in_last_epoch := e\<rparr>;
          Some (if in_wake_epoch x \<noteq> 0 \<and> ci_gt (in_wake_epoch x) (in_last_epoch x) then x\<lparr>in_wake_epoch := 0\<rparr> else x) }
      else if command = logcmd_wake then Some (x\<lparr>in_wake_epoch := in_last_epoch x\<rparr>)
      else if is_data_command command \<or> command = logcmd_quiesce then Some x
      else None)"

function info_loop :: "bytes \<Rightarrow> info \<Rightarrow> info" where
  "info_loop bs x =
     (if length bs < 8 then x
      else let n = unat (load_le (take 4 (drop 4 bs)) :: u32); command = load_le (take 4 bs) :: u32 in
        if n < 8 \<or> length bs < n then x
        else case info_one command bs n x of
            None \<Rightarrow> x\<lparr>in_quiescent := (command = logcmd_quiesce)\<rparr>
          | Some x \<Rightarrow> info_loop (drop n bs) x)"
  by pat_completeness auto

termination by (relation "measure (\<lambda>(bs, x). length bs)") auto

declare info_loop.simps [simp del]

function min_post_quiescent_loop :: "kvepoch \<Rightarrow> bytes \<Rightarrow> kvepoch \<Rightarrow> kvepoch" where
  "min_post_quiescent_loop quiescent_epoch bs e =
     (if length bs < 8 then 0
      else let n = unat (load_le (take 4 (drop 4 bs)) :: u32); command = load_le (take 4 bs) :: u32 in
        if n < 8 \<or> length bs < n then 0
        else if command = logcmd_epoch then
          if n < 16 then 0
          else min_post_quiescent_loop quiescent_epoch (drop n bs) (load_le (take 8 (drop 8 bs)))
        else if command = logcmd_wake \<and> e \<noteq> 0 \<and> ci_ge e quiescent_epoch then e
        else min_post_quiescent_loop quiescent_epoch (drop n bs) e)"
  by pat_completeness auto

termination by (relation "measure (\<lambda>(q, bs, e). length bs)") auto

declare min_post_quiescent_loop.simps [simp del]

section \<open>The range to replay\<close>

text \<open>
  \<open>recover\<close> of \<^verbatim>\<open>mtd.cc\<close>: the phases that the log threads run are applied to each log in turn.  A
  log without a file leaves its entry as \<open>new\<close> made it, with \<open>quiescent\<close> not initialised (\<open>q0\<close>).
\<close>

definition file_info :: "bool \<Rightarrow> bytes \<Rightarrow> info" where
  "file_info q0 file = (if file = [] then info_make\<lparr>in_quiescent := q0\<rparr> else info_loop file info_make)"

fun max_nonzero :: "kvepoch list \<Rightarrow> kvepoch \<Rightarrow> kvepoch" where
  "max_nonzero [] m = m"
| "max_nonzero (e # es) m = max_nonzero es (if e \<noteq> 0 \<and> (m = 0 \<or> ci_lt m e) then e else m)"

fun min_quiescent :: "info list \<Rightarrow> kvepoch \<Rightarrow> kvepoch" where
  "min_quiescent [] m = m"
| "min_quiescent (x # xs) m =
     min_quiescent xs (if in_quiescent x \<and> (m = 0 \<or> ci_gt m (in_last_epoch x)) then in_last_epoch x else m)"

definition analyze_wake :: "kvepoch \<Rightarrow> bytes \<Rightarrow> info \<Rightarrow> info" where
  "analyze_wake q file x =
     (if file \<noteq> [] \<and> q \<noteq> 0 \<and> ci_le q (in_wake_epoch x)
      then x\<lparr>in_min_post_quiescent_wake_epoch := min_post_quiescent_loop q file 0\<rparr> else x)"

fun upper_bound :: "info list \<Rightarrow> kvepoch \<Rightarrow> kvepoch" where
  "upper_bound [] m = m"
| "upper_bound (x # xs) m =
     (let m = (if \<not> in_quiescent x \<and> in_last_epoch x \<noteq> 0 \<and> ci_lt (in_last_epoch x) m then in_last_epoch x else m);
          w = in_min_post_quiescent_wake_epoch x;
          m = (if w \<noteq> 0 \<and> ci_lt w m then w else m)
      in upper_bound xs m)"

definition recover_range :: "bool \<Rightarrow> bytes list \<Rightarrow> kvepoch \<Rightarrow> kvepoch \<Rightarrow> (kvepoch \<times> kvepoch) option" where
  "recover_range q0 files ckp_min ckp_max =
     (let infos = map (file_info q0) files;
          max_epoch = max_nonzero (map in_last_epoch infos) (if ckp_max \<noteq> 0 then next_nonzero ckp_max else ckp_max);
          max_first_epoch = max_nonzero (map in_first_epoch infos) 0;
          max_wake_epoch = max_nonzero (map in_wake_epoch infos) 0;
          min_quiescent_last_epoch = min_quiescent infos 0;
          q = (if max_wake_epoch \<noteq> 0 \<and> ci_le min_quiescent_last_epoch max_wake_epoch
               then min_quiescent_last_epoch else 0);
          infos = map2 (analyze_wake q) files infos;
          mx = upper_bound infos max_epoch
      in if ckp_min \<noteq> 0 \<and> \<not> (ci_gt ckp_min max_first_epoch \<and> ci_lt ckp_min mx \<and> ci_lt ckp_max mx) then None
         else Some (ckp_min, mx))"

section \<open>Replay in terms of items\<close>

definition run_datum :: "logrecord \<Rightarrow> datum" where
  "run_datum lr = (lr_epoch lr, lr_command lr, lr_key lr, lr_val lr, lr_ts lr,
     if lr_command lr = logcmd_modify then Some (lr_prev_ts lr) else None)"

fun datum_key :: "datum \<Rightarrow> bytes" where "datum_key (e, c, k, v, ts, p) = k"

fun datum_epoch :: "datum \<Rightarrow> kvepoch" where "datum_epoch (e, c, k, v, ts, p) = e"

text \<open>The data that fall into the range, read up to the first epoch that is not below it.\<close>

fun window :: "kvepoch \<Rightarrow> kvepoch \<Rightarrow> kvepoch \<Rightarrow> item list \<Rightarrow> datum list" where
  "window mn mx e [] = []"
| "window mn mx e (It_epoch e' # its) = (if ci_ge e' mx then [] else window mn mx e' its)"
| "window mn mx e (it # its) =
     (if e = 0 \<or> (mn \<noteq> 0 \<and> ci_lt e mn) then [] else filter (\<lambda>d. datum_key d \<noteq> []) (item_data e [it])) @
     window mn mx e its"

fun epochs :: "item list \<Rightarrow> kvepoch list" where
  "epochs [] = []"
| "epochs (It_epoch e # its) = e # epochs its"
| "epochs (it # its) = epochs its"

lemma replay_loop_image:
  assumes "item_ok mk P it"
  shows "replay_loop mk mn mx (item_image it @ r) pos rp =
    (case replay_one mn mx pos (pos + length (item_image it)) (rp\<lparr>rp_lr := lr_read (rp_lr rp) it\<rparr>) of
       None \<Rightarrow> None
     | Some (rp, stop) \<Rightarrow>
         if stop then Some (rp, pos) else replay_loop mk mn mx r (pos + length (item_image it)) rp)"
proof -
  have "item_image it \<noteq> []" by (cases it) (auto simp: store_le_def)
  moreover have "lr_command (lr_read lr it) \<noteq> logcmd_none" for lr
    using assms by (cases it) (auto simp: logcmd_defs)
  ultimately show ?thesis
    using lr_extract_image [OF assms, of "rp_lr rp" r]
    by (subst replay_loop.simps) (simp split: option.split prod.split)
qed

lemma replay_loop_Nil [simp]: "replay_loop mk mn mx [] pos rp = Some (rp, pos)"
  by (simp add: replay_loop.simps)

text \<open>What is asked of a log: records are whole, and epochs are not 0.  With a lower bound, the first epoch
  is below it and epochs do not go back across it.\<close>

definition log_ok :: "nat \<Rightarrow> kvepoch \<Rightarrow> kvepoch \<Rightarrow> item list \<Rightarrow> bool" where
  "log_ok mk mn e its \<longleftrightarrow> (\<forall>it \<in> set its. item_ok mk (\<lambda>e. e \<noteq> 0) it) \<and>
     (mn \<noteq> 0 \<longrightarrow> sorted_wrt (\<lambda>a b. ci_lt b mn \<longrightarrow> ci_lt a mn) (if e = 0 then epochs its else e # epochs its) \<and>
       (e = 0 \<and> epochs its \<noteq> [] \<longrightarrow> ci_lt (hd (epochs its)) mn))"

abbreviation skipped :: "kvepoch \<Rightarrow> kvepoch \<Rightarrow> bool" where
  "skipped mn e \<equiv> e = 0 \<or> (mn \<noteq> 0 \<and> ci_lt e mn)"

lemma images_Cons [simp]: "images (it # its) = item_image it @ images its"
  by (simp add: images_def)

text \<open>The range of items that is kept when the items \<open>its\<close> are replayed from \<open>rp\<close> to \<open>rp'\<close>: either it
  began before, or it begins at an epoch among \<open>its\<close>.\<close>

definition kept_same :: "kvepoch \<Rightarrow> kvepoch \<Rightarrow> kvepoch \<Rightarrow> item list \<Rightarrow> nat \<Rightarrow> replay \<Rightarrow> replay \<Rightarrow> bool" where
  "kept_same mn mx e its pos rp rp' \<longleftrightarrow>
     rp_begin rp' = rp_begin rp \<and> (rp_begin rp = None \<longrightarrow> window mn mx e its = []) \<and>
       (\<exists>st tl. its = st @ tl \<and> window mn mx e st = window mn mx e its \<and>
         (rp_begin rp \<noteq> None \<longrightarrow> rp_end rp' = (if st = [] then rp_end rp else Some (pos + length (images st)))))"

definition kept_new :: "kvepoch \<Rightarrow> kvepoch \<Rightarrow> kvepoch \<Rightarrow> item list \<Rightarrow> nat \<Rightarrow> replay \<Rightarrow> bool" where
  "kept_new mn mx e its pos rp' \<longleftrightarrow>
     (\<exists>dn e0 st tl. its = dn @ (It_epoch e0 # st) @ tl \<and> (mn \<noteq> 0 \<longrightarrow> ci_lt e0 mn) \<and>
       window mn mx 0 (It_epoch e0 # st) = window mn mx e its \<and>
       rp_begin rp' = Some (pos + length (images dn)) \<and>
       rp_end rp' = Some (pos + length (images dn) + length (images (It_epoch e0 # st))))"

lemma kept_same_Cons:
  assumes "kept_same mn mx e2 its (pos + length (item_image it)) rp2 rp'" "rp_begin rp2 = rp_begin rp"
    and "rp_begin rp \<noteq> None \<longrightarrow> rp_end rp2 = Some (pos + length (item_image it))"
    and "\<And>xs. window mn mx e (it # xs) = w @ window mn mx e2 xs" "rp_begin rp = None \<longrightarrow> w = []"
  shows "kept_same mn mx e (it # its) pos rp rp'"
proof -
  obtain st tl where "rp_begin rp' = rp_begin rp2" "rp_begin rp2 = None \<longrightarrow> window mn mx e2 its = []"
    "its = st @ tl" "window mn mx e2 st = window mn mx e2 its" "rp_begin rp2 \<noteq> None \<longrightarrow>
      rp_end rp' = (if st = [] then rp_end rp2 else Some (pos + length (item_image it) + length (images st)))"
    using assms(1) unfolding kept_same_def by (elim conjE exE)
  then show ?thesis
    using assms(2-5) unfolding kept_same_def
    by (intro conjI exI [of _ "it # st"] exI [of _ tl]) (auto simp: add.assoc)
qed

lemma kept_new_Cons:
  assumes "kept_new mn mx e2 its (pos + length (item_image it)) rp'"
    and "window mn mx e (it # its) = window mn mx e2 its"
  shows "kept_new mn mx e (it # its) pos rp'"
proof -
  obtain dn e0 st tl where k: "its = dn @ (It_epoch e0 # st) @ tl" "mn \<noteq> 0 \<longrightarrow> ci_lt e0 mn"
    "window mn mx 0 (It_epoch e0 # st) = window mn mx e2 its"
    "rp_begin rp' = Some (pos + length (item_image it) + length (images dn))"
    "rp_end rp' = Some (pos + length (item_image it) + length (images dn) + length (images (It_epoch e0 # st)))"
    using assms(1) unfolding kept_new_def by blast
  have "it # its = (it # dn) @ (It_epoch e0 # st) @ tl" using k(1) by simp
  moreover have "window mn mx 0 (It_epoch e0 # st) = window mn mx e (it # its)" using k(3) assms(2) by simp
  moreover have "rp_begin rp' = Some (pos + length (images (it # dn)))"
    "rp_end rp' = Some (pos + length (images (it # dn)) + length (images (It_epoch e0 # st)))"
    using k(4,5) by simp_all
  ultimately show ?thesis using k(2) unfolding kept_new_def by blast
qed

lemma kept_begin:
  assumes "kept_same mn mx e2 its (pos + 16) rp2 rp'" "rp_begin rp2 = Some pos" "rp_end rp2 = Some (pos + 16)"
    and "mn \<noteq> 0 \<longrightarrow> ci_lt e2 mn" "\<not> ci_ge e2 mx"
  shows "kept_new mn mx e (It_epoch e2 # its) pos rp'"
proof -
  obtain st tl where k: "rp_begin rp' = Some pos" "its = st @ tl" "window mn mx e2 st = window mn mx e2 its"
    "rp_end rp' = (if st = [] then rp_end rp2 else Some (pos + 16 + length (images st)))"
    using assms(1,2) unfolding kept_same_def by auto
  have "It_epoch e2 # its = [] @ (It_epoch e2 # st) @ tl" using k(2) by simp
  moreover have "window mn mx 0 (It_epoch e2 # st) = window mn mx e (It_epoch e2 # its)" using k(3) assms(5) by simp
  moreover have "rp_begin rp' = Some (pos + length (images []))"
    "rp_end rp' = Some (pos + length (images []) + length (images (It_epoch e2 # st)))"
    using k(1,4) assms(3) by simp_all
  ultimately show ?thesis using assms(4) unfolding kept_new_def by blast
qed

text \<open>The three cases of \<open>replay_one\<close>: an epoch that ends the range, a record outside, a record inside.\<close>

lemma replay_one_item:
  assumes "item_ok mk P it" "\<forall>e. it \<noteq> It_epoch e" "lr_epoch (rp_lr rp) = e" "rp_begin rp = None \<longrightarrow> e = 0"
  shows "\<exists>rp2 w. replay_one mn mx pos nx (rp\<lparr>rp_lr := lr_read (rp_lr rp) it\<rparr>) = Some (rp2, False) \<and>
    rp_lr rp2 = lr_read (rp_lr rp) it \<and> lr_epoch (rp_lr rp2) = e \<and> rp_begin rp2 = rp_begin rp \<and>
    (rp_begin rp \<noteq> None \<longrightarrow> rp_end rp2 = Some nx) \<and>
    map run_datum (rp_runs rp2) = map run_datum (rp_runs rp) @ w \<and>
    (\<forall>xs. window mn mx e (it # xs) = w @ window mn mx e xs) \<and> (skipped mn e \<longrightarrow> w = [])"
proof -
  have ne: "lr_command (lr_read (rp_lr rp) it) \<noteq> logcmd_epoch" "lr_epoch (lr_read (rp_lr rp) it) = e"
    using assms(1,2,3) by (cases it; auto simp: logcmd_defs)+
  let ?w = "if skipped mn e then [] else filter (\<lambda>d. datum_key d \<noteq> []) (item_data e [it])"
  have win: "window mn mx e (it # xs) = ?w @ window mn mx e xs" for xs
    using assms(2) by (cases it) auto
  show ?thesis
  proof (cases "skipped mn e")
    case True
    then show ?thesis
      using ne win by (auto simp: replay_one_def Let_def)
  next
    case False
    then have b: "rp_begin rp \<noteq> None" using assms(4) by auto
    let ?lr = "lr_read (rp_lr rp) it"
    have w: "?w = (if lr_key ?lr \<noteq> [] \<and> is_data_command (lr_command ?lr) then [run_datum ?lr] else [])"
      using False assms(1,2,3) by (cases it) (auto simp: is_data_command_def run_datum_def logcmd_defs)
    have "window mn mx e (it # xs) = (if lr_key ?lr \<noteq> [] \<and> is_data_command (lr_command ?lr) then [run_datum ?lr] else []) @
        window mn mx e xs" for xs
      using win w by simp
    then show ?thesis
      using False ne b by (auto simp: replay_one_def Let_def)
  qed
qed

lemma replay_one_epoch:
  assumes "e' \<noteq> 0" "rp_begin rp = None \<longrightarrow> mn = 0 \<or> ci_lt e' mn"
  shows "\<exists>rp2. replay_one mn mx pos nx (rp\<lparr>rp_lr := lr_read (rp_lr rp) (It_epoch e')\<rparr>) = Some (rp2, ci_ge e' mx) \<and>
    rp_lr rp2 = lr_read (rp_lr rp) (It_epoch e') \<and>
    rp_begin rp2 = (if mn \<noteq> 0 \<and> ci_lt e' mn \<or> mn = 0 \<and> rp_begin rp = None then Some pos else rp_begin rp) \<and>
    rp_end rp2 = Some nx \<and> rp_runs rp2 = rp_runs rp"
  using assms by (auto simp: replay_one_def Let_def is_data_command_def logcmd_defs)

lemma log_ok_epoch:
  assumes "log_ok mk mn e (It_epoch e' # its)"
  shows "log_ok mk mn e' its" "e' \<noteq> 0" "mn \<noteq> 0 \<Longrightarrow> e = 0 \<Longrightarrow> ci_lt e' mn"
    "mn \<noteq> 0 \<Longrightarrow> ci_lt e' mn \<Longrightarrow> skipped mn e"
  using assms by (auto simp: log_ok_def split: if_splits)

lemma log_ok_item:
  assumes "log_ok mk mn e (it # its)" "\<forall>e. it \<noteq> It_epoch e"
  shows "log_ok mk mn e its" "item_ok mk (\<lambda>e. e \<noteq> 0) it"
  using assms by (cases it; auto simp: log_ok_def)+

text \<open>An epoch that ends the range, and one that does not.\<close>

lemma kept_epoch_stop:
  assumes "rp_begin rp2 = (if mn \<noteq> 0 \<and> ci_lt e' mn \<or> mn = 0 \<and> rp_begin rp = None then Some pos else rp_begin rp)"
    and "rp_end rp2 = Some (pos + 16)" "ci_ge e' mx" "rp_begin rp2 \<noteq> None"
    and "mn \<noteq> 0 \<and> ci_lt e' mn \<or> mn = 0 \<and> rp_begin rp = None \<Longrightarrow> skipped mn e"
  shows "kept_same mn mx e (It_epoch e' # its) pos rp rp2 \<or> skipped mn e \<and> kept_new mn mx e (It_epoch e' # its) pos rp2"
proof (cases "rp_begin rp2 = rp_begin rp")
  case True
  then have "kept_same mn mx e (It_epoch e' # its) pos rp rp2"
    using assms(2-4) unfolding kept_same_def by (intro conjI exI [of _ "[It_epoch e']"] exI [of _ its]) auto
  then show ?thesis ..
next
  case False
  then have c: "mn \<noteq> 0 \<and> ci_lt e' mn \<or> mn = 0 \<and> rp_begin rp = None" "rp_begin rp2 = Some pos"
    using assms(1) by (auto split: if_splits)
  have "It_epoch e' # its = [] @ (It_epoch e' # []) @ its" by simp
  moreover have "window mn mx 0 (It_epoch e' # []) = window mn mx e (It_epoch e' # its)" using assms(3) by simp
  moreover have "rp_begin rp2 = Some (pos + length (images []))"
    "rp_end rp2 = Some (pos + length (images []) + length (images (It_epoch e' # [])))"
    using c(2) assms(2) by simp_all
  moreover have "mn \<noteq> 0 \<longrightarrow> ci_lt e' mn" "skipped mn e" using c(1) assms(5) by auto
  ultimately show ?thesis unfolding kept_new_def by blast
qed

lemma kept_epoch_go:
  assumes "kept_same mn mx e' its (pos + 16) rp2 rp' \<or> skipped mn e' \<and> kept_new mn mx e' its (pos + 16) rp'"
    and "rp_begin rp2 = (if mn \<noteq> 0 \<and> ci_lt e' mn \<or> mn = 0 \<and> rp_begin rp = None then Some pos else rp_begin rp)"
    and "rp_end rp2 = Some (pos + 16)" "\<not> ci_ge e' mx" "skipped mn e' \<longrightarrow> skipped mn e"
    and "mn \<noteq> 0 \<and> ci_lt e' mn \<or> mn = 0 \<and> rp_begin rp = None \<Longrightarrow> skipped mn e"
  shows "kept_same mn mx e (It_epoch e' # its) pos rp rp' \<or> skipped mn e \<and> kept_new mn mx e (It_epoch e' # its) pos rp'"
proof -
  have len: "length (item_image (It_epoch e')) = 16" by simp
  have win: "window mn mx e (It_epoch e' # xs) = [] @ window mn mx e' xs" for xs using assms(4) by simp
  from assms(1) show ?thesis
  proof
    assume k: "kept_same mn mx e' its (pos + 16) rp2 rp'"
    show ?thesis
    proof (cases "rp_begin rp2 = rp_begin rp")
      case True
      then have "kept_same mn mx e (It_epoch e' # its) pos rp rp'"
        using k assms(3) len by (intro kept_same_Cons [OF _ True _ win]) simp_all
      then show ?thesis ..
    next
      case False
      then have c: "mn \<noteq> 0 \<and> ci_lt e' mn \<or> mn = 0 \<and> rp_begin rp = None" "rp_begin rp2 = Some pos"
        using assms(2) by (auto split: if_splits)
      then have "skipped mn e" "mn \<noteq> 0 \<longrightarrow> ci_lt e' mn" using assms(6) by auto
      then show ?thesis using kept_begin [OF k c(2) assms(3) _ assms(4)] by blast
    qed
  next
    assume k: "skipped mn e' \<and> kept_new mn mx e' its (pos + 16) rp'"
    then have "kept_new mn mx e' its (pos + length (item_image (It_epoch e'))) rp'" using len by simp
    then show ?thesis using kept_new_Cons win [of its] assms(5) k by (metis append_Nil)
  qed
qed

lemma replay_loop_items:
  assumes "log_ok mk mn e its" "lr_epoch (rp_lr rp) = e" "rp_begin rp = None \<longleftrightarrow> e = 0"
    and "skipped mn e \<longrightarrow> rp_runs rp = []"
  shows "\<exists>rp' pos'. replay_loop mk mn mx (images its) pos rp = Some (rp', pos') \<and>
    map run_datum (rp_runs rp') = map run_datum (rp_runs rp) @ window mn mx e its \<and>
    (kept_same mn mx e its pos rp rp' \<or> skipped mn e \<and> kept_new mn mx e its pos rp')"
  using assms
proof (induction its arbitrary: e pos rp)
  case Nil
  then show ?case by (auto simp: kept_same_def)
next
  case (Cons it its)
  show ?case
  proof (cases "\<exists>e'. it = It_epoch e'")
    case True
    then obtain e' where it: "it = It_epoch e'" by blast
    note ok = log_ok_epoch [OF Cons.prems(1) [unfolded it]]
    have b: "rp_begin rp = None \<longrightarrow> mn = 0 \<or> ci_lt e' mn" using Cons.prems(3) ok(3) by auto
    obtain rp2 where rp2: "replay_one mn mx pos (pos + 16) (rp\<lparr>rp_lr := lr_read (rp_lr rp) (It_epoch e')\<rparr>) =
        Some (rp2, ci_ge e' mx)" "rp_lr rp2 = lr_read (rp_lr rp) (It_epoch e')"
      "rp_begin rp2 = (if mn \<noteq> 0 \<and> ci_lt e' mn \<or> mn = 0 \<and> rp_begin rp = None then Some pos else rp_begin rp)"
      "rp_end rp2 = Some (pos + 16)" "rp_runs rp2 = rp_runs rp"
      using replay_one_epoch [OF ok(2) b, of mx pos "pos + 16"] by auto
    have some: "rp_begin rp2 \<noteq> None" using rp2(3) b by auto
    have loop: "replay_loop mk mn mx (images (it # its)) pos rp =
        (if ci_ge e' mx then Some (rp2, pos) else replay_loop mk mn mx (images its) (pos + 16) rp2)"
      using replay_loop_image [of mk "\<lambda>e. True" it mn mx "images its" pos rp] rp2(1) it by simp
    show ?thesis
    proof (cases "ci_ge e' mx")
      case True
      have "kept_same mn mx e (it # its) pos rp rp2 \<or> skipped mn e \<and> kept_new mn mx e (it # its) pos rp2"
        unfolding it by (rule kept_epoch_stop [OF rp2(3,4) True some]) (use ok(4) Cons.prems(3) in blast)
      then show ?thesis using loop True rp2(5) it by simp
    next
      case False
      have sk: "skipped mn e' \<longrightarrow> skipped mn e" using ok(2,4) by blast
      have a: "lr_epoch (rp_lr rp2) = e'" "rp_begin rp2 = None \<longleftrightarrow> e' = 0"
        using rp2(2) some ok(2) by simp_all
      have "skipped mn e' \<longrightarrow> rp_runs rp2 = []" unfolding rp2(5) using sk Cons.prems(4) by blast
      from Cons.IH [OF ok(1) a this, of "pos + 16"]
      obtain rp' pos' where r: "replay_loop mk mn mx (images its) (pos + 16) rp2 = Some (rp', pos')"
        "map run_datum (rp_runs rp') = map run_datum (rp_runs rp2) @ window mn mx e' its"
        "kept_same mn mx e' its (pos + 16) rp2 rp' \<or> skipped mn e' \<and> kept_new mn mx e' its (pos + 16) rp'"
        by (elim exE conjE)
      have win: "window mn mx e (it # xs) = [] @ window mn mx e' xs" for xs using it False by simp
      have "kept_same mn mx e (it # its) pos rp rp' \<or> skipped mn e \<and> kept_new mn mx e (it # its) pos rp'"
        unfolding it by (rule kept_epoch_go [OF r(3) rp2(3,4) False sk]) (use ok(4) Cons.prems(3) in blast)
      then show ?thesis using loop False r(1,2) rp2(5) win [of its] by simp
    qed
  next
    case False
    then have ne: "\<forall>e. it \<noteq> It_epoch e" by blast
    note ok = log_ok_item [OF Cons.prems(1) ne]
    let ?n = "pos + length (item_image it)"
    have b: "rp_begin rp = None \<longrightarrow> e = 0" using Cons.prems(3) by blast
    obtain rp2 w where rp2: "replay_one mn mx pos ?n (rp\<lparr>rp_lr := lr_read (rp_lr rp) it\<rparr>) = Some (rp2, False)"
      "lr_epoch (rp_lr rp2) = e" "rp_begin rp2 = rp_begin rp" "rp_begin rp \<noteq> None \<longrightarrow> rp_end rp2 = Some ?n"
      "map run_datum (rp_runs rp2) = map run_datum (rp_runs rp) @ w"
      "\<forall>xs. window mn mx e (it # xs) = w @ window mn mx e xs" "skipped mn e \<longrightarrow> w = []"
      using replay_one_item [OF ok(2) ne Cons.prems(2) b, of mn mx pos ?n] by blast
    have a: "rp_begin rp2 = None \<longleftrightarrow> e = 0" using rp2(3) Cons.prems(3) by simp
    have "skipped mn e \<longrightarrow> rp_runs rp2 = []" using rp2(5,7) Cons.prems(4) by auto
    from Cons.IH [OF ok(1) rp2(2) a this, of ?n] obtain rp' pos' where r: "replay_loop mk mn mx (images its) ?n rp2 = Some (rp', pos')"
      "map run_datum (rp_runs rp') = map run_datum (rp_runs rp2) @ window mn mx e its"
      "kept_same mn mx e its ?n rp2 rp' \<or> skipped mn e \<and> kept_new mn mx e its ?n rp'"
      by (elim exE conjE)
    have win: "\<And>xs. window mn mx e (it # xs) = w @ window mn mx e xs" using rp2(6) by blast
    have w0: "rp_begin rp = None \<longrightarrow> w = []" using b rp2(7) by blast
    from r(3) have "kept_same mn mx e (it # its) pos rp rp' \<or> skipped mn e \<and> kept_new mn mx e (it # its) pos rp'"
    proof
      assume "kept_same mn mx e its ?n rp2 rp'"
      then show ?thesis using kept_same_Cons [OF _ rp2(3,4) win w0] by blast
    next
      assume "skipped mn e \<and> kept_new mn mx e its ?n rp'"
      then show ?thesis using kept_new_Cons [of mn mx e its pos it rp' e] win [of its] rp2(7) by simp
    qed
    moreover have "replay_loop mk mn mx (images (it # its)) pos rp = Some (rp', pos')"
      using replay_loop_image [OF ok(2), of mn mx "images its" pos rp] rp2(1) r(1) by simp
    ultimately show ?thesis using r(2) rp2(5) win [of its] by (intro exI conjI) auto
  qed
qed

section \<open>Properties\<close>

lemma epochs_append [simp]: "epochs (xs @ ys) = epochs xs @ epochs ys"
  by (induction xs rule: epochs.induct) auto

lemma log_ok_part:
  assumes "log_ok mk mn 0 (dn @ (It_epoch e0 # st) @ en)" "mn \<noteq> 0 \<longrightarrow> ci_lt e0 mn"
  shows "log_ok mk mn 0 (It_epoch e0 # st)"
proof -
  let ?R = "\<lambda>a b. ci_lt b mn \<longrightarrow> ci_lt a mn"
  have "\<forall>it \<in> set (It_epoch e0 # st). item_ok mk (\<lambda>e. e \<noteq> 0) it" using assms(1) by (simp add: log_ok_def)
  moreover have "mn \<noteq> 0 \<longrightarrow> sorted_wrt ?R (epochs (It_epoch e0 # st))"
    using assms by (simp add: log_ok_def sorted_wrt_append)
  ultimately show ?thesis using assms(2) unfolding log_ok_def by simp
qed

lemma take_drop_images:
  "take (length (images st)) (drop (length (images dn)) (images (dn @ st @ en))) = images st"
  by simp

lemma replayandclean1_items:
  assumes "log_ok mk mn 0 its"
  shows "\<exists>runs its'. replayandclean1 mk mn mx (images its) = Some (runs, images its') \<and>
    map run_datum runs = window mn mx 0 its \<and> log_ok mk mn 0 its' \<and> window mn mx 0 its' = window mn mx 0 its \<and>
    set its' \<subseteq> set its"
proof -
  have init: "lr_epoch (rp_lr replay_make) = 0" "rp_begin replay_make = None \<longleftrightarrow> (0 :: kvepoch) = 0"
    "skipped mn 0 \<longrightarrow> rp_runs replay_make = []"
    by (simp_all add: replay_make_def logrecord_make_def)
  obtain rp pos where r: "replay_loop mk mn mx (images its) 0 replay_make = Some (rp, pos)"
    "map run_datum (rp_runs rp) = map run_datum (rp_runs replay_make) @ window mn mx 0 its"
    "kept_same mn mx 0 its 0 replay_make rp \<or> skipped mn 0 \<and> kept_new mn mx 0 its 0 rp"
    using replay_loop_items [OF assms init, of mx 0] by (elim exE conjE)
  have runs: "map run_datum (rp_runs rp) = window mn mx 0 its" using r(2) by (simp add: replay_make_def)
  from r(3) show ?thesis
  proof
    assume "kept_same mn mx 0 its 0 replay_make rp"
    then have "rp_begin rp = None" "window mn mx 0 its = []" by (auto simp: kept_same_def replay_make_def)
    then have "replayandclean1 mk mn mx (images its) = Some (rp_runs rp, images [])"
      using r(1) by (simp add: replayandclean1_def replay_kept_def)
    then show ?thesis
      using runs \<open>window mn mx 0 its = []\<close>
      by (intro exI [of _ "rp_runs rp"] exI [of _ "[]"]) (simp add: log_ok_def)
  next
    assume "skipped mn 0 \<and> kept_new mn mx 0 its 0 rp"
    then obtain dn e0 st tl where k: "its = dn @ (It_epoch e0 # st) @ tl" "mn \<noteq> 0 \<longrightarrow> ci_lt e0 mn"
      "window mn mx 0 (It_epoch e0 # st) = window mn mx 0 its" "rp_begin rp = Some (length (images dn))"
      "rp_end rp = Some (length (images dn) + length (images (It_epoch e0 # st)))"
      unfolding kept_new_def by auto
    have "replayandclean1 mk mn mx (images its) = Some (rp_runs rp, images (It_epoch e0 # st))"
      using r(1) k(4,5) take_drop_images [of "It_epoch e0 # st" dn tl] k(1)
      by (simp add: replayandclean1_def replay_kept_def)
    moreover have "log_ok mk mn 0 (It_epoch e0 # st)"
      using log_ok_part [OF assms [unfolded k(1)] k(2)] .
    ultimately show ?thesis
      using runs k(1,3) by (intro exI [of _ "rp_runs rp"] exI [of _ "It_epoch e0 # st"]) auto
  qed
qed



lemma window_all:
  assumes "\<forall>it \<in> set its. item_ok mk (\<lambda>x. x \<noteq> 0 \<and> ci_lt x mx) it"
  shows "e \<noteq> 0 \<Longrightarrow> window 0 mx e its = filter (\<lambda>d. datum_key d \<noteq> []) (item_data e its)"
  using assms by (induction e its rule: item_data.induct) (auto simp: ci_ge_def ci_lt_def)

lemma item_data_first:
  assumes "item_data 0 its = ds" "\<forall>d \<in> set ds. datum_epoch d \<noteq> 0"
    and "\<forall>it \<in> set its. item_ok mk (\<lambda>x. x \<noteq> 0 \<and> ci_lt x mx) it"
  shows "window 0 mx 0 its = filter (\<lambda>d. datum_key d \<noteq> []) ds"
  using assms
proof (induction its arbitrary: ds)
  case (Cons it its)
  show ?case
  proof (cases it)
    case (It_epoch e)
    then show ?thesis
      using Cons.prems window_all [of its mk mx e] by (simp add: ci_ge_def ci_lt_def)
  qed (use Cons in auto)
qed simp

lemma log_step_epochs:
  assumes "log_step ev lg = Some (lg', ds)" "event_ok mk P ev"
  shows "\<forall>d \<in> set ds. P (datum_epoch d)"
proof (cases ev)
  case (Ev_run ge)
  have "ds = []"
  proof (cases "lg_out lg = None")
    case True
    obtain li where "run_quiesce False ge (lg_gwe lg) (lg_li lg) = Some li"
      using assms(1) Ev_run True by (auto simp: bind_eq_Some_conv)
    moreover obtain l x o' where "run_swap False (lg_xbuf lg) li = (l, x, o')" by (rule prod_cases3)
    ultimately show ?thesis using assms(1) Ev_run True by simp
  qed (use assms(1) Ev_run in auto)
  then show ?thesis by simp
qed (use assms in \<open>auto simp: query_datum_def bind_eq_Some_conv split: if_splits option.split_asm\<close>)

lemma log_run_epochs:
  assumes "log_run evs lg = Some (lg', ds)" "\<forall>ev \<in> set evs. event_ok mk P ev"
  shows "\<forall>d \<in> set ds. P (datum_epoch d)"
  using assms
proof (induction evs arbitrary: lg ds)
  case (Cons ev evs)
  then obtain lg1 d1 d2 where "log_step ev lg = Some (lg1, d1)" "log_run evs lg1 = Some (lg', d2)" "ds = d1 @ d2"
    by (auto simp: bind_eq_Some_conv)
  then show ?case using Cons.IH [of lg1 d2] log_step_epochs [of ev lg lg1 d1 mk P] Cons.prems(2) by auto
qed simp

text \<open>C20: what is logged is what is replayed.  Whatever the interleaving of callers of \<open>record\<close>, log
  thread and other logs, every call that returned is in the file, in this order and under its
  epoch, once the buffer has been written; replaying the file gives back exactly these records,
  except those with an empty key.\<close>

theorem log_then_replay:
  assumes "\<forall>ev \<in> set evs. event_ok mk (\<lambda>e. e \<noteq> 0 \<and> ci_lt e mx) ev" "32 \<le> length buf" "32 \<le> length x_buf"
  shows "\<exists>lg ds. log_run evs (logger_make buf x_buf) = Some (lg, ds) \<and>
    (lg_out lg = None \<and> li_pos (lg_li lg) = 0 \<longrightarrow>
      (\<exists>runs file'. replayandclean1 mk 0 mx (lg_file lg) = Some (runs, file') \<and>
        map run_datum runs = filter (\<lambda>d. datum_key d \<noteq> []) ds))"
proof -
  let ?P = "\<lambda>e. e \<noteq> 0 \<and> ci_lt e mx"
  obtain lg ds its where r: "log_run evs (logger_make buf x_buf) = Some (lg, ds)"
    "log_inv mk ?P lg ([] @ its)" "item_data (last_epoch 0 []) its = ds"
    using log_run_inv [OF logger_make_inv [OF assms(2,3)] assms(1)] by (elim exE conjE)
  have ok: "\<forall>it \<in> set its. item_ok mk ?P it" using r(2) by (simp add: log_inv_def)
  have "item_ok mk ?P it \<Longrightarrow> item_ok mk (\<lambda>e. e \<noteq> 0) it" for it by (cases it) auto
  with ok have "log_ok mk 0 0 its" by (simp add: log_ok_def)
  from replayandclean1_items [OF this, of mx] obtain runs its' where
    p: "replayandclean1 mk 0 mx (images its) = Some (runs, images its')" "map run_datum runs = window 0 mx 0 its"
    by (elim exE conjE)
  have "window 0 mx 0 its = filter (\<lambda>d. datum_key d \<noteq> []) ds"
    using item_data_first [OF _ _ ok, of ds] r(3) log_run_epochs [OF r(1) assms(1)] by simp
  moreover have "lg_file lg = images its" if "lg_out lg = None" "li_pos (lg_li lg) = 0"
    using r(2) that by (simp add: log_inv_def li_content_def)
  ultimately show ?thesis using r(1) p by auto
qed

lemma log_then_replay_witness:
  "\<exists>lg ds. log_run [Ev_record 0 logcmd_put \<lparr>qt_epoch = 1, qt_ts = 6, qt_prev_ts = 4\<rparr> [97] [0, 161, 66], Ev_run 1, Ev_write]
      (logger_make (replicate 64 0) (replicate 64 0)) = Some (lg, ds) \<and>
    (lg_out lg = None \<and> li_pos (lg_li lg) = 0 \<longrightarrow>
      (\<exists>runs file'. replayandclean1 255 0 9 (lg_file lg) = Some (runs, file') \<and>
        map run_datum runs = filter (\<lambda>d. datum_key d \<noteq> []) ds))"
  by (rule log_then_replay) (simp_all add: record_ok_def ci_lt_def less_def)

text \<open>Records of the empty key are written but never run.\<close>

lemma empty_key_not_replayed:
  assumes "log_ok mk mn 0 its" "replayandclean1 mk mn mx (images its) = Some (runs, file)" "lr \<in> set runs"
  shows "lr_key lr \<noteq> []"
proof -
  have "map run_datum runs = window mn mx 0 its"
    using replayandclean1_items [OF assms(1), of mx] assms(2) by auto
  moreover have "\<forall>d \<in> set (window mn mx e its). datum_key d \<noteq> []" for e
    by (induction mn mx e its rule: window.induct) auto
  ultimately have "\<forall>d \<in> run_datum ` set runs. datum_key d \<noteq> []" by (metis list.set_map)
  then show ?thesis using assms(3) by (auto simp: run_datum_def)
qed

text \<open>A \<open>logcmd_modify\<close> record at the end of the file: its key length is read before its size is checked.\<close>

lemma modify_reads_past_end:
  assumes "bs = store_le 4 logcmd_modify @ store_le 4 (8 :: u32)"
  shows "lr_extract mk lr bs = None"
proof -
  have "field bs 0 4 = Some logcmd_modify" "field bs 4 4 = Some (8 :: u32)"
    using lr_extract_head [of bs logcmd_modify 8 "[]"] assms by simp_all
  moreover have "(field bs 24 4 :: u32 option) = None" using assms by (simp add: field_def get_bytes_def)
  ultimately show ?thesis
    using assms unfolding lr_extract_def Let_def by (simp add: logcmd_defs)
qed

text \<open>
  \<open>record\<close> lets a caller that finds room write at once, although others wait in line: the condition
  is \<open>wait.next == &wait || f_.waiting_ == &wait\<close>, and a caller that is not in line satisfies the first part.
  The callers in line loaded their epochs earlier.
\<close>

definition jump_events :: "log_event list" where
  "jump_events = (let q = (\<lambda>e ts. \<lparr>qt_epoch = e, qt_ts = ts, qt_prev_ts = 0\<rparr>) in
     [Ev_record 0 logcmd_replace (q 1 2) [97] [1], Ev_record 1 logcmd_replace (q 1 4) [98] [2],
      Ev_run 1, Ev_record 2 logcmd_replace (q 2 6) [99] [3], Ev_write, Ev_run 2,
      Ev_record 1 logcmd_replace (q 1 4) [98] [2], Ev_write, Ev_run 2, Ev_write])"

lemma jump_events_run:
  "map_option (\<lambda>(lg, ds). (map datum_epoch ds, lg_out lg, li_pos (lg_li lg)))
     (log_run jump_events (logger_make (replicate 64 0) (replicate 64 0))) = Some ([1, 2, 1], None, 0)"
  by code_simp

lemma window_prefix:
  assumes "mx \<noteq> 0" "e = 0 \<or> \<not> ci_ge e mx" "\<forall>d \<in> set (item_data e its). datum_epoch d \<noteq> 0"
  shows "\<exists>j. window 0 mx e its = filter (\<lambda>d. datum_key d \<noteq> []) (take j (item_data e its)) \<and>
    (\<forall>d \<in> set (take j (item_data e its)). \<not> ci_ge (datum_epoch d) mx)"
  using assms
proof (induction e its rule: item_data.induct)
  case (2 e e' its)
  then show ?case by (cases "ci_ge e' mx") (auto intro: exI [of _ 0])
next
  case (4 e c key val ts pad its)
  then obtain j where "window 0 mx e its = filter (\<lambda>d. datum_key d \<noteq> []) (take j (item_data e its))"
    "\<forall>d \<in> set (take j (item_data e its)). \<not> ci_ge (datum_epoch d) mx" by auto
  then show ?case using 4(3,4) by (intro exI [of _ "Suc j"]) auto
next
  case (5 e key val prev_ts ts pad its)
  then obtain j where "window 0 mx e its = filter (\<lambda>d. datum_key d \<noteq> []) (take j (item_data e its))"
    "\<forall>d \<in> set (take j (item_data e its)). \<not> ci_ge (datum_epoch d) mx" by auto
  then show ?case using 5(3,4) by (intro exI [of _ "Suc j"]) auto
qed auto


section \<open>The range is safe\<close>

lemma ahead_shift:
  fixes base a b :: u64
  assumes "ahead base a \<le> ahead base b"
  shows "ahead a b = ahead base b - ahead base a"
proof -
  have "unat ((b - base) - (a - base)) = unat (b - base) - unat (a - base)"
    using assms by (intro unat_sub) (simp add: word_le_nat_alt ahead_def)
  then show ?thesis by (simp add: ahead_def)
qed

lemma ci_lt_rank:
  fixes base a b :: u64
  assumes "ahead base a < 2 ^ 63" "ahead base b < 2 ^ 63"
  shows "ci_lt a b \<longleftrightarrow> ahead base a < ahead base b"
proof (cases "ahead base a \<le> ahead base b")
  case True
  then show ?thesis using assms ahead_shift [OF True] by (auto simp: ci_lt_def less_ahead)
next
  case False
  then have "ahead b a = ahead base a - ahead base b" by (intro ahead_shift) simp
  moreover have "a \<noteq> b" using False by auto
  ultimately have "\<not> ahead a b \<le> 2 ^ 63" using epoch.dist_swap [of a b] assms False by simp
  then show ?thesis using False by (simp add: ci_lt_def less_ahead)
qed

abbreviation in_window :: "kvepoch \<Rightarrow> kvepoch \<Rightarrow> bool" where
  "in_window base e \<equiv> ahead base e < 2 ^ 63"

lemma lower_step:
  assumes "in_window base e" "in_window base m"
  shows "in_window base (if C \<and> ci_lt e m then e else m) \<and>
    ahead base (if C \<and> ci_lt e m then e else m) \<le> ahead base m \<and>
    (C \<longrightarrow> ahead base (if C \<and> ci_lt e m then e else m) \<le> ahead base e)"
  using assms ci_lt_rank [OF assms] by auto

lemma upper_bound_rank:
  assumes "in_window base m"
    and "\<forall>x \<in> set xs. in_window base (in_last_epoch x) \<and> in_window base (in_min_post_quiescent_wake_epoch x)"
  shows "in_window base (upper_bound xs m) \<and> ahead base (upper_bound xs m) \<le> ahead base m \<and>
    (\<forall>x \<in> set xs. (\<not> in_quiescent x \<and> in_last_epoch x \<noteq> 0 \<longrightarrow> ahead base (upper_bound xs m) \<le> ahead base (in_last_epoch x)) \<and>
      (in_min_post_quiescent_wake_epoch x \<noteq> 0 \<longrightarrow>
        ahead base (upper_bound xs m) \<le> ahead base (in_min_post_quiescent_wake_epoch x)))"
  using assms
proof (induction xs arbitrary: m)
  case (Cons x xs)
  let ?l = "in_last_epoch x" and ?w = "in_min_post_quiescent_wake_epoch x"
  have w: "in_window base ?l" "in_window base ?w" using Cons.prems(2) by simp_all
  obtain m1 where 1: "m1 = (if (\<not> in_quiescent x \<and> ?l \<noteq> 0) \<and> ci_lt ?l m then ?l else m)" by blast
  obtain m2 where 2: "m2 = (if ?w \<noteq> 0 \<and> ci_lt ?w m1 then ?w else m1)" by blast
  have r1: "in_window base m1 \<and> ahead base m1 \<le> ahead base m \<and>
      (\<not> in_quiescent x \<and> ?l \<noteq> 0 \<longrightarrow> ahead base m1 \<le> ahead base ?l)"
    unfolding 1 by (rule lower_step [OF w(1) Cons.prems(1)])
  then have m1: "in_window base m1" by blast
  have r2: "in_window base m2 \<and> ahead base m2 \<le> ahead base m1 \<and> (?w \<noteq> 0 \<longrightarrow> ahead base m2 \<le> ahead base ?w)"
    unfolding 2 by (rule lower_step [OF w(2) m1])
  then have m2: "in_window base m2" by blast
  have ub: "upper_bound (x # xs) m = upper_bound xs m2" unfolding 2 1 by (simp add: Let_def conj_assoc)
  have IH: "in_window base (upper_bound xs m2) \<and> ahead base (upper_bound xs m2) \<le> ahead base m2 \<and>
    (\<forall>x \<in> set xs. (\<not> in_quiescent x \<and> in_last_epoch x \<noteq> 0 \<longrightarrow> ahead base (upper_bound xs m2) \<le> ahead base (in_last_epoch x)) \<and>
      (in_min_post_quiescent_wake_epoch x \<noteq> 0 \<longrightarrow>
        ahead base (upper_bound xs m2) \<le> ahead base (in_min_post_quiescent_wake_epoch x)))"
    by (rule Cons.IH [OF m2]) (use Cons.prems(2) in simp)
  show ?case
    unfolding ub using IH r1 r2 by (auto intro: order_trans)
qed simp

lemma max_nonzero_rank:
  assumes "in_window base m" "\<forall>e \<in> set es. in_window base e"
  shows "in_window base (max_nonzero es m) \<and> (m \<noteq> 0 \<longrightarrow> ahead base m \<le> ahead base (max_nonzero es m)) \<and>
    (m \<noteq> 0 \<longrightarrow> max_nonzero es m \<noteq> 0) \<and>
    (\<forall>e \<in> set es. e \<noteq> 0 \<longrightarrow> max_nonzero es m \<noteq> 0 \<and> ahead base e \<le> ahead base (max_nonzero es m))"
  using assms
proof (induction es arbitrary: m)
  case (Cons e es)
  obtain m' where m': "m' = (if e \<noteq> 0 \<and> (m = 0 \<or> ci_lt m e) then e else m)" by blast
  have r: "in_window base m'" "m \<noteq> 0 \<longrightarrow> m' \<noteq> 0 \<and> ahead base m \<le> ahead base m'"
    "e \<noteq> 0 \<longrightarrow> m' \<noteq> 0 \<and> ahead base e \<le> ahead base m'"
    using Cons.prems ci_lt_rank [of base m e] unfolding m' by auto
  have "max_nonzero (e # es) m = max_nonzero es m'" unfolding m' by simp
  moreover have "in_window base (max_nonzero es m') \<and> (m' \<noteq> 0 \<longrightarrow> ahead base m' \<le> ahead base (max_nonzero es m')) \<and>
    (m' \<noteq> 0 \<longrightarrow> max_nonzero es m' \<noteq> 0) \<and>
    (\<forall>e \<in> set es. e \<noteq> 0 \<longrightarrow> max_nonzero es m' \<noteq> 0 \<and> ahead base e \<le> ahead base (max_nonzero es m'))"
    by (rule Cons.IH [OF r(1)]) (use Cons.prems(2) in simp)
  ultimately show ?case using r(2,3) by (auto intro: order_trans)
qed simp

lemma info_one_bound:
  "info_one c bs n x = Some y \<Longrightarrow> in_min_post_quiescent_wake_epoch y = in_min_post_quiescent_wake_epoch x"
  by (auto simp: info_one_def Let_def bind_eq_Some_conv split: if_splits)

lemma info_loop_bound:
  "in_min_post_quiescent_wake_epoch (info_loop bs x) = in_min_post_quiescent_wake_epoch x"
proof (induction bs x rule: info_loop.induct)
  case (1 bs x)
  let ?n = "unat (load_le (take 4 (drop 4 bs)) :: u32)" and ?c = "load_le (take 4 bs) :: u32"
  show ?case
  proof (cases "length bs < 8 \<or> ?n < 8 \<or> length bs < ?n")
    case True
    then show ?thesis by (subst info_loop.simps) (auto simp: Let_def)
  next
    case False
    then show ?thesis
      using 1 [OF _ refl refl] info_one_bound [of ?c bs ?n x]
      by (subst info_loop.simps) (auto simp: Let_def split: option.split)
  qed
qed

definition file_in_window :: "kvepoch \<Rightarrow> bool \<Rightarrow> bytes \<Rightarrow> bool" where
  "file_in_window base q0 file \<longleftrightarrow>
     in_window base (in_first_epoch (file_info q0 file)) \<and> in_window base (in_last_epoch (file_info q0 file)) \<and>
     (\<forall>q. in_window base (min_post_quiescent_loop q file 0))"

text \<open>C22: the range that \<open>recover\<close> computes is safe, when all epochs lie within half of the range of
  the counter.  No log that was busy when the server stopped ends before the upper bound, so
  that every record below it is on disk; with a checkpoint, the checkpoint lies below the upper
  bound and every log begins below the lower one, as replaying it requires.\<close>

theorem recover_range_safe:
  assumes "recover_range q0 files cmin cmax = Some (mn, mx)"
    and "\<forall>fl \<in> set files. file_in_window base q0 fl"
    and "in_window base 0" "in_window base cmin" "in_window base (if cmax \<noteq> 0 then next_nonzero cmax else cmax)"
  shows "mn = cmin \<and>
    (\<forall>fl \<in> set files. let x = file_info q0 fl in
      (\<not> in_quiescent x \<and> in_last_epoch x \<noteq> 0 \<longrightarrow> \<not> ci_lt (in_last_epoch x) mx) \<and>
      (cmin \<noteq> 0 \<and> in_first_epoch x \<noteq> 0 \<longrightarrow> ci_lt (in_first_epoch x) cmin)) \<and>
    (cmin \<noteq> 0 \<longrightarrow> ci_lt cmin mx \<and> ci_lt cmax mx)"
proof -
  let ?infos = "map (file_info q0) files"
  let ?max = "max_nonzero (map in_last_epoch ?infos) (if cmax \<noteq> 0 then next_nonzero cmax else cmax)"
  let ?first = "max_nonzero (map in_first_epoch ?infos) 0"
  obtain q where q: "mx = upper_bound (map2 (analyze_wake q) files ?infos) ?max" and mn: "mn = cmin"
    and chk: "cmin \<noteq> 0 \<longrightarrow> ci_gt cmin ?first \<and> ci_lt cmin mx \<and> ci_lt cmax mx"
    using assms(1) unfolding recover_range_def Let_def by (auto split: if_splits)
  have infos: "map2 (analyze_wake q) files ?infos = map (\<lambda>fl. analyze_wake q fl (file_info q0 fl)) files"
    by (induction files) simp_all
  have max: "in_window base ?max" using max_nonzero_rank [OF assms(5)] assms(2) by (auto simp: file_in_window_def)
  have zero: "in_min_post_quiescent_wake_epoch (file_info q0 fl) = 0" for fl
    by (simp add: file_info_def info_loop_bound info_make_def)
  have "\<forall>x \<in> set (map (\<lambda>fl. analyze_wake q fl (file_info q0 fl)) files).
      in_window base (in_last_epoch x) \<and> in_window base (in_min_post_quiescent_wake_epoch x)"
    using assms(2,3) by (auto simp: analyze_wake_def file_in_window_def zero)
  from upper_bound_rank [OF max this]
  have ub: "in_window base mx" "\<forall>fl \<in> set files. let x = analyze_wake q fl (file_info q0 fl) in
      \<not> in_quiescent x \<and> in_last_epoch x \<noteq> 0 \<longrightarrow> ahead base mx \<le> ahead base (in_last_epoch x)"
    unfolding q infos by (auto simp: Let_def)
  have same: "in_quiescent (analyze_wake q fl x) = in_quiescent x" "in_last_epoch (analyze_wake q fl x) = in_last_epoch x"
    for fl x by (simp_all add: analyze_wake_def)
  have "\<not> ci_lt (in_last_epoch (file_info q0 fl)) mx"
    if "fl \<in> set files" "\<not> in_quiescent (file_info q0 fl)" "in_last_epoch (file_info q0 fl) \<noteq> 0" for fl
    using ub that assms(2) ci_lt_rank [of base "in_last_epoch (file_info q0 fl)" mx]
    by (auto simp: Let_def same file_in_window_def)
  moreover have "ci_lt (in_first_epoch (file_info q0 fl)) cmin"
    if "fl \<in> set files" "cmin \<noteq> 0" "in_first_epoch (file_info q0 fl) \<noteq> 0" for fl
  proof -
    have m: "in_window base ?first \<and> (\<forall>e \<in> set (map in_first_epoch ?infos). e \<noteq> 0 \<longrightarrow> ahead base e \<le> ahead base ?first)"
      using max_nonzero_rank [OF assms(3), of "map in_first_epoch ?infos"] assms(2) by (auto simp: file_in_window_def)
    have "ci_lt ?first cmin" using chk that(2) by (simp add: ci_gt_def ci_lt_def)
    then have "ahead base ?first < ahead base cmin" using ci_lt_rank m assms(4) by blast
    moreover have "ahead base (in_first_epoch (file_info q0 fl)) \<le> ahead base ?first" using m that by auto
    ultimately show ?thesis
      using ci_lt_rank [of base "in_first_epoch (file_info q0 fl)" cmin] that(1) assms(2,4)
      by (auto simp: file_in_window_def)
  qed
  ultimately show ?thesis using mn chk by (auto simp: Let_def)
qed

text \<open>Epoch records, as \<open>info\<close> and the search for wake records read them.\<close>

lemma epoch_image_head:
  "load_le (take 4 (item_image (It_epoch e) @ r)) = logcmd_epoch"
  "load_le (take 4 (drop 4 (item_image (It_epoch e) @ r))) = (16 :: u32)"
  "load_le (take 8 (drop 8 (item_image (It_epoch e) @ r))) = e"
  "length (item_image (It_epoch e) @ r) = 16 + length r" "drop 16 (item_image (It_epoch e) @ r) = r"
  by (simp_all add: load_store)

lemma info_loop_epoch:
  "info_loop (item_image (It_epoch e) @ r) x =
    info_loop r (let x = x\<lparr>in_quiescent := False\<rparr>;
        x = (if in_first_epoch x = 0 then x\<lparr>in_first_epoch := e\<rparr> else x); x = x\<lparr>in_last_epoch := e\<rparr>
      in if in_wake_epoch x \<noteq> 0 \<and> ci_gt (in_wake_epoch x) e then x\<lparr>in_wake_epoch := 0\<rparr> else x)"
proof -
  have f: "field (item_image (It_epoch e) @ r) 8 8 = Some e"
    using epoch_image_head [of e r] by (simp add: field_def get_bytes_def del: item_image.simps)
  have q: "logcmd_epoch \<noteq> logcmd_quiesce" by (simp add: logcmd_defs)
  show ?thesis
    by (subst info_loop.simps, simp only: epoch_image_head Let_def info_one_def f) (simp add: q)
qed

lemma min_post_quiescent_epoch:
  "min_post_quiescent_loop q (item_image (It_epoch e) @ r) e0 = min_post_quiescent_loop q r e"
  by (subst min_post_quiescent_loop.simps, simp only: epoch_image_head Let_def) simp

lemma loops_Nil: "info_loop [] x = x" "min_post_quiescent_loop q [] e = 0"
  by (subst info_loop.simps, simp) (subst min_post_quiescent_loop.simps, simp)

lemma recover_range_safe_witness:
  "in_last_epoch (file_info False (images [It_epoch 4, It_epoch 7])) = 7 \<and>
    \<not> ci_lt (in_last_epoch (file_info False (images [It_epoch 4, It_epoch 7]))) 7"
proof -
  let ?f = "item_image (It_epoch 4) @ item_image (It_epoch 7) @ []"
  have ne: "?f \<noteq> []" by (simp add: store_le_def)
  have i: "file_info False ?f = \<lparr>in_first_epoch = 4, in_last_epoch = 7, in_wake_epoch = 0,
      in_min_post_quiescent_wake_epoch = 0, in_quiescent = False\<rparr>"
    using ne by (simp only: file_info_def if_False info_loop_epoch loops_Nil) (simp add: info_make_def)
  have m: "min_post_quiescent_loop q ?f 0 = 0" for q
    by (simp only: min_post_quiescent_epoch loops_Nil)
  have w: "file_in_window 0 False ?f"
    unfolding file_in_window_def i m by (simp add: ahead_def)
  have r: "recover_range False [?f] 5 5 = Some (5, 7)"
    unfolding recover_range_def list.map i
    by (simp add: analyze_wake_def next_nonzero_def ci_lt_def ci_gt_def ci_le_def less_def del: item_image.simps)
  show ?thesis
    using recover_range_safe [OF r, of 0] w
    by (simp only: images_Cons images_Nil) (simp add: i [unfolded append_Nil2] ahead_def next_nonzero_def Let_def del: item_image.simps)
qed

end
